(* ===== verification/Prelude.thy ===== *)
theory Prelude
  imports Main "HOL-Library.Word"
begin

unbundle bit_operations_syntax

text \<open>
  The shared vocabulary of the development: the C integer types of \<open>kernel/types.h\<close> as
  words, the outcome type of kernel code (\<open>res\<close>) with its sequencing operator \<open>seq\<close> and the
  counted loop \<open>foreach\<close>, byte strings with little-endian fields (the layout of the on-disk
  structures), and the generic lemmas the component theories share.

  Outcomes.  Kernel code is modelled as functions from a state to an outcome.
  \<^item> \<open>Ok a s\<close>: the call returned \<open>a\<close> in state \<open>s\<close>.
  \<^item> \<open>Panic m\<close>: the code called \<open>panic(m)\<close>, which never returns.
  \<^item> \<open>Spin\<close>: the code loops until another hart (or the hardware) acts.
  \<^item> \<open>Away s\<close>: the process left the CPU through \<open>sched()\<close> in state \<open>s\<close>; every \<open>sleep()\<close>
    that really sleeps ends here.
  \<^item> \<open>Undef\<close>: the C code has undefined behaviour here (a null pointer is dereferenced, an
    array is indexed out of its bounds).
\<close>

section \<open>C integer types\<close>

type_synonym byte = "8 word"
type_synonym ushort = "16 word"
type_synonym uint = "32 word"
type_synonym uint64 = "64 word"

section \<open>Outcomes and sequencing\<close>

datatype ('a, 's) res = Ok 'a 's | Panic string | Spin | Away 's | Undef

primrec seq :: "('a, 's) res \<Rightarrow> ('a \<Rightarrow> 's \<Rightarrow> ('b, 's) res) \<Rightarrow> ('b, 's) res" where
  "seq (Ok a s) f = f a s"
| "seq (Panic m) f = Panic m"
| "seq Spin f = Spin"
| "seq (Away s) f = Away s"
| "seq Undef f = Undef"

named_theorems ok_simps \<open>when an operation returns, and in which state\<close>

lemma seq_Ok_iff [ok_simps]:
  "seq r f = Ok b t \<longleftrightarrow> (\<exists>a s. r = Ok a s \<and> f a s = Ok b t)"
  by (cases r) auto

lemma seq_OkE:
  assumes "seq r f = Ok b t"
  obtains a s where "r = Ok a s" and "f a s = Ok b t"
  using assms by (auto simp: seq_Ok_iff)

lemma seq_cong [fundef_cong]:
  "r = r' \<Longrightarrow> (\<And>a s. r' = Ok a s \<Longrightarrow> f a s = g a s) \<Longrightarrow> seq r f = seq r' g"
  by (cases r') auto

lemma seq_assoc: "seq (seq r f) g = seq r (\<lambda>a s. seq (f a s) g)"
  by (cases r) auto

lemma seq_Ok_right [simp]: "seq r Ok = r"
  by (cases r) auto

text \<open>The loop \<open>for(x in xs) body\<close>, for a body with no early exit.\<close>

primrec foreach :: "'x list \<Rightarrow> ('x \<Rightarrow> 's \<Rightarrow> (unit, 's) res) \<Rightarrow> 's \<Rightarrow> (unit, 's) res" where
  "foreach [] f s = Ok () s"
| "foreach (x # xs) f s = seq (f x s) (\<lambda>_ s. foreach xs f s)"

text \<open>\<open>collect n f\<close> calls \<open>f\<close> \<open>n\<close> times and lists what the calls return.\<close>

primrec collect :: "nat \<Rightarrow> ('s \<Rightarrow> ('a, 's) res) \<Rightarrow> 's \<Rightarrow> ('a list, 's) res" where
  "collect 0 f s = Ok [] s"
| "collect (Suc n) f s = seq (f s) (\<lambda>x s. seq (collect n f s) (\<lambda>xs s. Ok (x # xs) s))"

lemma foreach_append:
  "foreach (xs @ ys) f s = seq (foreach xs f s) (\<lambda>_ s. foreach ys f s)"
  by (induction xs arbitrary: s) (auto simp: seq_assoc)

lemma foreach_invariant:
  assumes "foreach xs f s = Ok u s'"
    and "\<And>x s u s'. x \<in> set xs \<Longrightarrow> I s \<Longrightarrow> f x s = Ok u s' \<Longrightarrow> I s'"
    and "I s"
  shows "I s'"
  using assms
proof (induction xs arbitrary: s)
  case Nil
  then show ?case by simp
next
  case (Cons x xs)
  from Cons.prems(1) obtain v t where t: "f x s = Ok v t" "foreach xs f t = Ok u s'"
    by (auto simp: seq_Ok_iff)
  from Cons.prems(2)[of x s v t] t Cons.prems(3) have "I t" by simp
  moreover have "\<And>x s u s'. x \<in> set xs \<Longrightarrow> I s \<Longrightarrow> f x s = Ok u s' \<Longrightarrow> I s'"
    using Cons.prems(2) by auto
  ultimately show ?case using Cons.IH[OF t(2)] by blast
qed

section \<open>Byte strings\<close>

text \<open>\<open>slice off n bs\<close> is the \<open>n\<close> bytes at offset \<open>off\<close>; \<open>splice off new bs\<close> overwrites.\<close>

definition slice :: "nat \<Rightarrow> nat \<Rightarrow> byte list \<Rightarrow> byte list" where
  "slice off n bs = take n (drop off bs)"

definition splice :: "nat \<Rightarrow> byte list \<Rightarrow> byte list \<Rightarrow> byte list" where
  "splice off new bs = take off bs @ new @ drop (off + length new) bs"

lemma length_slice [simp]: "off + n \<le> length bs \<Longrightarrow> length (slice off n bs) = n"
  by (simp add: slice_def)

lemma length_splice [simp]: "off + length new \<le> length bs \<Longrightarrow> length (splice off new bs) = length bs"
  by (simp add: splice_def)

lemma nth_slice [simp]: "off + n \<le> length bs \<Longrightarrow> i < n \<Longrightarrow> slice off n bs ! i = bs ! (off + i)"
  by (simp add: slice_def)

lemma nth_splice:
  assumes "off + length new \<le> length bs" "i < length bs"
  shows "splice off new bs ! i =
    (if off \<le> i \<and> i < off + length new then new ! (i - off) else bs ! i)"
  using assms by (auto simp: splice_def nth_append min_def)

lemma slice_splice_same [simp]:
  "off + length new \<le> length bs \<Longrightarrow> n = length new \<Longrightarrow> slice off n (splice off new bs) = new"
  by (simp add: slice_def splice_def)

lemma slice_splice_other:
  assumes "off + length new \<le> length bs" "o2 + n \<le> length bs"
    and "o2 + n \<le> off \<or> off + length new \<le> o2"
  shows "slice o2 n (splice off new bs) = slice o2 n bs"
  by (rule nth_equalityI) (use assms in \<open>auto simp: nth_splice\<close>)

lemma splice_splice_same [simp]:
  "off + length a \<le> length bs \<Longrightarrow> length a = length b \<Longrightarrow> splice off b (splice off a bs) = splice off b bs"
  by (simp add: splice_def)

lemma splice_slice_id: "off + n \<le> length bs \<Longrightarrow> splice off (slice off n bs) bs = bs"
  by (rule nth_equalityI) (auto simp: nth_splice)

section \<open>Little-endian fields\<close>

text \<open>RISC-V is little endian: the bytes of an integer in memory, lowest first.\<close>

definition le_bytes :: "'a::len word \<Rightarrow> byte list" where
  "le_bytes v = map (\<lambda>i. ucast (drop_bit (8 * i) v)) [0..<LENGTH('a) div 8]"

primrec le_word :: "byte list \<Rightarrow> 'a::len word" where
  "le_word [] = 0"
| "le_word (b # bs) = ucast b OR push_bit 8 (le_word bs)"

lemma bit_le_word:
  "bit (le_word bs :: 'a::len word) n \<longleftrightarrow>
   n < LENGTH('a) \<and> n div 8 < length bs \<and> bit (bs ! (n div 8)) (n mod 8)"
proof (induction bs arbitrary: n)
  case Nil
  then show ?case by simp
next
  case (Cons b bs)
  show ?case
  proof (cases "n < 8")
    case True
    then show ?thesis by (auto simp: bit_simps)
  next
    case False
    then obtain m where m: "n = m + 8" by (metis add.commute le_Suc_ex not_less)
    have "\<not> bit b (m + 8)" using bit_imp_le_length[of b "m + 8"] by auto
    moreover have "(m + 8) div 8 = Suc (m div 8)" by simp
    ultimately show ?thesis using Cons[of m] m
      by (auto simp: bit_simps dest: bit_imp_le_length)
  qed
qed

lemma le_word_bytes:
  assumes "8 dvd LENGTH('a)"
  shows "le_word (le_bytes v) = (v :: 'a::len word)"
proof (rule bit_word_eqI)
  fix n assume n: "n < LENGTH('a)"
  then have "n div 8 < LENGTH('a) div 8"
    using assms by (metis dvd_div_mult_self less_mult_imp_div_less)
  moreover have "8 * (n div 8) + n mod 8 = n" by simp
  ultimately show "bit (le_word (le_bytes v) :: 'a word) n = bit v n"
    using n by (simp add: bit_le_word le_bytes_def bit_simps)
qed

lemma le_word_bytes_16 [simp]: "le_word (le_bytes v) = (v :: ushort)"
  by (rule le_word_bytes) simp

lemma le_word_bytes_32 [simp]: "le_word (le_bytes v) = (v :: uint)"
  by (rule le_word_bytes) simp

lemma le_word_bytes_64 [simp]: "le_word (le_bytes v) = (v :: uint64)"
  by (rule le_word_bytes) simp

lemma length_le_bytes_16 [simp]: "length (le_bytes (v :: ushort)) = 2"
  by (simp add: le_bytes_def)

lemma length_le_bytes_32 [simp]: "length (le_bytes (v :: uint)) = 4"
  by (simp add: le_bytes_def)

lemma length_le_bytes_64 [simp]: "length (le_bytes (v :: uint64)) = 8"
  by (simp add: le_bytes_def)

lemma le_bytes_word_eqI:
  assumes "length bs = LENGTH('a) div 8" "8 dvd LENGTH('a)"
  shows "le_bytes (le_word bs :: 'a::len word) = bs"
proof (rule nth_equalityI)
  show "length (le_bytes (le_word bs :: 'a word)) = length bs"
    using assms by (simp add: le_bytes_def)
next
  fix i assume "i < length (le_bytes (le_word bs :: 'a word))"
  then have i: "i < LENGTH('a) div 8" by (simp add: le_bytes_def)
  show "le_bytes (le_word bs :: 'a word) ! i = bs ! i"
  proof (rule bit_word_eqI)
    fix n assume n: "n < LENGTH(8)"
    have "8 * i + n < LENGTH('a)"
      using i n assms(2) by (auto simp: dvd_def)
    then show "bit (le_bytes (le_word bs :: 'a word) ! i) n = bit (bs ! i) n"
      using i n assms(1) by (simp add: le_bytes_def bit_simps bit_le_word)
  qed
qed

definition get16 :: "nat \<Rightarrow> byte list \<Rightarrow> ushort" where
  "get16 off bs = le_word (slice off 2 bs)"

definition get32 :: "nat \<Rightarrow> byte list \<Rightarrow> uint" where
  "get32 off bs = le_word (slice off 4 bs)"

definition get64 :: "nat \<Rightarrow> byte list \<Rightarrow> uint64" where
  "get64 off bs = le_word (slice off 8 bs)"

definition put16 :: "nat \<Rightarrow> ushort \<Rightarrow> byte list \<Rightarrow> byte list" where
  "put16 off v bs = splice off (le_bytes v) bs"

definition put32 :: "nat \<Rightarrow> uint \<Rightarrow> byte list \<Rightarrow> byte list" where
  "put32 off v bs = splice off (le_bytes v) bs"

lemma length_put16 [simp]: "off + 2 \<le> length bs \<Longrightarrow> length (put16 off v bs) = length bs"
  by (simp add: put16_def)

lemma length_put32 [simp]: "off + 4 \<le> length bs \<Longrightarrow> length (put32 off v bs) = length bs"
  by (simp add: put32_def)

lemma get16_put16 [simp]: "off + 2 \<le> length bs \<Longrightarrow> get16 off (put16 off v bs) = v"
  by (simp add: get16_def put16_def)

lemma get32_put32 [simp]: "off + 4 \<le> length bs \<Longrightarrow> get32 off (put32 off v bs) = v"
  by (simp add: get32_def put32_def)

lemma get32_put32_other:
  "off + 4 \<le> length bs \<Longrightarrow> o2 + 4 \<le> length bs \<Longrightarrow> o2 + 4 \<le> off \<or> off + 4 \<le> o2 \<Longrightarrow>
   get32 o2 (put32 off v bs) = get32 o2 bs"
  by (simp add: get32_def put32_def slice_splice_other)

lemma le_word_zero [simp]: "le_word (replicate n 0) = (0 :: 'a::len word)"
  by (induction n) simp_all

section \<open>Lists\<close>

lemma nth_list_update_if:
  "i < length xs \<Longrightarrow> xs[j := v] ! i = (if i = j then v else xs ! i)"
  by (cases "j < length xs") (auto simp: nth_list_update)

lemma list_update_map_upt:
  "length xs = n \<Longrightarrow> (\<And>i. i < n \<Longrightarrow> ys ! i = f i (xs ! i)) \<Longrightarrow> length ys = n \<Longrightarrow>
   ys = map (\<lambda>i. f i (xs ! i)) [0..<n]"
  by (rule nth_equalityI) auto

section \<open>Words\<close>

lemma unat_add_small:
  "unat a + unat b < 2 ^ LENGTH('a) \<Longrightarrow> unat (a + b :: 'a::len word) = unat a + unat b"
  by (simp add: unat_word_ariths)

lemma unat_sub_le: "b \<le> a \<Longrightarrow> unat (a - b :: 'a::len word) = unat a - unat b"
  by (simp add: unat_sub word_le_nat_alt)

lemma word_and_not_or_absorb:
  fixes x m :: "'a::len word"
  assumes "x AND m = m"
  shows "(x AND NOT m) OR m = x"
proof (rule bit_word_eqI)
  fix n assume n: "n < LENGTH('a)"
  have "bit (x AND m) n = bit m n" using assms by simp
  with n show "bit ((x AND NOT m) OR m) n = bit x n"
    by (auto simp: bit_simps)
qed

end
