(* ===== verification/Params.thy ===== *)
theory Params
  imports Prelude
begin

text \<open>
  The constants and address macros of the header files: \<open>kernel/param.h\<close>, \<open>kernel/fs.h\<close>,
  \<open>kernel/riscv.h\<close>, \<open>kernel/memlayout.h\<close>, \<open>kernel/stat.h\<close> and \<open>kernel/fcntl.h\<close>.  Sizes and
  block counts are naturals; addresses, page-table entries and flag words are machine words.
  Every constant is collected in \<open>params\<close>, to be unfolded where a proof computes with it.
\<close>

named_theorems params \<open>values of the header constants\<close>

section \<open>kernel/param.h\<close>

definition NPROC :: nat where [params]: "NPROC = 64"
definition NCPU :: nat where [params]: "NCPU = 8"
definition NOFILE :: nat where [params]: "NOFILE = 16"
definition NFILE :: nat where [params]: "NFILE = 100"
definition NINODE :: nat where [params]: "NINODE = 50"
definition NDEV :: nat where [params]: "NDEV = 10"
definition ROOTDEV :: nat where [params]: "ROOTDEV = 1"
definition MAXARG :: nat where [params]: "MAXARG = 32"
definition MAXOPBLOCKS :: nat where [params]: "MAXOPBLOCKS = 10"
definition LOGBLOCKS :: nat where [params]: "LOGBLOCKS = MAXOPBLOCKS * 3"
definition NBUF :: nat where [params]: "NBUF = MAXOPBLOCKS * 3"
definition FSSIZE :: nat where [params]: "FSSIZE = 2000"
definition MAXPATH :: nat where [params]: "MAXPATH = 128"
definition USERSTACK :: nat where [params]: "USERSTACK = 1"

section \<open>kernel/fs.h\<close>

definition ROOTINO :: nat where [params]: "ROOTINO = 1"
definition BSIZE :: nat where [params]: "BSIZE = 1024"
definition FSMAGIC :: uint where [params]: "FSMAGIC = 0x10203040"
definition NDIRECT :: nat where [params]: "NDIRECT = 12"
definition NINDIRECT :: nat where [params]: "NINDIRECT = BSIZE div 4"
definition MAXFILE :: nat where [params]: "MAXFILE = NDIRECT + NINDIRECT"
definition DINODE_SIZE :: nat where [params]: "DINODE_SIZE = 64"
definition IPB :: nat where [params]: "IPB = BSIZE div DINODE_SIZE"
definition BPB :: nat where [params]: "BPB = BSIZE * 8"
definition DIRSIZ :: nat where [params]: "DIRSIZ = 14"
definition DIRENT_SIZE :: nat where [params]: "DIRENT_SIZE = 16"

text \<open>\<open>struct superblock\<close>.\<close>

record superblock =
  sb_magic :: uint
  sb_size :: nat
  sb_nblocks :: nat
  sb_ninodes :: nat
  sb_nlog :: nat
  sb_logstart :: nat
  sb_inodestart :: nat
  sb_bmapstart :: nat

definition IBLOCK :: "nat \<Rightarrow> superblock \<Rightarrow> nat" where
  "IBLOCK i sb = i div IPB + sb_inodestart sb"

definition BBLOCK :: "nat \<Rightarrow> superblock \<Rightarrow> nat" where
  "BBLOCK b sb = b div BPB + sb_bmapstart sb"

section \<open>kernel/stat.h and kernel/fcntl.h\<close>

definition T_DIR :: ushort where [params]: "T_DIR = 1"
definition T_FILE :: ushort where [params]: "T_FILE = 2"
definition T_DEVICE :: ushort where [params]: "T_DEVICE = 3"

definition O_RDONLY :: uint where [params]: "O_RDONLY = 0x000"
definition O_WRONLY :: uint where [params]: "O_WRONLY = 0x001"
definition O_RDWR :: uint where [params]: "O_RDWR = 0x002"
definition O_CREATE :: uint where [params]: "O_CREATE = 0x200"
definition O_TRUNC :: uint where [params]: "O_TRUNC = 0x400"

section \<open>kernel/riscv.h\<close>

definition PGSIZE :: uint64 where [params]: "PGSIZE = 4096"

definition PGROUNDUP :: "uint64 \<Rightarrow> uint64" where
  "PGROUNDUP sz = (sz + PGSIZE - 1) AND NOT (PGSIZE - 1)"

definition PGROUNDDOWN :: "uint64 \<Rightarrow> uint64" where
  "PGROUNDDOWN a = a AND NOT (PGSIZE - 1)"

definition PTE_V :: uint64 where [params]: "PTE_V = 1"
definition PTE_R :: uint64 where [params]: "PTE_R = 2"
definition PTE_W :: uint64 where [params]: "PTE_W = 4"
definition PTE_X :: uint64 where [params]: "PTE_X = 8"
definition PTE_U :: uint64 where [params]: "PTE_U = 16"

definition PA2PTE :: "uint64 \<Rightarrow> uint64" where
  "PA2PTE pa = push_bit 10 (drop_bit 12 pa)"

definition PTE2PA :: "uint64 \<Rightarrow> uint64" where
  "PTE2PA pte = push_bit 12 (drop_bit 10 pte)"

definition PTE_FLAGS :: "uint64 \<Rightarrow> uint64" where
  "PTE_FLAGS pte = pte AND 0x3FF"

definition PX :: "nat \<Rightarrow> uint64 \<Rightarrow> uint64" where
  "PX level va = drop_bit (12 + 9 * level) va AND 0x1FF"

definition MAXVA :: uint64 where [params]: "MAXVA = 0x4000000000"

definition SATP_SV39 :: uint64 where [params]: "SATP_SV39 = 0x8000000000000000"

definition MAKE_SATP :: "uint64 \<Rightarrow> uint64" where
  "MAKE_SATP pagetable = SATP_SV39 OR drop_bit 12 pagetable"

definition SSTATUS_SPP :: uint64 where [params]: "SSTATUS_SPP = 0x100"
definition SSTATUS_SPIE :: uint64 where [params]: "SSTATUS_SPIE = 0x20"
definition SSTATUS_SIE :: uint64 where [params]: "SSTATUS_SIE = 0x2"

section \<open>kernel/memlayout.h\<close>

definition KERNBASE :: uint64 where [params]: "KERNBASE = 0x80000000"
definition PHYSTOP :: uint64 where [params]: "PHYSTOP = KERNBASE + 128*1024*1024"
definition TRAMPOLINE :: uint64 where [params]: "TRAMPOLINE = MAXVA - PGSIZE"
definition TRAPFRAME :: uint64 where [params]: "TRAPFRAME = TRAMPOLINE - PGSIZE"

definition KSTACK :: "nat \<Rightarrow> uint64" where
  "KSTACK p = TRAMPOLINE - (of_nat p + 1) * 2 * PGSIZE"

section \<open>Facts about the layout\<close>

lemma sizes [simp]: "0 < BSIZE" "0 < IPB" "0 < BPB" "0 < NBUF" "0 < NPROC" "0 < NINODE"
  by (simp_all add: params)

text \<open>An inode and a directory entry never straddle a block.\<close>

lemma dinode_fits: "(i mod IPB) * DINODE_SIZE + DINODE_SIZE \<le> BSIZE"
proof -
  have "i mod IPB \<le> 15" using mod_less_divisor[of IPB i] by (simp add: params)
  then show ?thesis by (simp add: params)
qed

lemma bitmap_byte_fits: "(b mod BPB) div 8 < BSIZE"
  using mod_less_divisor[of BPB b] by (simp add: params)

end
