(* ===== verification/CString.thy ===== *)
theory CString
  imports Params
begin

text \<open>
  \<open>kernel/string.c\<close>: the byte and string routines.  Memory is a function from 64-bit
  addresses to bytes; \<open>rd m a n\<close> reads \<open>n\<close> bytes and \<open>wr m a bs\<close> writes the bytes \<open>bs\<close>, both
  with wrapping address arithmetic.  The routines that write memory are loops over the
  addresses the C loops touch, in the same order; the routines that only read are given the
  bytes at successive addresses as functions \<open>nat \<Rightarrow> byte\<close>, so that the same definition
  serves a pointer into memory (\<open>at m a\<close>) and a byte array (\<open>arr xs\<close>).  On RISC-V \<open>char\<close> is
  unsigned, so a byte is compared as its unsigned value.  The lemmas show that \<open>memmove\<close>
  copies correctly whatever the overlap, and what the bounded string routines leave behind.
\<close>

section \<open>Memory\<close>

type_synonym mem = "uint64 \<Rightarrow> byte"

definition rd :: "mem \<Rightarrow> uint64 \<Rightarrow> nat \<Rightarrow> byte list" where
  "rd m a n = map (\<lambda>i. m (a + of_nat i)) [0..<n]"

definition wr :: "mem \<Rightarrow> uint64 \<Rightarrow> byte list \<Rightarrow> mem" where
  "wr m a bs = (\<lambda>x. if unat (x - a) < length bs then bs ! unat (x - a) else m x)"

definition at :: "mem \<Rightarrow> uint64 \<Rightarrow> nat \<Rightarrow> byte" where
  "at m a = (\<lambda>i. m (a + of_nat i))"

definition arr :: "byte list \<Rightarrow> nat \<Rightarrow> byte" where
  "arr xs = (\<lambda>i. if i < length xs then xs ! i else 0)"

lemma length_rd [simp]: "length (rd m a n) = n"
  by (simp add: rd_def)

lemma nth_rd [simp]: "i < n \<Longrightarrow> rd m a n ! i = m (a + of_nat i)"
  by (simp add: rd_def)

lemma wr_Nil [simp]: "wr m a [] = m"
  by (simp add: wr_def)

lemma unat_of_nat_64: "n < 2 ^ 64 \<Longrightarrow> unat (of_nat n :: uint64) = n"
  by (simp add: unat_of_nat)

lemma wr_at [simp]:
  "i < length bs \<Longrightarrow> length bs \<le> 2 ^ 64 \<Longrightarrow> wr m a bs (a + of_nat i) = bs ! i"
  by (simp add: wr_def unat_of_nat)

lemma rd_wr_same: "length bs \<le> 2 ^ 64 \<Longrightarrow> n = length bs \<Longrightarrow> rd (wr m a bs) a n = bs"
  by (rule nth_equalityI) auto

lemma wr_Cons:
  assumes "length bs < 2 ^ 64"
  shows "wr m a (b # bs) = wr (m(a := b)) (a + 1) bs"
proof
  fix x
  show "wr m a (b # bs) x = wr (m(a := b)) (a + 1) bs x"
  proof (cases "x = a")
    case True
    have "unat (a - (a + 1)) = 2 ^ 64 - 1" by (simp add: unsigned_minus_1_eq_mask mask_eq_exp_minus_1)
    then show ?thesis using True assms by (auto simp: wr_def)
  next
    case False
    then have "x - a \<noteq> 0" by simp
    then have "unat (x - a) = Suc (unat (x - a - 1))"
      by (metis Suc_pred' unat_gt_0 unat_minus_one)
    then show ?thesis using False by (auto simp: wr_def diff_diff_eq)
  qed
qed

lemma word_offset: "unat (x - a) = k \<Longrightarrow> x = a + (of_nat k :: uint64)"
  by (metis add.commute diff_add_cancel of_nat_unat ucast_id)

lemma wr_snoc:
  assumes "length bs < 2 ^ 64"
  shows "wr m a (bs @ [b]) = (wr m a bs)(a + of_nat (length bs) := b)"
proof
  fix x
  show "wr m a (bs @ [b]) x = ((wr m a bs)(a + of_nat (length bs) := b)) x"
  proof (cases "x = a + of_nat (length bs)")
    case True
    then show ?thesis using assms by (simp add: wr_def unat_of_nat)
  next
    case False
    then have "unat (x - a) \<noteq> length bs"
      using word_offset by blast
    then show ?thesis using False by (auto simp: wr_def nth_append)
  qed
qed

lemma rd_Suc: "rd m a (Suc n) = m a # rd m (a + 1) n"
proof (rule nth_equalityI)
  fix i assume "i < length (rd m a (Suc n))"
  then show "rd m a (Suc n) ! i = (m a # rd m (a + 1) n) ! i"
    by (cases i) (auto simp: ac_simps)
qed simp

lemma rd_snoc: "rd m a (Suc n) = rd m a n @ [m (a + of_nat n)]"
  by (simp add: rd_def)

lemma rd_cong: "(\<And>i. i < n \<Longrightarrow> m (a + of_nat i) = m' (a + of_nat i)) \<Longrightarrow> rd m a n = rd m' a n"
  by (rule nth_equalityI) auto

section \<open>memset, memcmp, memmove, memcpy\<close>

function memset_loop :: "uint64 \<Rightarrow> byte \<Rightarrow> nat \<Rightarrow> nat \<Rightarrow> mem \<Rightarrow> mem" where
  "memset_loop cdst c i n m =
     (if i < n then memset_loop cdst c (Suc i) n (m(cdst + of_nat i := c)) else m)"
  by pat_completeness auto
termination
  by (relation "measure (\<lambda>(cdst, c, i, n, m). n - i)") auto

declare memset_loop.simps [simp del]

definition memset :: "uint64 \<Rightarrow> byte \<Rightarrow> nat \<Rightarrow> mem \<Rightarrow> mem" where
  "memset dst c n m = memset_loop dst c 0 n m"

fun memcmp :: "(nat \<Rightarrow> byte) \<Rightarrow> (nat \<Rightarrow> byte) \<Rightarrow> nat \<Rightarrow> int" where
  "memcmp s1 s2 0 = 0"
| "memcmp s1 s2 (Suc n) =
     (if s1 0 \<noteq> s2 0 then uint (s1 0) - uint (s2 0)
      else memcmp (\<lambda>i. s1 (Suc i)) (\<lambda>i. s2 (Suc i)) n)"

text \<open>The two copying loops of \<open>memmove\<close>: \<open>*--d = *--s\<close> and \<open>*d++ = *s++\<close>.\<close>

fun move_down :: "nat \<Rightarrow> uint64 \<Rightarrow> uint64 \<Rightarrow> mem \<Rightarrow> mem" where
  "move_down 0 d s m = m"
| "move_down (Suc n) d s m = move_down n (d - 1) (s - 1) (m(d - 1 := m (s - 1)))"

fun move_up :: "nat \<Rightarrow> uint64 \<Rightarrow> uint64 \<Rightarrow> mem \<Rightarrow> mem" where
  "move_up 0 d s m = m"
| "move_up (Suc n) d s m = move_up n (d + 1) (s + 1) (m(d := m s))"

definition memmove :: "uint64 \<Rightarrow> uint64 \<Rightarrow> nat \<Rightarrow> mem \<Rightarrow> mem" where
  "memmove dst src n m =
     (if n = 0 then m
      else if src < dst \<and> src + of_nat n > dst
      then move_down n (dst + of_nat n) (src + of_nat n) m
      else move_up n dst src m)"

definition memcpy :: "uint64 \<Rightarrow> uint64 \<Rightarrow> nat \<Rightarrow> mem \<Rightarrow> mem" where
  "memcpy dst src n m = memmove dst src n m"

section \<open>strncmp, strncpy, safestrcpy, strlen\<close>

fun strncmp :: "(nat \<Rightarrow> byte) \<Rightarrow> (nat \<Rightarrow> byte) \<Rightarrow> nat \<Rightarrow> int" where
  "strncmp p q 0 = 0"
| "strncmp p q (Suc n) =
     (if p 0 \<noteq> 0 \<and> p 0 = q 0 then strncmp (\<lambda>i. p (Suc i)) (\<lambda>i. q (Suc i)) n
      else uint (p 0) - uint (q 0))"

text \<open>\<open>while(n-- > 0) *s++ = 0\<close>, then the whole of \<open>strncpy\<close>.\<close>

fun strncpy_pad :: "uint64 \<Rightarrow> nat \<Rightarrow> mem \<Rightarrow> mem" where
  "strncpy_pad s 0 m = m"
| "strncpy_pad s (Suc n) m = strncpy_pad (s + 1) n (m(s := 0))"

fun strncpy :: "uint64 \<Rightarrow> uint64 \<Rightarrow> nat \<Rightarrow> mem \<Rightarrow> mem" where
  "strncpy s t 0 m = m"
| "strncpy s t (Suc n) m =
     (let m' = m(s := m t) in
      if m t \<noteq> 0 then strncpy (s + 1) (t + 1) n m' else strncpy_pad (s + 1) n m')"

text \<open>\<open>while(--n > 0 && (*s++ = *t++) != 0); *s = 0;\<close> with \<open>n\<close> bytes left to write.\<close>

fun safestrcpy_loop :: "uint64 \<Rightarrow> uint64 \<Rightarrow> nat \<Rightarrow> mem \<Rightarrow> mem" where
  "safestrcpy_loop s t 0 m = m(s := 0)"
| "safestrcpy_loop s t (Suc n) m =
     (let m' = m(s := m t) in
      if m t \<noteq> 0 then safestrcpy_loop (s + 1) (t + 1) n m' else m'(s + 1 := 0))"

definition safestrcpy :: "uint64 \<Rightarrow> uint64 \<Rightarrow> int \<Rightarrow> mem \<Rightarrow> mem" where
  "safestrcpy s t n m = (if n \<le> 0 then m else safestrcpy_loop s t (nat (n - 1)) m)"

partial_function (option) strlen_from :: "(nat \<Rightarrow> byte) \<Rightarrow> nat \<Rightarrow> nat option" where
  "strlen_from s n = (if s n = 0 then Some n else strlen_from s (Suc n))"

definition strlen :: "(nat \<Rightarrow> byte) \<Rightarrow> nat option" where
  "strlen s = strlen_from s 0"

section \<open>What the routines compute\<close>

lemma memset_loop_eq:
  assumes "i \<le> n" "n \<le> 2 ^ 64"
  shows "memset_loop d c i n m = (\<lambda>x. if i \<le> unat (x - d) \<and> unat (x - d) < n then c else m x)"
  using assms
proof (induction "n - i" arbitrary: i m)
  case 0
  then show ?case by (subst memset_loop.simps) (auto simp: fun_eq_iff)
next
  case (Suc k)
    have True: "i < n" using Suc.hyps(2) by simp
    have eq: "unat (x - d) = i \<longleftrightarrow> x = d + of_nat i" for x
    proof
      assume "unat (x - d) = i"
      then show "x = d + of_nat i"
        by (rule word_offset)
    qed (use True Suc.prems in \<open>simp add: unat_of_nat\<close>)
    have "memset_loop d c i n m = memset_loop d c (Suc i) n (m(d + of_nat i := c))"
      using True by (subst memset_loop.simps) simp
    also have "\<dots> = (\<lambda>x. if Suc i \<le> unat (x - d) \<and> unat (x - d) < n then c
        else (m(d + of_nat i := c)) x)"
      using Suc.hyps(1)[of "Suc i"] Suc.hyps(2) Suc.prems True by simp
    also have "\<dots> = (\<lambda>x. if i \<le> unat (x - d) \<and> unat (x - d) < n then c else m x)"
    proof
      fix x
      show "(if Suc i \<le> unat (x - d) \<and> unat (x - d) < n then c else (m(d + of_nat i := c)) x) =
          (if i \<le> unat (x - d) \<and> unat (x - d) < n then c else m x)"
        using True eq[of x] by (cases "x = d + of_nat i") auto
    qed
    finally show ?case .
qed

lemma memset_wr: "n \<le> 2 ^ 64 \<Longrightarrow> memset dst c n m = wr m dst (replicate n c)"
  by (auto simp: memset_def memset_loop_eq wr_def fun_eq_iff)

lemma move_up_wr:
  assumes "n < 2 ^ 64" and "\<And>i j. i < j \<Longrightarrow> j < n \<Longrightarrow> d + of_nat i \<noteq> s + of_nat j"
  shows "move_up n d s m = wr m d (rd m s n)"
  using assms
proof (induction n arbitrary: d s m)
  case 0
  then show ?case by (simp add: rd_def)
next
  case (Suc n)
  have ne: "d \<noteq> s + 1 + of_nat j" if "j < n" for j
    using Suc.prems(2)[of 0 "Suc j"] that by (simp add: ac_simps)
  let ?m = "m(d := m s)"
  have "move_up n (d + 1) (s + 1) ?m = wr ?m (d + 1) (rd ?m (s + 1) n)"
  proof (rule Suc.IH)
    show "n < 2 ^ 64" using Suc.prems(1) by simp
    show "d + 1 + of_nat i \<noteq> s + 1 + of_nat j" if "i < j" "j < n" for i j
      using Suc.prems(2)[of "Suc i" "Suc j"] that by (simp add: ac_simps)
  qed
  also have "rd ?m (s + 1) n = rd m (s + 1) n"
    using ne by (intro rd_cong) force
  also have "wr ?m (d + 1) (rd m (s + 1) n) = wr m d (m s # rd m (s + 1) n)"
    by (rule wr_Cons[symmetric]) (use Suc.prems(1) in simp)
  finally show ?case by (simp only: rd_Suc move_up.simps)
qed

lemma wr_upd_outside:
  "length bs \<le> unat (y - a) \<Longrightarrow> wr (m(y := v)) a bs = (wr m a bs)(y := v)"
  by (auto simp: wr_def fun_eq_iff)

lemma move_down_wr:
  assumes "n < 2 ^ 64"
    and "\<And>i j. i < j \<Longrightarrow> j < n \<Longrightarrow> d - of_nat n + of_nat j \<noteq> s - of_nat n + of_nat i"
  shows "move_down n d s m = wr m (d - of_nat n) (rd m (s - of_nat n) n)"
  using assms
proof (induction n arbitrary: d s m)
  case 0
  then show ?case by (simp add: rd_def)
next
  case (Suc n)
  let ?D = "d - of_nat (Suc n)" and ?S = "s - of_nat (Suc n)"
  let ?m = "m(d - 1 := m (s - 1))"
  have D: "d - 1 - of_nat n = ?D" "s - 1 - of_nat n = ?S" "?D + of_nat n = d - 1" "?S + of_nat n = s - 1"
    by (simp_all add: algebra_simps)
  have ne: "d - 1 \<noteq> ?S + of_nat i" if "i < n" for i
    using Suc.prems(2)[of i n] that D by simp
  have "move_down n (d - 1) (s - 1) ?m = wr ?m (d - 1 - of_nat n) (rd ?m (s - 1 - of_nat n) n)"
  proof (rule Suc.IH)
    show "n < 2 ^ 64" using Suc.prems(1) by simp
    show "d - 1 - of_nat n + of_nat j \<noteq> s - 1 - of_nat n + of_nat i" if "i < j" "j < n" for i j
      using Suc.prems(2)[of i j] that D by simp
  qed
  then have "move_down (Suc n) d s m = wr ?m ?D (rd ?m ?S n)"
    by (simp only: D move_down.simps)
  also have "rd ?m ?S n = rd m ?S n"
    using ne by (intro rd_cong) force
  also have "wr ?m ?D (rd m ?S n) = (wr m ?D (rd m ?S n))(d - 1 := m (s - 1))"
  proof (rule wr_upd_outside)
    have "d - 1 - ?D = of_nat n" by (simp add: algebra_simps)
    then show "length (rd m ?S n) \<le> unat (d - 1 - ?D)"
      using Suc.prems(1) by (simp only: length_rd unat_of_nat) simp
  qed
  also have "\<dots> = wr m ?D (rd m ?S (Suc n))"
    unfolding rd_snoc using wr_snoc[of "rd m ?S n" m ?D "m (s - 1)"] Suc.prems(1)
    by (simp only: length_rd D)
  finally show ?case .
qed

lemma unat_add_of_nat:
  "unat (a :: uint64) + n < 2 ^ 64 \<Longrightarrow> unat (a + of_nat n) = unat a + n"
  by (simp add: unat_word_ariths unat_of_nat)

lemma memmove_wr:
  assumes "unat src + n < 2 ^ 64" "unat dst + n < 2 ^ 64"
  shows "memmove dst src n m = wr m dst (rd m src n)"
proof (cases "n = 0")
  case True
  then show ?thesis by (simp add: memmove_def rd_def)
next
  case False
  have off: "unat (src + of_nat i) = unat src + i" "unat (dst + of_nat i) = unat dst + i"
    if "i \<le> n" for i
    using that assms by (auto intro!: unat_add_of_nat)
  show ?thesis
  proof (cases "src < dst \<and> src + of_nat n > dst")
    case True
    have "dst + of_nat j \<noteq> src + of_nat i" if "i < j" "j < n" for i j
    proof -
      have "unat src + i < unat dst + j" using True that by (simp add: word_less_nat_alt)
      then have "unat (src + of_nat i) \<noteq> unat (dst + of_nat j)" using that off[of i] off[of j] by simp
      then show ?thesis by metis
    qed
    then have "move_down n (dst + of_nat n) (src + of_nat n) m = wr m dst (rd m src n)"
      using assms by (subst move_down_wr) auto
    then show ?thesis using False True by (simp add: memmove_def)
  next
    case nd: False
    have "dst + of_nat i \<noteq> src + of_nat j" if "i < j" "j < n" for i j
    proof
      assume eq: "dst + of_nat i = src + of_nat j"
      then have "unat dst + i = unat src + j"
        using that off[of i] off[of j] by simp
      with nd that off[of n] show False by (auto simp: word_less_nat_alt)
    qed
    then have "move_up n dst src m = wr m dst (rd m src n)"
      using assms by (intro move_up_wr) auto
    then show ?thesis using False nd by (auto simp: memmove_def)
  qed
qed

text \<open>
  \<open>cstr n p\<close>: the characters of the C string at \<open>p\<close>, at most \<open>n\<close> of them.
\<close>

fun cstr :: "nat \<Rightarrow> (nat \<Rightarrow> byte) \<Rightarrow> byte list" where
  "cstr 0 p = []"
| "cstr (Suc n) p = (if p 0 = 0 then [] else p 0 # cstr n (\<lambda>i. p (Suc i)))"

lemma length_cstr: "length (cstr n p) \<le> n"
  by (induction n p rule: cstr.induct) auto

lemma strncmp_cstr: "strncmp p q n = 0 \<longleftrightarrow> cstr n p = cstr n q"
  by (induction p q n rule: strncmp.induct) (auto simp: word_uint_eq_iff)

lemma at_Suc: "(\<lambda>i. at m a (Suc i)) = at m (a + 1)"
  by (simp add: at_def fun_eq_iff ac_simps)

lemma at_0 [simp]: "at m a 0 = m a"
  by (simp add: at_def)

lemma cstr_at_cong:
  "(\<And>i. i < n \<Longrightarrow> m (a + of_nat i) = m' (a + of_nat i)) \<Longrightarrow> cstr n (at m a) = cstr n (at m' a)"
proof (induction n arbitrary: a)
  case (Suc n)
  have "cstr n (at m (a + 1)) = cstr n (at m' (a + 1))"
  proof (rule Suc.IH)
    show "m (a + 1 + of_nat i) = m' (a + 1 + of_nat i)" if "i < n" for i
      using Suc.prems[of "Suc i"] that by (simp add: ac_simps)
  qed
  then show ?case using Suc.prems[of 0] by (simp add: at_Suc)
qed simp

lemma strncpy_pad_wr: "n < 2 ^ 64 \<Longrightarrow> strncpy_pad s n m = wr m s (replicate n 0)"
  by (induction n arbitrary: s m) (simp_all add: wr_Cons)

lemma strncpy_wr:
  assumes "n < 2 ^ 64" and "\<And>i j. i < n \<Longrightarrow> j < n \<Longrightarrow> s + of_nat i \<noteq> t + of_nat j"
  shows "strncpy s t n m =
    wr m s (cstr n (at m t) @ replicate (n - length (cstr n (at m t))) 0)"
  using assms
proof (induction n arbitrary: s t m)
  case 0
  then show ?case by simp
next
  case (Suc n)
  show ?case
  proof (cases "m t = 0")
    case True
    then show ?thesis using Suc.prems(1) by (simp add: strncpy_pad_wr wr_Cons)
  next
    case False
    have ne: "s \<noteq> t + 1 + of_nat j" if "j < n" for j
      using Suc.prems(2)[of 0 "Suc j"] that by (simp add: ac_simps)
    let ?m = "m(s := m t)" and ?c = "cstr n (at m (t + 1))"
    have "strncpy (s + 1) (t + 1) n ?m = wr ?m (s + 1)
        (cstr n (at ?m (t + 1)) @ replicate (n - length (cstr n (at ?m (t + 1)))) 0)"
    proof (rule Suc.IH)
      show "n < 2 ^ 64" using Suc.prems(1) by simp
      show "s + 1 + of_nat i \<noteq> t + 1 + of_nat j" if "i < n" "j < n" for i j
        using Suc.prems(2)[of "Suc i" "Suc j"] that by (simp add: ac_simps)
    qed
    also have "cstr n (at ?m (t + 1)) = ?c"
      using ne by (intro cstr_at_cong) force
    also have "wr ?m (s + 1) (?c @ replicate (n - length ?c) 0) =
        wr m s (m t # ?c @ replicate (n - length ?c) 0)"
      by (rule wr_Cons[symmetric]) (use Suc.prems(1) length_cstr[of n "at m (t + 1)"] in simp)
    finally show ?thesis using False
      by (simp only: at_Suc at_0 Let_def strncpy.simps cstr.simps if_False if_True not_False_eq_True
          append_Cons list.size add_0_right add_Suc_right diff_Suc_Suc)
  qed
qed

lemma strlen_from_Some:
  "n \<le> k \<Longrightarrow> s k = 0 \<Longrightarrow> \<forall>i. n \<le> i \<and> i < k \<longrightarrow> s i \<noteq> 0 \<Longrightarrow> strlen_from s n = Some k"
proof (induction "k - n" arbitrary: n)
  case 0
  then show ?case by (subst strlen_from.simps) simp
next
  case (Suc d)
  then have "strlen_from s (Suc n) = Some k" by simp
  with Suc show ?case by (subst strlen_from.simps) auto
qed

lemma strlen_total:
  assumes "s k = 0"
  shows "\<exists>n \<le> k. strlen s = Some n \<and> s n = 0 \<and> (\<forall>i<n. s i \<noteq> 0)"
proof -
  let ?n = "LEAST i. s i = 0"
  have "s ?n = 0" "?n \<le> k" using assms by (auto intro: LeastI Least_le)
  moreover have "\<forall>i<?n. s i \<noteq> 0" using not_less_Least by blast
  ultimately show ?thesis unfolding strlen_def using strlen_from_Some[of 0 ?n s] by blast
qed

lemma unat_offset_Suc: "x \<noteq> s \<Longrightarrow> unat (x - s) = Suc (unat (x - (s + 1) :: uint64))"
proof -
  assume "x \<noteq> s"
  then have "x - s \<noteq> 0" by simp
  then have "unat (x - s) = Suc (unat (x - s - 1))" by (metis Suc_pred' unat_gt_0 unat_minus_one)
  then show ?thesis by (simp add: diff_diff_eq)
qed

lemma safestrcpy_loop_frame:
  "n < 2 ^ 64 - 1 \<Longrightarrow> n < unat (x - s) \<Longrightarrow> safestrcpy_loop s t n m x = m x"
proof (induction n arbitrary: s t m)
  case 0
  then show ?case by auto
next
  case (Suc n)
  have x: "x \<noteq> s" using Suc.prems(2) by auto
  then have n: "n < unat (x - (s + 1))" using Suc.prems(2) unat_offset_Suc[of x s] by simp
  then have x1: "x \<noteq> s + 1" by auto
  have "safestrcpy_loop (s + 1) (t + 1) n (m(s := m t)) x = (m(s := m t)) x"
    by (rule Suc.IH) (use Suc.prems(1) n in auto)
  with x x1 show ?case by (simp add: Let_def)
qed

lemma safestrcpy_loop_cstr:
  assumes "n < 2 ^ 64 - 1" and "\<And>i j. i \<le> n \<Longrightarrow> j \<le> n \<Longrightarrow> s + of_nat i \<noteq> t + of_nat j"
  shows "cstr (Suc n) (at (safestrcpy_loop s t n m) s) = cstr n (at m t)"
  using assms
proof (induction n arbitrary: s t m)
  case 0
  then show ?case by simp
next
  case (Suc n)
  let ?m = "m(s := m t)"
  let ?r = "safestrcpy_loop (s + 1) (t + 1) n ?m"
  have ne: "s \<noteq> t + 1 + of_nat j" if "j < n" for j
    using Suc.prems(2)[of 0 "Suc j"] that by (simp add: ac_simps)
  have "cstr (Suc n) (at ?r (s + 1)) = cstr n (at ?m (t + 1))"
  proof (rule Suc.IH)
    show "n < 2 ^ 64 - 1" using Suc.prems(1) by simp
    show "s + 1 + of_nat i \<noteq> t + 1 + of_nat j" if "i \<le> n" "j \<le> n" for i j
      using Suc.prems(2)[of "Suc i" "Suc j"] that by (simp add: ac_simps)
  qed
  also have "\<dots> = cstr n (at m (t + 1))"
    using ne by (intro cstr_at_cong) force
  finally have r: "cstr (Suc n) (at ?r (s + 1)) = cstr n (at m (t + 1))" .
  have "unat (s - (s + 1)) = 2 ^ 64 - 1"
    by (simp add: unsigned_minus_1_eq_mask mask_eq_exp_minus_1)
  then have rs: "?r s = m t"
    using Suc.prems(1) safestrcpy_loop_frame[of n s "s + 1" "t + 1" ?m] by simp
  show ?case
  proof (cases "m t = 0")
    case True
    then show ?thesis by simp
  next
    case False
    then have "safestrcpy_loop s t (Suc n) m = ?r" by (simp only: safestrcpy_loop.simps Let_def if_True not_False_eq_True)
    then have "cstr (Suc (Suc n)) (at (safestrcpy_loop s t (Suc n) m) s) = m t # cstr (Suc n) (at ?r (s + 1))"
      using rs False by (simp only: cstr.simps(2)[of "Suc n"] at_0 at_Suc if_False)
    also have "\<dots> = cstr (Suc n) (at m t)"
      using False r by (simp only: cstr.simps(2)[of n "at m t"] at_0 at_Suc if_False)
    finally show ?thesis .
  qed
qed

section \<open>Properties\<close>

text \<open>
  C16: \<open>memmove\<close> copies correctly for every overlap.  Whichever of the two copying directions it
  takes, the destination afterwards holds the bytes the source held before the call, and no byte
  outside the destination range changes.
\<close>

theorem memmove_overlap:
  assumes "unat src + n < 2 ^ 64" "unat dst + n < 2 ^ 64"
  shows "rd (memmove dst src n m) dst n = rd m src n \<and>
    (\<forall>a. n \<le> unat (a - dst) \<longrightarrow> memmove dst src n m a = m a)"
  using assms by (simp add: memmove_wr rd_wr_same) (simp add: wr_def)

theorem memmove_overlap_witness:
  "let m = (\<lambda>a. ucast a) :: mem in
   rd (memmove 2 0 4 m) 2 4 = rd m 0 4 \<and> rd (memmove 0 2 4 m) 0 4 = rd m 2 4"
  using memmove_overlap[of 0 4 2 ucast] memmove_overlap[of 2 4 0 ucast] by (simp add: Let_def)

text \<open>
  C17: \<open>safestrcpy\<close> always leaves a terminated string.  For \<open>n > 0\<close> and buffers that do not overlap
  the destination holds the longest prefix of the source string that fits with its NUL in \<open>n\<close>
  bytes, nothing beyond those \<open>n\<close> bytes is written, and for \<open>n \<le> 0\<close> nothing is written at all.
\<close>

theorem safestrcpy_terminates_string:
  assumes "n < 2 ^ 31"
    and "\<And>i j. i < nat n \<Longrightarrow> j < nat n \<Longrightarrow> s + of_nat i \<noteq> t + of_nat j"
  shows "(0 < n \<longrightarrow> cstr (nat n) (at (safestrcpy s t n m) s) = cstr (nat n - 1) (at m t)) \<and>
    (\<forall>x. n \<le> int (unat (x - s)) \<longrightarrow> safestrcpy s t n m x = m x)"
proof (cases "0 < n")
  case True
  define k where "k = nat n - 1"
  have k: "nat n = Suc k" "k < 2 ^ 64 - 1" using True assms(1) by (auto simp: k_def)
  have eq: "safestrcpy s t n m = safestrcpy_loop s t k m"
    using True by (simp add: safestrcpy_def k_def nat_diff_distrib)
  have "cstr (Suc k) (at (safestrcpy_loop s t k m) s) = cstr k (at m t)"
    using k assms(2) by (intro safestrcpy_loop_cstr) auto
  moreover have "safestrcpy_loop s t k m x = m x" if "n \<le> int (unat (x - s))" for x
    using that k by (intro safestrcpy_loop_frame) linarith+
  ultimately show ?thesis using k eq by simp
next
  case False
  then show ?thesis by (simp add: safestrcpy_def)
qed

theorem safestrcpy_terminates_string_witness:
  "let m = (\<lambda>a. 65) :: mem in cstr 4 (at (safestrcpy 100 200 4 m) 100) = [65, 65, 65]"
proof -
  have "(100 :: uint64) + of_nat i \<noteq> 200 + of_nat j" if "i < 4" "j < 4" for i j :: nat
  proof -
    have "i \<in> {0,1,2,3}" "j \<in> {0,1,2,3}" using that by auto
    then show ?thesis by auto
  qed
  then have "cstr 4 (at (safestrcpy 100 200 4 (\<lambda>_. 65)) 100) = cstr 3 (at (\<lambda>_. 65) 200)"
    using safestrcpy_terminates_string[of 4 100 200 "\<lambda>_. 65"] by simp
  also have "\<dots> = [65, 65, 65]" by (simp add: numeral_3_eq_3 at_def)
  finally show ?thesis by (simp add: Let_def)
qed

end
