(* ===== verification/Machine.thy ===== *)
theory Machine
  imports CString
begin

text \<open>
  The state every kernel component shares: the harts with their \<open>struct cpu\<close> and supervisor
  status register, the spin locks and sleep locks, and the process table (\<open>kernel/proc.h\<close>,
  \<open>kernel/spinlock.h\<close>, \<open>kernel/sleeplock.h\<close>).  A pointer to a lock is a \<open>lockid\<close> or an
  \<open>slockid\<close>, a wait channel is a \<open>chan\<close>, a pointer to a process its index in \<open>proc[]\<close>; a null
  pointer is \<open>None\<close>.  The addresses the linker chooses (\<open>end\<close>, \<open>etext\<close>, \<open>trampoline\<close>, and the
  entry points \<open>forkret\<close>, \<open>usertrap\<close>, \<open>kernelvec\<close>) are fields that no operation writes.

  The record is extensible: each component adds its own fields, so an operation of a lower
  layer applies to the state of every layer above it.
\<close>

section \<open>Names of locks and wait channels\<close>

datatype slockid = SBuf nat | SInode nat

datatype lockid =
    LPid | LWait | LProc nat | LKmem | LBcache | LSleep slockid | LLog | LItable | LFtable
  | LPipe uint64 | LCons | LTx | LTicks | LPr | LVdisk

datatype chan =
    ChNone | ChProc nat | ChSleep slockid | ChLog | ChPipeRead uint64 | ChPipeWrite uint64
  | ChCons | ChTx | ChTicks | ChBuf nat | ChDisk

section \<open>struct spinlock, struct sleeplock, struct cpu\<close>

record spinlock =
  locked :: bool
  lk_name :: string
  lk_cpu :: "nat option"

record sleeplock =
  sl_locked :: bool
  sl_name :: string
  sl_pid :: int

record kcontext =
  ctx_ra :: uint64
  ctx_sp :: uint64
  ctx_s :: "uint64 list"

record cpu =
  c_proc :: "nat option"
  c_context :: kcontext
  noff :: int
  intena :: bool

section \<open>struct trapframe (the registers t0-t6 and s0-s11 as lists)\<close>

record trapframe =
  kernel_satp :: uint64
  kernel_sp :: uint64
  kernel_trap :: uint64
  epc :: uint64
  kernel_hartid :: uint64
  tf_ra :: uint64
  tf_sp :: uint64
  tf_gp :: uint64
  tf_tp :: uint64
  tf_t :: "uint64 list"
  tf_s :: "uint64 list"
  a0 :: uint64
  a1 :: uint64
  a2 :: uint64
  a3 :: uint64
  a4 :: uint64
  a5 :: uint64
  a6 :: uint64
  a7 :: uint64

section \<open>struct proc\<close>

datatype procstate = UNUSED | USED | SLEEPING | RUNNABLE | RUNNING | ZOMBIE

record proc =
  p_state :: procstate
  p_chan :: chan
  p_killed :: bool
  p_xstate :: int
  p_pid :: int
  p_parent :: "nat option"
  p_kstack :: uint64
  p_sz :: uint64
  p_pagetable :: uint64
  p_trapframe :: uint64
  p_context :: kcontext
  p_ofile :: "nat option list"
  p_cwd :: "nat option"
  p_name :: "byte list"

section \<open>The shared kernel state\<close>

record mach =
  hart :: nat
  sstatus :: uint64
  cpus :: "nat \<Rightarrow> cpu"
  locks :: "lockid \<Rightarrow> spinlock"

record base =
  mach :: mach
  slocks :: "slockid \<Rightarrow> sleeplock"
  procs :: "proc list"
  nextpid :: int
  initproc :: "nat option"
  tframes :: "uint64 \<Rightarrow> trapframe"
  kend :: uint64
  etext :: uint64
  trampoline :: uint64
  uservec_off :: uint64
  forkret_addr :: uint64
  usertrap_addr :: uint64
  kernelvec_addr :: uint64

text \<open>\<open>mycpu\<close> (\<open>proc.c\<close>): this hart's \<open>struct cpu\<close>; \<open>tp\<close> holds the hart number.\<close>

definition cpuid :: "mach \<Rightarrow> nat" where
  "cpuid m = hart m"

definition mycpu :: "mach \<Rightarrow> cpu" where
  "mycpu m = cpus m (cpuid m)"

definition set_mycpu :: "cpu \<Rightarrow> mach \<Rightarrow> mach" where
  "set_mycpu c m = m\<lparr>cpus := (cpus m)(cpuid m := c)\<rparr>"

definition set_proc :: "nat \<Rightarrow> proc \<Rightarrow> 'a base_scheme \<Rightarrow> 'a base_scheme" where
  "set_proc i p s = s\<lparr>procs := (procs s)[i := p]\<rparr>"

lemma mycpu_set [simp]: "mycpu (set_mycpu c m) = c"
  by (simp add: mycpu_def set_mycpu_def cpuid_def)

lemma set_mycpu_fields [simp]:
  "hart (set_mycpu c m) = hart m" "sstatus (set_mycpu c m) = sstatus m"
  "locks (set_mycpu c m) = locks m" "cpuid (set_mycpu c m) = cpuid m"
  by (simp_all add: set_mycpu_def cpuid_def)

lemma procs_set_proc [simp]: "procs (set_proc i p s) = (procs s)[i := p]"
  by (simp add: set_proc_def)

lemma set_proc_mach [simp]: "mach (set_proc i p s) = mach s"
  by (simp add: set_proc_def)

end
