(* ===== verification/Spinlock.thy ===== *)
theory Spinlock
  imports Machine
begin

text \<open>
  \<open>kernel/spinlock.c\<close> and the interrupt-enable macros of \<open>kernel/riscv.h\<close>.  The operations act
  on the \<open>mach\<close> part of the state: this hart's \<open>sstatus\<close>, its \<open>struct cpu\<close> and the lock words.
  The test-and-set loop of \<open>acquire\<close> on a lock that another hart holds is the outcome \<open>Spin\<close>.
  The fences (\<open>__sync_synchronize\<close>) order memory accesses and change no state.

  \<open>entered l m\<close> and \<open>norm m\<close> are the closed forms of the state inside a critical section and
  after it: the lemmas show that a matched \<open>acquire\<close>/\<open>release\<close> pair gives back the same lock
  words, nesting depth and interrupt state, and only refreshes the saved \<open>intena\<close> of an
  outermost section.  The last section is the interleaving of any number of harts over the
  atomic swap that \<open>acquire\<close> and \<open>release\<close> compile to, with mutual exclusion as an invariant.
\<close>

section \<open>Interrupt enable\<close>

definition intr_on :: "mach \<Rightarrow> mach" where
  "intr_on m = m\<lparr>sstatus := sstatus m OR SSTATUS_SIE\<rparr>"

definition intr_off :: "mach \<Rightarrow> mach" where
  "intr_off m = m\<lparr>sstatus := sstatus m AND NOT SSTATUS_SIE\<rparr>"

definition intr_get :: "mach \<Rightarrow> bool" where
  "intr_get m \<longleftrightarrow> sstatus m AND SSTATUS_SIE \<noteq> 0"

section \<open>The operations\<close>

definition push_off :: "mach \<Rightarrow> mach" where
  "push_off m =
     (let old = intr_get m;
          m = intr_off m;
          c = mycpu m;
          c = (if noff c = 0 then c\<lparr>intena := old\<rparr> else c)
      in set_mycpu (c\<lparr>noff := noff c + 1\<rparr>) m)"

definition pop_off :: "mach \<Rightarrow> (unit, mach) res" where
  "pop_off m =
     (let c = mycpu m in
      if intr_get m then Panic ''pop_off - interruptible''
      else if noff c < 1 then Panic ''pop_off''
      else let c = c\<lparr>noff := noff c - 1\<rparr>; m = set_mycpu c m
           in Ok () (if noff c = 0 \<and> intena c then intr_on m else m))"

definition holding :: "lockid \<Rightarrow> mach \<Rightarrow> bool" where
  "holding lk m \<longleftrightarrow> locked (locks m lk) \<and> lk_cpu (locks m lk) = Some (cpuid m)"

definition set_lock :: "lockid \<Rightarrow> spinlock \<Rightarrow> mach \<Rightarrow> mach" where
  "set_lock lk l m = m\<lparr>locks := (locks m)(lk := l)\<rparr>"

definition initlock_m :: "lockid \<Rightarrow> string \<Rightarrow> mach \<Rightarrow> mach" where
  "initlock_m lk name m = set_lock lk \<lparr>locked = False, lk_name = name, lk_cpu = None\<rparr> m"

definition acquire_m :: "lockid \<Rightarrow> mach \<Rightarrow> (unit, mach) res" where
  "acquire_m lk m =
     (let m = push_off m in
      if holding lk m then Panic ''acquire''
      else if locked (locks m lk) then Spin
      else Ok () (set_lock lk ((locks m lk)\<lparr>locked := True, lk_cpu := Some (cpuid m)\<rparr>) m))"

definition release_m :: "lockid \<Rightarrow> mach \<Rightarrow> (unit, mach) res" where
  "release_m lk m =
     (if \<not> holding lk m then Panic ''release''
      else let m = set_lock lk ((locks m lk)\<lparr>lk_cpu := None\<rparr>) m;
               m = set_lock lk ((locks m lk)\<lparr>locked := False\<rparr>) m
           in pop_off m)"

text \<open>The same operations on the whole kernel state.\<close>

definition on_mach :: "(mach \<Rightarrow> ('r, mach) res) \<Rightarrow> 'a base_scheme \<Rightarrow> ('r, 'a base_scheme) res" where
  "on_mach f s = (case f (mach s) of
       Ok r m \<Rightarrow> Ok r (s\<lparr>mach := m\<rparr>)
     | Panic e \<Rightarrow> Panic e
     | Spin \<Rightarrow> Spin
     | Away m \<Rightarrow> Away (s\<lparr>mach := m\<rparr>)
     | Undef \<Rightarrow> Undef)"

definition initlock :: "lockid \<Rightarrow> string \<Rightarrow> 'a base_scheme \<Rightarrow> 'a base_scheme" where
  "initlock lk name s = s\<lparr>mach := initlock_m lk name (mach s)\<rparr>"

definition acquire :: "lockid \<Rightarrow> 'a base_scheme \<Rightarrow> (unit, 'a base_scheme) res" where
  "acquire lk = on_mach (acquire_m lk)"

definition release :: "lockid \<Rightarrow> 'a base_scheme \<Rightarrow> (unit, 'a base_scheme) res" where
  "release lk = on_mach (release_m lk)"

text \<open>
  \<open>myproc()\<close> reads \<open>c->proc\<close> between \<open>push_off()\<close> and \<open>pop_off()\<close>; \<open>myproc_call\<close> is the call with
  its effect on the interrupt state, \<open>myproc\<close> the value it returns.
\<close>

definition myproc :: "'a base_scheme \<Rightarrow> nat option" where
  "myproc s = c_proc (mycpu (mach s))"

definition myproc_call :: "'a base_scheme \<Rightarrow> (nat option, 'a base_scheme) res" where
  "myproc_call s =
     (let s = s\<lparr>mach := push_off (mach s)\<rparr>; p = c_proc (mycpu (mach s)) in
      seq (on_mach pop_off s) (\<lambda>_ s. Ok p s))"

section \<open>Closed forms\<close>

definition entered :: "lockid \<Rightarrow> mach \<Rightarrow> mach" where
  "entered l m = set_lock l ((locks m l)\<lparr>locked := True, lk_cpu := Some (cpuid m)\<rparr>) (push_off m)"

definition norm :: "mach \<Rightarrow> mach" where
  "norm m = (if noff (mycpu m) = 0 then set_mycpu ((mycpu m)\<lparr>intena := intr_get m\<rparr>) m else m)"

definition lock_free :: "lockid \<Rightarrow> mach \<Rightarrow> bool" where
  "lock_free l m \<longleftrightarrow> \<not> locked (locks m l) \<and> lk_cpu (locks m l) = None"

text \<open>The nesting depth is sane, and inside a critical section interrupts are off.\<close>

definition mach_ok :: "mach \<Rightarrow> bool" where
  "mach_ok m \<longleftrightarrow> 0 \<le> noff (mycpu m) \<and> (noff (mycpu m) \<noteq> 0 \<longrightarrow> \<not> intr_get m)"

lemma intr_get_off [simp]: "\<not> intr_get (intr_off m)"
  by (simp add: intr_get_def intr_off_def and.assoc)

lemma intr_get_set_mycpu [simp]: "intr_get (set_mycpu c m) = intr_get m"
  by (simp add: intr_get_def)

lemma intr_off_fields [simp]:
  "hart (intr_off m) = hart m" "cpus (intr_off m) = cpus m" "locks (intr_off m) = locks m"
  "mycpu (intr_off m) = mycpu m" "cpuid (intr_off m) = cpuid m"
  by (simp_all add: intr_off_def mycpu_def cpuid_def)

lemma set_lock_fields [simp]:
  "hart (set_lock l x m) = hart m" "sstatus (set_lock l x m) = sstatus m"
  "cpus (set_lock l x m) = cpus m" "mycpu (set_lock l x m) = mycpu m"
  "cpuid (set_lock l x m) = cpuid m" "locks (set_lock l x m) = (locks m)(l := x)"
  "intr_get (set_lock l x m) = intr_get m"
  by (simp_all add: set_lock_def mycpu_def cpuid_def intr_get_def)

lemma push_off_fields [simp]:
  "hart (push_off m) = hart m" "locks (push_off m) = locks m" "cpuid (push_off m) = cpuid m"
  "\<not> intr_get (push_off m)" "c_proc (mycpu (push_off m)) = c_proc (mycpu m)"
  "noff (mycpu (push_off m)) = noff (mycpu m) + 1"
  by (simp_all add: push_off_def Let_def cpuid_def)

lemma norm_fields [simp]:
  "hart (norm m) = hart m" "locks (norm m) = locks m" "cpuid (norm m) = cpuid m"
  "sstatus (norm m) = sstatus m" "c_proc (mycpu (norm m)) = c_proc (mycpu m)"
  "noff (mycpu (norm m)) = noff (mycpu m)" "intr_get (norm m) = intr_get m"
  by (simp_all add: norm_def cpuid_def)

lemma entered_fields [simp]:
  "hart (entered l m) = hart m" "cpuid (entered l m) = cpuid m"
  "locks (entered l m) = (locks m)(l := (locks m l)\<lparr>locked := True, lk_cpu := Some (cpuid m)\<rparr>)"
  "\<not> intr_get (entered l m)" "c_proc (mycpu (entered l m)) = c_proc (mycpu m)"
  "noff (mycpu (entered l m)) = noff (mycpu m) + 1"
  by (simp_all add: entered_def cpuid_def)

lemma SIE_absorb:
  assumes "x AND SSTATUS_SIE \<noteq> 0"
  shows "(x AND NOT SSTATUS_SIE) OR SSTATUS_SIE = x"
proof (rule word_and_not_or_absorb)
  have two: "SSTATUS_SIE = push_bit 1 1" by (simp add: params)
  have "bit x 1"
  proof (rule ccontr)
    assume "\<not> bit x 1"
    then have "x AND SSTATUS_SIE = 0"
      unfolding two by (intro bit_word_eqI) (auto simp: bit_simps)
    with assms show False by simp
  qed
  then show "x AND SSTATUS_SIE = SSTATUS_SIE"
    unfolding two by (intro bit_word_eqI) (auto simp: bit_simps)
qed

lemma SIE_clear: "x AND SSTATUS_SIE = 0 \<Longrightarrow> x AND NOT SSTATUS_SIE = x"
proof (rule bit_word_eqI)
  fix n assume "x AND SSTATUS_SIE = 0" "n < LENGTH(64)"
  then have "\<not> bit (x AND SSTATUS_SIE) n" by simp
  then show "bit (x AND NOT SSTATUS_SIE) n = bit x n"
    using \<open>n < LENGTH(64)\<close> by (auto simp: bit_simps)
qed

lemma noff_same [simp]: "noff c = k \<Longrightarrow> c\<lparr>noff := k\<rparr> = c"
  by (cases c) simp

lemma pop_push: "mach_ok m \<Longrightarrow> pop_off (push_off m) = Ok () (norm m)"
proof -
  assume ok: "mach_ok m"
  have upd: "set_mycpu c (set_mycpu d n) = set_mycpu c n" for c d n
    by (simp add: set_mycpu_def cpuid_def)
  have same: "set_mycpu (mycpu m) m = m"
    by (simp add: set_mycpu_def mycpu_def)
  show ?thesis
  proof (cases "noff (mycpu m) = 0")
    case True
    show ?thesis
    proof (cases "intr_get m")
      case on: True
      then have "intr_on (intr_off m) = m"
        by (simp add: intr_on_def intr_off_def SIE_absorb intr_get_def)
      then have "intr_on (set_mycpu c (intr_off m)) = set_mycpu c m" for c
        by (simp add: intr_on_def intr_off_def set_mycpu_def cpuid_def)
          (metis mach.surjective mach.update_convs(2) mach.update_convs(3))
      then show ?thesis using True on
        by (simp add: pop_off_def push_off_def norm_def Let_def upd)
    next
      case off: False
      then have "intr_off m = m"
        by (simp add: intr_off_def intr_get_def SIE_clear)
      then show ?thesis using True off
        by (simp add: pop_off_def push_off_def norm_def Let_def upd)
    qed
  next
    case False
    then have off: "\<not> intr_get m" and pos: "0 < noff (mycpu m)" using ok by (auto simp: mach_ok_def)
    then have "intr_off m = m"
      by (simp add: intr_off_def intr_get_def SIE_clear)
    then show ?thesis using False pos off same
      by (simp add: pop_off_def push_off_def norm_def Let_def upd)
  qed
qed

lemma entered_norm [simp]: "entered l (norm m) = entered l m"
proof -
  have "push_off (norm m) = push_off m"
    by (simp add: norm_def push_off_def Let_def set_mycpu_def mycpu_def cpuid_def intr_off_def intr_get_def)
  then show ?thesis by (simp add: entered_def)
qed

lemma norm_norm [simp]: "norm (norm m) = norm m"
  by (simp add: norm_def set_mycpu_def mycpu_def cpuid_def intr_get_def)

lemma mach_ok_norm [simp]: "mach_ok (norm m) = mach_ok m"
  by (simp add: mach_ok_def)

lemma mach_ok_entered [simp]: "mach_ok m \<Longrightarrow> mach_ok (entered l m)"
  by (simp add: mach_ok_def)

lemma norm_entered [simp]: "mach_ok m \<Longrightarrow> norm (entered l m) = entered l m"
  unfolding norm_def by (simp add: mach_ok_def)

lemma lock_free_norm [simp]: "lock_free l (norm m) = lock_free l m"
  by (simp add: lock_free_def)

lemma lock_free_entered [simp]: "lock_free l' (entered l m) \<longleftrightarrow> l' \<noteq> l \<and> lock_free l' m"
  by (auto simp: lock_free_def)

text \<open>When \<open>acquire\<close> and \<open>release\<close> return, and what they leave.\<close>

lemma acquire_Ok_iff [ok_simps]:
  "acquire l s = Ok u s' \<longleftrightarrow> \<not> locked (locks (mach s) l) \<and> s' = s\<lparr>mach := entered l (mach s)\<rparr>"
  by (auto simp: acquire_def on_mach_def acquire_m_def holding_def entered_def Let_def)

lemma acquire_free: "lock_free l (mach s) \<Longrightarrow> acquire l s = Ok () (s\<lparr>mach := entered l (mach s)\<rparr>)"
  by (simp add: acquire_Ok_iff lock_free_def)

lemma release_m_entered:
  assumes "mach_ok m" "lock_free l m"
  shows "release_m l (entered l m) = Ok () (norm m)"
proof -
  have restore: "(locks m)(l := (locks m l)\<lparr>lk_cpu := None, locked := False\<rparr>) = locks m"
    using assms(2) by (cases "locks m l") (auto simp: lock_free_def)
  let ?n = "set_lock l ((locks m l)\<lparr>lk_cpu := None, locked := False\<rparr>) (push_off m)"
  have "?n = push_off m"
    using restore by (simp add: set_lock_def)
  then show ?thesis using pop_push[OF assms(1)]
    by (simp add: release_m_def holding_def Let_def) (simp add: set_lock_def entered_def)
qed

lemma release_entered:
  assumes "mach s = entered l m" "mach_ok m" "lock_free l m"
  shows "release l s = Ok () (s\<lparr>mach := norm m\<rparr>)"
  using assms release_m_entered by (simp add: release_def on_mach_def)

lemma release_Ok_mach:
  "release l s = Ok u s' \<Longrightarrow> \<exists>m. s' = s\<lparr>mach := m\<rparr> \<and> hart m = hart (mach s) \<and>
     c_proc (mycpu m) = c_proc (mycpu (mach s))"
  by (auto simp: release_def on_mach_def release_m_def pop_off_def Let_def intr_on_def cpuid_def
      mycpu_def set_mycpu_def set_lock_def split: res.splits if_splits)

lemma myproc_call_eq:
  "mach_ok (mach s) \<Longrightarrow> myproc_call s = Ok (myproc s) (s\<lparr>mach := norm (mach s)\<rparr>)"
  by (simp add: myproc_call_def on_mach_def pop_push myproc_def Let_def)

lemma myproc_mach [simp]:
  "myproc (s\<lparr>mach := entered l m\<rparr>) = c_proc (mycpu m)" "myproc (s\<lparr>mach := norm m\<rparr>) = c_proc (mycpu m)"
  by (simp_all add: myproc_def)

lemma entered_commute:
  assumes "mach_ok m" "a \<noteq> b"
  shows "entered a (entered b m) = entered b (entered a m)"
proof -
  have "push_off (set_lock l x n) = set_lock l x (push_off n)" for l x n
    by (simp add: push_off_def Let_def set_lock_def set_mycpu_def mycpu_def cpuid_def intr_off_def intr_get_def)
  then show ?thesis using assms(2)
    by (simp add: entered_def) (simp add: set_lock_def fun_upd_twist)
qed

text \<open>Switching \<open>c->proc\<close> and restoring \<open>intena\<close> inside a section move out of it.\<close>

definition with_proc :: "nat option \<Rightarrow> mach \<Rightarrow> mach" where
  "with_proc q m = set_mycpu ((mycpu m)\<lparr>c_proc := q\<rparr>) m"

lemma with_proc_fields [simp]:
  "hart (with_proc q m) = hart m" "locks (with_proc q m) = locks m" "cpuid (with_proc q m) = cpuid m"
  "sstatus (with_proc q m) = sstatus m" "c_proc (mycpu (with_proc q m)) = q"
  "noff (mycpu (with_proc q m)) = noff (mycpu m)" "intr_get (with_proc q m) = intr_get m"
  "lock_free l (with_proc q m) = lock_free l m" "mach_ok (with_proc q m) = mach_ok m"
  by (simp_all add: with_proc_def lock_free_def mach_ok_def)

lemma fun_upd_eqI: "x = y \<Longrightarrow> f(a := x) = f(a := y)"
  by simp

lemma with_proc_entered: "with_proc q (entered l m) = entered l (with_proc q m)"
  by (auto simp: with_proc_def entered_def push_off_def Let_def set_lock_def set_mycpu_def mycpu_def
      cpuid_def intr_off_def intr_get_def intro!: mach.equality fun_upd_eqI cpu.equality)

lemma with_proc_with_proc [simp]: "with_proc q (with_proc r m) = with_proc q m"
  by (simp add: with_proc_def set_mycpu_def mycpu_def cpuid_def)

definition set_intr :: "bool \<Rightarrow> mach \<Rightarrow> mach" where
  "set_intr b m = (if b then intr_on m else intr_off m)"

lemma SIE_or_and: "(x OR SSTATUS_SIE) AND SSTATUS_SIE = SSTATUS_SIE"
  by (rule bit_word_eqI) (auto simp: bit_simps)

lemma set_intr_fields [simp]:
  "hart (set_intr b m) = hart m" "cpus (set_intr b m) = cpus m" "locks (set_intr b m) = locks m"
  "mycpu (set_intr b m) = mycpu m" "cpuid (set_intr b m) = cpuid m" "intr_get (set_intr b m) = b"
  "lock_free l (set_intr b m) = lock_free l m"
  by (auto simp: set_intr_def intr_on_def intr_get_def intr_off_def SIE_or_and mycpu_def cpuid_def
      lock_free_def and.assoc) (auto simp: params)

lemma intr_off_set_intr [simp]: "intr_off (set_intr b m) = intr_off m"
proof -
  have "(sstatus m OR SSTATUS_SIE) AND NOT SSTATUS_SIE = sstatus m AND NOT SSTATUS_SIE"
    by (rule bit_word_eqI) (auto simp: bit_simps)
  then show ?thesis by (simp add: set_intr_def intr_on_def intr_off_def and.assoc)
qed

lemma intena_entered:
  assumes "noff (mycpu m) = 0"
  shows "set_mycpu ((mycpu (entered l m))\<lparr>intena := b\<rparr>) (entered l m) = entered l (set_intr b m)"
  using assms intr_off_set_intr[of b m]
  by (simp add: entered_def push_off_def Let_def)
    (auto simp: set_mycpu_def set_lock_def mycpu_def cpuid_def intro!: mach.equality fun_upd_eqI cpu.equality)

section \<open>Many harts\<close>

text \<open>
  The harts run \<open>acquire\<close> and \<open>release\<close> concurrently.  The shared state is the lock words; each
  hart is between calls (\<open>Running\<close>), in the test-and-set loop (\<open>AcqSwap\<close>), past a swap that
  returned 0 but before it has recorded its \<open>cpu\<close> (\<open>AcqRecord\<close>), or in \<open>release\<close> after clearing
  \<open>lk->cpu\<close> but before the releasing store (\<open>RelSwap\<close>).  One rule is one atomic access.
\<close>

datatype hart_pc = Running | AcqSwap lockid | AcqRecord lockid | RelSwap lockid

record harts =
  hlocks :: "lockid \<Rightarrow> spinlock"
  hpc :: "nat \<Rightarrow> hart_pc"

definition hholding :: "harts \<Rightarrow> nat \<Rightarrow> lockid \<Rightarrow> bool" where
  "hholding s h l \<longleftrightarrow> locked (hlocks s l) \<and> lk_cpu (hlocks s l) = Some h"

inductive hart_step :: "harts \<Rightarrow> harts \<Rightarrow> bool" where
  acq_call: "hpc s h = Running \<Longrightarrow> \<not> hholding s h l \<Longrightarrow>
     hart_step s (s\<lparr>hpc := (hpc s)(h := AcqSwap l)\<rparr>)"
| acq_spin: "hpc s h = AcqSwap l \<Longrightarrow> locked (hlocks s l) \<Longrightarrow> hart_step s s"
| acq_swap: "hpc s h = AcqSwap l \<Longrightarrow> \<not> locked (hlocks s l) \<Longrightarrow>
     hart_step s (s\<lparr>hlocks := (hlocks s)(l := (hlocks s l)\<lparr>locked := True\<rparr>),
                   hpc := (hpc s)(h := AcqRecord l)\<rparr>)"
| acq_record: "hpc s h = AcqRecord l \<Longrightarrow>
     hart_step s (s\<lparr>hlocks := (hlocks s)(l := (hlocks s l)\<lparr>lk_cpu := Some h\<rparr>),
                   hpc := (hpc s)(h := Running)\<rparr>)"
| rel_clear: "hpc s h = Running \<Longrightarrow> hholding s h l \<Longrightarrow>
     hart_step s (s\<lparr>hlocks := (hlocks s)(l := (hlocks s l)\<lparr>lk_cpu := None\<rparr>),
                   hpc := (hpc s)(h := RelSwap l)\<rparr>)"
| rel_swap: "hpc s h = RelSwap l \<Longrightarrow>
     hart_step s (s\<lparr>hlocks := (hlocks s)(l := (hlocks s l)\<lparr>locked := False\<rparr>),
                   hpc := (hpc s)(h := Running)\<rparr>)"

definition harts_init :: "harts \<Rightarrow> bool" where
  "harts_init s \<longleftrightarrow> (\<forall>h. hpc s h = Running) \<and>
     (\<forall>l. \<not> locked (hlocks s l) \<and> lk_cpu (hlocks s l) = None)"

inductive harts_reachable :: "harts \<Rightarrow> bool" where
  init: "harts_init s \<Longrightarrow> harts_reachable s"
| step: "harts_reachable s \<Longrightarrow> hart_step s t \<Longrightarrow> harts_reachable t"

text \<open>A hart owns a lock from the swap that took it to the store that gives it back.\<close>

definition owns :: "harts \<Rightarrow> nat \<Rightarrow> lockid \<Rightarrow> bool" where
  "owns s h l \<longleftrightarrow> hpc s h = AcqRecord l \<or> hpc s h = RelSwap l \<or> hholding s h l"

definition harts_inv :: "harts \<Rightarrow> bool" where
  "harts_inv s \<longleftrightarrow>
     (\<forall>l. \<forall>h h'. owns s h l \<and> owns s h' l \<longrightarrow> h = h') \<and>
     (\<forall>l. locked (hlocks s l) \<longleftrightarrow> (\<exists>h. owns s h l)) \<and>
     (\<forall>l h. hpc s h = AcqRecord l \<or> hpc s h = RelSwap l \<longrightarrow> lk_cpu (hlocks s l) = None) \<and>
     (\<forall>l. \<not> locked (hlocks s l) \<longrightarrow> lk_cpu (hlocks s l) = None)"

lemma harts_inv_init: "harts_init s \<Longrightarrow> harts_inv s"
  by (auto simp: harts_init_def harts_inv_def owns_def hholding_def)

lemma hart_step_inv:
  assumes "hart_step s t" "harts_inv s"
  shows "harts_inv t"
  using assms
proof cases
  case (acq_call h l)
  then show ?thesis using assms(2) unfolding harts_inv_def owns_def hholding_def
    by (simp add: fun_upd_def) (smt (verit) hart_pc.distinct)
next
  case acq_spin
  then show ?thesis using assms(2) by simp
next
  case (acq_swap h l)
  then show ?thesis using assms(2) unfolding harts_inv_def owns_def hholding_def
    by (simp add: fun_upd_def) (smt (verit) hart_pc.distinct hart_pc.inject)
next
  case (acq_record h l)
  then show ?thesis using assms(2) unfolding harts_inv_def owns_def hholding_def
    by (simp add: fun_upd_def) (smt (verit) hart_pc.distinct hart_pc.inject option.inject option.distinct)
next
  case (rel_clear h l)
  then show ?thesis using assms(2) unfolding harts_inv_def owns_def hholding_def
    by (simp add: fun_upd_def) (smt (verit) hart_pc.distinct hart_pc.inject option.inject option.distinct)
next
  case (rel_swap h l)
  then show ?thesis using assms(2) unfolding harts_inv_def owns_def hholding_def
    by (simp add: fun_upd_def) (smt (verit) hart_pc.distinct hart_pc.inject option.inject option.distinct)
qed

text \<open>A call that returns is a run of these steps on the lock words of the machine.\<close>

lemma acquire_m_steps:
  assumes "acquire_m l m = Ok u m'" "hlocks s = locks m" "hpc s (cpuid m) = Running"
  shows "hart_step\<^sup>*\<^sup>* s (s\<lparr>hlocks := locks m'\<rparr>)"
proof -
  let ?h = "cpuid m" and ?k = "(locks m l)\<lparr>locked := True\<rparr>"
  let ?s1 = "s\<lparr>hpc := (hpc s)(?h := AcqSwap l)\<rparr>"
  let ?s2 = "s\<lparr>hlocks := (locks m)(l := ?k), hpc := (hpc s)(?h := AcqRecord l)\<rparr>"
  have m': "\<not> locked (locks m l)" "locks m' = (locks m)(l := ?k\<lparr>lk_cpu := Some ?h\<rparr>)"
    using assms(1) by (auto simp: acquire_m_def Let_def split: if_splits)
  have "hart_step s ?s1"
    using m' assms(2,3) by (intro hart_step.acq_call) (auto simp: hholding_def)
  moreover have "hart_step ?s1 ?s2"
    using hart_step.acq_swap[of ?s1 ?h l] m'(1) assms(2) by simp
  moreover have "hart_step ?s2 (s\<lparr>hlocks := locks m'\<rparr>)"
  proof -
    have "(hpc s)(?h := Running) = hpc s" using assms(3) by auto
    then show ?thesis using hart_step.acq_record[of ?s2 ?h l] m'(2) by simp
  qed
  ultimately show ?thesis by (meson converse_rtranclp_into_rtranclp rtranclp.rtrancl_refl)
qed

lemma release_m_steps:
  assumes "release_m l m = Ok u m'" "hlocks s = locks m" "hpc s (cpuid m) = Running"
  shows "hart_step\<^sup>*\<^sup>* s (s\<lparr>hlocks := locks m'\<rparr>)"
proof -
  let ?h = "cpuid m" and ?k = "(locks m l)\<lparr>lk_cpu := None\<rparr>"
  let ?s1 = "s\<lparr>hlocks := (locks m)(l := ?k), hpc := (hpc s)(?h := RelSwap l)\<rparr>"
  have m': "holding l m" "locks m' = (locks m)(l := ?k\<lparr>locked := False\<rparr>)"
    using assms(1) by (auto simp: release_m_def pop_off_def intr_on_def Let_def split: if_splits)
  have "hart_step s ?s1"
    using hart_step.rel_clear[of s ?h l] m'(1) assms(2,3) by (simp add: hholding_def holding_def)
  moreover have "hart_step ?s1 (s\<lparr>hlocks := locks m'\<rparr>)"
  proof -
    have "(hpc s)(?h := Running) = hpc s" using assms(3) by auto
    then show ?thesis using hart_step.rel_swap[of ?s1 ?h l] m'(2) by simp
  qed
  ultimately show ?thesis by (meson converse_rtranclp_into_rtranclp rtranclp.rtrancl_refl)
qed

lemma harts_reachable_inv: "harts_reachable s \<Longrightarrow> harts_inv s"
  by (induction rule: harts_reachable.induct) (auto intro: harts_inv_init hart_step_inv)

text \<open>A hart that runs process 0 with interrupts on; no lock is held.\<close>

definition idle_cpu :: cpu where
  "idle_cpu = \<lparr>c_proc = Some 0, c_context = \<lparr>ctx_ra = 0, ctx_sp = 0, ctx_s = []\<rparr>, noff = 0, intena = False\<rparr>"

definition idle_mach :: mach where
  "idle_mach = \<lparr>hart = 0, sstatus = SSTATUS_SIE, cpus = (\<lambda>_. idle_cpu),
     locks = (\<lambda>_. \<lparr>locked = False, lk_name = [], lk_cpu = None\<rparr>)\<rparr>"

lemma idle_mach [simp]:
  "mycpu idle_mach = idle_cpu" "noff idle_cpu = 0" "c_proc idle_cpu = Some 0" "lock_free l idle_mach"
  "mach_ok idle_mach" "locks idle_mach l = \<lparr>locked = False, lk_name = [], lk_cpu = None\<rparr>"
  "cpuid idle_mach = 0" "hart idle_mach = 0"
  by (simp_all add: idle_mach_def idle_cpu_def mycpu_def cpuid_def lock_free_def mach_ok_def)

section \<open>Properties\<close>

text \<open>
  C13: mutual exclusion.  In every state any number of harts can reach by interleaving the atomic
  accesses of \<open>acquire\<close> and \<open>release\<close>, a lock word is set exactly when some hart owns the lock,
  and no two harts own the same lock; and a call of \<open>acquire\<close> that returns is such a run of steps.
\<close>

theorem spinlock_mutual_exclusion:
  assumes "harts_reachable s" "hlocks s = locks m" "hpc s (cpuid m) = Running"
    "acquire_m l m = Ok () m'"
  shows "harts_reachable (s\<lparr>hlocks := locks m'\<rparr>) \<and> holding l m' \<and>
    (\<forall>h. owns (s\<lparr>hlocks := locks m'\<rparr>) h l \<longleftrightarrow> h = cpuid m')"
proof -
  let ?t = "s\<lparr>hlocks := locks m'\<rparr>"
  have reach: "harts_reachable ?t"
    using acquire_m_steps[OF assms(4,2,3)] assms(1)
    by (induction rule: rtranclp_induct) (auto intro: harts_reachable.step)
  have m': "locks m' l = (locks m l)\<lparr>locked := True, lk_cpu := Some (cpuid m)\<rparr>" "cpuid m' = cpuid m"
    using assms(4) by (auto simp: acquire_m_def Let_def split: if_splits)
  then have "holding l m'" "owns ?t (cpuid m') l" by (auto simp: holding_def owns_def hholding_def)
  with harts_reachable_inv[OF reach] reach show ?thesis unfolding harts_inv_def by blast
qed

theorem spinlock_mutual_exclusion_witness:
  "let s = \<lparr>hlocks = locks idle_mach, hpc = (\<lambda>_. Running)\<rparr>; m' = entered LKmem idle_mach in
   (\<forall>h. owns (s\<lparr>hlocks := locks m'\<rparr>) h LKmem \<longleftrightarrow> h = 0)"
proof -
  let ?s = "\<lparr>hlocks = locks idle_mach, hpc = (\<lambda>_. Running)\<rparr>"
  have "harts_reachable ?s" by (rule harts_reachable.init) (simp add: harts_init_def)
  moreover have "acquire_m LKmem idle_mach = Ok () (entered LKmem idle_mach)"
    by (simp add: acquire_m_def entered_def holding_def Let_def)
  ultimately show ?thesis
    using spinlock_mutual_exclusion[of ?s idle_mach LKmem "entered LKmem idle_mach"] by simp
qed

text \<open>
  C15: critical sections nest.  Taking two locks and giving them back in either order leaves the
  lock words, the nesting depth \<open>noff\<close> and the interrupt-enable bit as they were; only the saved
  \<open>intena\<close> of an outermost section is refreshed.
\<close>

theorem sections_nest:
  assumes "mach_ok (mach s)" "lock_free a (mach s)" "lock_free b (mach s)" "a \<noteq> b"
    "{c, d} = {a, b}" "c \<noteq> d"
  shows "seq (acquire a s) (\<lambda>_ s. seq (acquire b s) (\<lambda>_ s. seq (release c s) (\<lambda>_ s. release d s))) =
      Ok () (s\<lparr>mach := norm (mach s)\<rparr>) \<and>
    locks (norm (mach s)) = locks (mach s) \<and> sstatus (norm (mach s)) = sstatus (mach s) \<and>
    noff (mycpu (norm (mach s))) = noff (mycpu (mach s))"
proof -
  let ?m = "mach s"
  have two: "seq (acquire a s) (\<lambda>_ s. seq (acquire b s) F) = F () (s\<lparr>mach := entered b (entered a ?m)\<rparr>)"
    for F using assms by (simp add: acquire_free)
  have "entered b (entered a ?m) = entered c (entered d ?m)"
    using assms entered_commute[of ?m b a] by (auto simp: doubleton_eq_iff)
  moreover have "lock_free c ?m" "lock_free d ?m" using assms by (auto simp: doubleton_eq_iff)
  ultimately show ?thesis unfolding two
    using assms(1,6) by (simp add: release_entered)
qed

theorem sections_nest_witness:
  "\<exists>s :: base. mach s = idle_mach \<and>
    seq (acquire LKmem s) (\<lambda>_ s. seq (acquire LLog s) (\<lambda>_ s. seq (release LKmem s) (\<lambda>_ s. release LLog s))) =
      Ok () (s\<lparr>mach := norm idle_mach\<rparr>)"
proof -
  obtain s :: base where "mach s = idle_mach" by (meson base.select_convs(1))
  then show ?thesis using sections_nest[of s LKmem LLog LKmem LLog] by auto
qed

end
