(* ===== verification/Sched.thy ===== *)
theory Sched
  imports Spinlock
begin

text \<open>
  The scheduling core of \<open>kernel/proc.c\<close> (\<open>sched\<close>, \<open>yield\<close>, \<open>sleep\<close>, \<open>wakeup\<close>, the loop body of
  \<open>scheduler\<close>, \<open>kkill\<close>, \<open>setkilled\<close>, \<open>killed\<close>, \<open>allocpid\<close>) and \<open>kernel/sleeplock.c\<close>.  Leaving the
  CPU through \<open>swtch\<close> is the outcome \<open>Away\<close>; what the code does when it is switched back to is a
  separate \<open>_resume\<close> definition.  A \<open>while(cond) sleep(chan, lk)\<close> loop therefore ends in \<open>Away\<close>
  at the first \<open>sleep\<close>; after the wakeup and \<open>sleep_resume\<close> the loop tests its condition again,
  which is the same call once more.
\<close>

section \<open>Leaving and re-entering the CPU\<close>

definition sched :: "'a base_scheme \<Rightarrow> ('r, 'a base_scheme) res" where
  "sched s = (case myproc s of None \<Rightarrow> Undef | Some p \<Rightarrow>
     if \<not> holding (LProc p) (mach s) then Panic ''sched p->lock''
     else if noff (mycpu (mach s)) \<noteq> 1 then Panic ''sched locks''
     else if p_state (procs s ! p) = RUNNING then Panic ''sched RUNNING''
     else if intr_get (mach s) then Panic ''sched interruptible''
     else Away s)"

text \<open>\<open>mycpu()->intena = intena\<close>, on the hart the process runs on when it comes back.\<close>

definition sched_resume :: "bool \<Rightarrow> 'a base_scheme \<Rightarrow> 'a base_scheme" where
  "sched_resume ie s = s\<lparr>mach := set_mycpu ((mycpu (mach s))\<lparr>intena := ie\<rparr>) (mach s)\<rparr>"

definition yield :: "'a base_scheme \<Rightarrow> (unit, 'a base_scheme) res" where
  "yield s = (case myproc s of None \<Rightarrow> Undef | Some p \<Rightarrow>
     seq (acquire (LProc p) s) (\<lambda>_ s.
     let s = set_proc p ((procs s ! p)\<lparr>p_state := RUNNABLE\<rparr>) s in
     sched s))"

definition yield_resume :: "nat \<Rightarrow> 'a base_scheme \<Rightarrow> (unit, 'a base_scheme) res" where
  "yield_resume p s = release (LProc p) s"

definition sleep :: "chan \<Rightarrow> lockid \<Rightarrow> 'a base_scheme \<Rightarrow> ('r, 'a base_scheme) res" where
  "sleep ch lk s = (case myproc s of None \<Rightarrow> Undef | Some p \<Rightarrow>
     seq (acquire (LProc p) s) (\<lambda>_ s.
     seq (release lk s) (\<lambda>_ s.
     let s = set_proc p ((procs s ! p)\<lparr>p_chan := ch, p_state := SLEEPING\<rparr>) s in
     sched s)))"

definition sleep_resume :: "nat \<Rightarrow> lockid \<Rightarrow> 'a base_scheme \<Rightarrow> (unit, 'a base_scheme) res" where
  "sleep_resume p lk s =
     (let s = set_proc p ((procs s ! p)\<lparr>p_chan := ChNone\<rparr>) s in
      seq (release (LProc p) s) (\<lambda>_ s. acquire lk s))"

section \<open>wakeup, kill\<close>

definition wakeup_one :: "chan \<Rightarrow> nat \<Rightarrow> 'a base_scheme \<Rightarrow> (unit, 'a base_scheme) res" where
  "wakeup_one ch i s =
     (if myproc s = Some i then Ok () s
      else seq (acquire (LProc i) s) (\<lambda>_ s.
           let p = procs s ! i;
               s = (if p_state p = SLEEPING \<and> p_chan p = ch
                    then set_proc i (p\<lparr>p_state := RUNNABLE\<rparr>) s else s)
           in release (LProc i) s))"

definition wakeup :: "chan \<Rightarrow> 'a base_scheme \<Rightarrow> (unit, 'a base_scheme) res" where
  "wakeup ch s = foreach [0..<NPROC] (wakeup_one ch) s"

fun kkill_from :: "nat list \<Rightarrow> int \<Rightarrow> 'a base_scheme \<Rightarrow> (int, 'a base_scheme) res" where
  "kkill_from [] pid s = Ok (-1) s"
| "kkill_from (i # is) pid s =
     seq (acquire (LProc i) s) (\<lambda>_ s.
     if p_pid (procs s ! i) = pid then
       let s = set_proc i ((procs s ! i)\<lparr>p_killed := True\<rparr>) s;
           s = (if p_state (procs s ! i) = SLEEPING
                then set_proc i ((procs s ! i)\<lparr>p_state := RUNNABLE\<rparr>) s else s)
       in seq (release (LProc i) s) (\<lambda>_ s. Ok 0 s)
     else seq (release (LProc i) s) (\<lambda>_ s. kkill_from is pid s))"

definition kkill :: "int \<Rightarrow> 'a base_scheme \<Rightarrow> (int, 'a base_scheme) res" where
  "kkill pid s = kkill_from [0..<NPROC] pid s"

definition setkilled :: "nat \<Rightarrow> 'a base_scheme \<Rightarrow> (unit, 'a base_scheme) res" where
  "setkilled p s =
     seq (acquire (LProc p) s) (\<lambda>_ s.
     release (LProc p) (set_proc p ((procs s ! p)\<lparr>p_killed := True\<rparr>) s))"

definition killed :: "nat \<Rightarrow> 'a base_scheme \<Rightarrow> (bool, 'a base_scheme) res" where
  "killed p s =
     seq (acquire (LProc p) s) (\<lambda>_ s.
     let k = p_killed (procs s ! p) in
     seq (release (LProc p) s) (\<lambda>_ s. Ok k s))"

definition allocpid :: "'a base_scheme \<Rightarrow> (int, 'a base_scheme) res" where
  "allocpid s =
     seq (acquire LPid s) (\<lambda>_ s.
     let pid = nextpid s; s = s\<lparr>nextpid := nextpid s + 1\<rparr> in
     seq (release LPid s) (\<lambda>_ s. Ok pid s))"

section \<open>The scheduler's pass over the process table\<close>

text \<open>
  One visit of the loop body: a RUNNABLE process is switched to (\<open>Away\<close>, with \<open>p->lock\<close> held);
  \<open>scheduler_back\<close> is the code after \<open>swtch\<close> returns.  \<open>scheduler_pass\<close> runs the visits from a
  given index; it returns when no process from there on was RUNNABLE.
\<close>

definition scheduler_visit :: "nat \<Rightarrow> 'a base_scheme \<Rightarrow> (unit, 'a base_scheme) res" where
  "scheduler_visit i s =
     seq (acquire (LProc i) s) (\<lambda>_ s.
     if p_state (procs s ! i) = RUNNABLE then
       let s = set_proc i ((procs s ! i)\<lparr>p_state := RUNNING\<rparr>) s
       in Away (s\<lparr>mach := set_mycpu ((mycpu (mach s))\<lparr>c_proc := Some i\<rparr>) (mach s)\<rparr>)
     else release (LProc i) s)"

definition scheduler_back :: "nat \<Rightarrow> 'a base_scheme \<Rightarrow> (unit, 'a base_scheme) res" where
  "scheduler_back i s =
     release (LProc i) (s\<lparr>mach := set_mycpu ((mycpu (mach s))\<lparr>c_proc := None\<rparr>) (mach s)\<rparr>)"

definition scheduler_pass :: "nat \<Rightarrow> 'a base_scheme \<Rightarrow> (unit, 'a base_scheme) res" where
  "scheduler_pass i s = foreach [i..<NPROC] scheduler_visit s"

text \<open>The start of \<open>scheduler\<close>, and the start of each of its rounds.\<close>

definition scheduler_start :: "'a base_scheme \<Rightarrow> 'a base_scheme" where
  "scheduler_start s = s\<lparr>mach := set_mycpu ((mycpu (mach s))\<lparr>c_proc := None\<rparr>) (mach s)\<rparr>"

definition scheduler_round :: "'a base_scheme \<Rightarrow> (unit, 'a base_scheme) res" where
  "scheduler_round s = scheduler_pass 0 (s\<lparr>mach := intr_off (intr_on (mach s))\<rparr>)"

section \<open>Sleep locks\<close>

definition set_slock :: "slockid \<Rightarrow> sleeplock \<Rightarrow> 'a base_scheme \<Rightarrow> 'a base_scheme" where
  "set_slock lk l s = s\<lparr>slocks := (slocks s)(lk := l)\<rparr>"

definition initsleeplock :: "slockid \<Rightarrow> string \<Rightarrow> 'a base_scheme \<Rightarrow> 'a base_scheme" where
  "initsleeplock lk name s =
     (let s = initlock (LSleep lk) ''sleep lock'' s in
      set_slock lk \<lparr>sl_locked = False, sl_name = name, sl_pid = 0\<rparr> s)"

definition acquiresleep :: "slockid \<Rightarrow> 'a base_scheme \<Rightarrow> (unit, 'a base_scheme) res" where
  "acquiresleep lk s =
     seq (acquire (LSleep lk) s) (\<lambda>_ s.
     if sl_locked (slocks s lk) then sleep (ChSleep lk) (LSleep lk) s
     else case myproc s of None \<Rightarrow> Undef | Some p \<Rightarrow>
       let s = set_slock lk ((slocks s lk)\<lparr>sl_locked := True, sl_pid := p_pid (procs s ! p)\<rparr>) s
       in release (LSleep lk) s)"

definition releasesleep :: "slockid \<Rightarrow> 'a base_scheme \<Rightarrow> (unit, 'a base_scheme) res" where
  "releasesleep lk s =
     seq (acquire (LSleep lk) s) (\<lambda>_ s.
     let s = set_slock lk ((slocks s lk)\<lparr>sl_locked := False, sl_pid := 0\<rparr>) s in
     seq (wakeup (ChSleep lk) s) (\<lambda>_ s.
     release (LSleep lk) s))"

definition holdingsleep :: "slockid \<Rightarrow> 'a base_scheme \<Rightarrow> (bool, 'a base_scheme) res" where
  "holdingsleep lk s =
     seq (acquire (LSleep lk) s) (\<lambda>_ s.
     if \<not> sl_locked (slocks s lk) then seq (release (LSleep lk) s) (\<lambda>_ s. Ok False s)
     else case myproc s of None \<Rightarrow> Undef | Some p \<Rightarrow>
       let r = (sl_pid (slocks s lk) = p_pid (procs s ! p)) in
       seq (release (LSleep lk) s) (\<lambda>_ s. Ok r s))"

section \<open>Closed forms\<close>

definition proclocks_free :: "mach \<Rightarrow> bool" where
  "proclocks_free m \<longleftrightarrow> (\<forall>i < NPROC. lock_free (LProc i) m)"

text \<open>No spin lock is held by any hart, and this hart's nesting state is sane.\<close>

definition quiet :: "mach \<Rightarrow> bool" where
  "quiet m \<longleftrightarrow> mach_ok m \<and> (\<forall>l. lock_free l m)"

lemma quiet_norm [simp]: "quiet (norm m) = quiet m"
  by (simp add: quiet_def)

lemma quiet_proclocks: "quiet m \<Longrightarrow> proclocks_free m"
  by (simp add: quiet_def proclocks_free_def)

lemma proclocks_free_norm [simp]: "proclocks_free (norm m) = proclocks_free m"
  by (simp add: proclocks_free_def)

lemma proclocks_free_entered [simp]:
  "(\<And>i. l \<noteq> LProc i) \<Longrightarrow> proclocks_free (entered l m) = proclocks_free m"
  by (auto simp: proclocks_free_def)

text \<open>The effect of \<open>wakeup(ch)\<close> on one process and on the table.\<close>

definition wake1 :: "chan \<Rightarrow> nat option \<Rightarrow> nat \<Rightarrow> proc \<Rightarrow> proc" where
  "wake1 ch me i p =
     (if me \<noteq> Some i \<and> p_state p = SLEEPING \<and> p_chan p = ch then p\<lparr>p_state := RUNNABLE\<rparr> else p)"

definition woken :: "chan \<Rightarrow> nat option \<Rightarrow> proc list \<Rightarrow> proc list" where
  "woken ch me ps = map (\<lambda>i. wake1 ch me i (ps ! i)) [0..<length ps]"

lemma length_woken [simp]: "length (woken ch me ps) = length ps"
  by (simp add: woken_def)

lemma nth_woken [simp]: "i < length ps \<Longrightarrow> woken ch me ps ! i = wake1 ch me i (ps ! i)"
  by (simp add: woken_def)

lemma wakeup_one_eq:
  assumes "mach_ok (mach s)" "lock_free (LProc i) (mach s)"
  shows "wakeup_one ch i s =
    Ok () (s\<lparr>mach := (if myproc s = Some i then mach s else norm (mach s)),
             procs := (procs s)[i := wake1 ch (myproc s) i (procs s ! i)]\<rparr>)"
proof (cases "myproc s = Some i")
  case True
  then show ?thesis by (simp add: wakeup_one_def wake1_def)
next
  case False
  let ?s = "s\<lparr>mach := entered (LProc i) (mach s)\<rparr>"
  let ?t = "?s\<lparr>procs := (procs s)[i := wake1 ch (myproc s) i (procs s ! i)]\<rparr>"
  have "?s = ?t" if "\<not> (p_state (procs s ! i) = SLEEPING \<and> p_chan (procs s ! i) = ch)"
    using that by (auto simp: wake1_def)
  then have "wakeup_one ch i s = release (LProc i) ?t"
    using False assms
    by (cases "p_state (procs s ! i) = SLEEPING \<and> p_chan (procs s ! i) = ch")
      (auto simp: wakeup_one_def acquire_free Let_def set_proc_def wake1_def)
  also have "\<dots> = Ok () (?t\<lparr>mach := norm (mach s)\<rparr>)"
    using assms by (intro release_entered) auto
  finally show ?thesis using False by simp
qed

lemma wakeup_foreach:
  assumes "mach_ok (mach s)" "\<forall>i \<in> set is. lock_free (LProc i) (mach s)"
    and "distinct is" "\<forall>i \<in> set is. i < length (procs s)"
  shows "\<exists>m ps. foreach is (wakeup_one ch) s = Ok () (s\<lparr>mach := m, procs := ps\<rparr>) \<and>
    m = (if set is \<subseteq> {i. myproc s = Some i} then mach s else norm (mach s)) \<and>
    length ps = length (procs s) \<and>
    (\<forall>j < length ps. ps ! j = (if j \<in> set is then wake1 ch (myproc s) j (procs s ! j) else procs s ! j))"
  using assms
proof (induction "is" arbitrary: s)
  case Nil
  have "s = s\<lparr>mach := mach s, procs := procs s\<rparr>" by simp
  then show ?case by (intro exI[of _ "mach s"] exI[of _ "procs s"]) auto
next
  case (Cons i "is")
  let ?m = "if myproc s = Some i then mach s else norm (mach s)"
  let ?s = "s\<lparr>mach := ?m, procs := (procs s)[i := wake1 ch (myproc s) i (procs s ! i)]\<rparr>"
  have step: "wakeup_one ch i s = Ok () ?s"
    using Cons.prems by (intro wakeup_one_eq) auto
  have me: "myproc ?s = myproc s" by (simp add: myproc_def)
  have "mach_ok (mach ?s)" "\<forall>i \<in> set is. lock_free (LProc i) (mach ?s)" "distinct is"
    "\<forall>i \<in> set is. i < length (procs ?s)"
    using Cons.prems by auto
  from Cons.IH[OF this] obtain m ps where
    eq: "foreach is (wakeup_one ch) ?s = Ok () (?s\<lparr>mach := m, procs := ps\<rparr>)" and
    m: "m = (if set is \<subseteq> {i. myproc ?s = Some i} then mach ?s else norm (mach ?s))" and
    ps: "length ps = length (procs s)"
    "\<forall>j < length ps. ps ! j = (if j \<in> set is then wake1 ch (myproc ?s) j (procs ?s ! j) else procs ?s ! j)"
    by auto
  have "foreach (i # is) (wakeup_one ch) s = Ok () (s\<lparr>mach := m, procs := ps\<rparr>)"
    using step eq by simp
  moreover have "m = (if set (i # is) \<subseteq> {i. myproc s = Some i} then mach s else norm (mach s))"
    using m me by auto
  moreover have "ps ! j = (if j \<in> set (i # is) then wake1 ch (myproc s) j (procs s ! j) else procs s ! j)"
    if "j < length ps" for j
    using ps that Cons.prems(3) me by (auto simp: nth_list_update_if)
  ultimately show ?case using ps(1) by blast
qed

lemma wakeup_eq:
  assumes "mach_ok (mach s)" "proclocks_free (mach s)" "length (procs s) = NPROC"
  shows "wakeup ch s = Ok () (s\<lparr>mach := norm (mach s), procs := woken ch (myproc s) (procs s)\<rparr>)"
proof -
  obtain m ps where
    eq: "wakeup ch s = Ok () (s\<lparr>mach := m, procs := ps\<rparr>)" and
    m: "m = (if set [0..<NPROC] \<subseteq> {i. myproc s = Some i} then mach s else norm (mach s))" and
    ps: "length ps = length (procs s)"
    "\<forall>j < length ps. ps ! j = (if j \<in> set [0..<NPROC] then wake1 ch (myproc s) j (procs s ! j) else procs s ! j)"
    using wakeup_foreach[of s "[0..<NPROC]" ch] assms unfolding wakeup_def
    by (auto simp: proclocks_free_def)
  have "0 \<in> set [0..<NPROC] \<and> 1 \<in> set [0..<NPROC]" by (simp add: params)
  then have "\<not> set [0..<NPROC] \<subseteq> {i. myproc s = Some i}"
    by (metis (mono_tags) mem_Collect_eq option.inject subsetD zero_neq_one)
  then have "m = norm (mach s)" using m by simp
  moreover have "ps = woken ch (myproc s) (procs s)"
    by (rule nth_equalityI) (use ps assms(3) in auto)
  ultimately show ?thesis using eq by simp
qed

lemma killed_eq:
  assumes "mach_ok (mach s)" "lock_free (LProc p) (mach s)"
  shows "killed p s = Ok (p_killed (procs s ! p)) (s\<lparr>mach := norm (mach s)\<rparr>)"
  using assms release_entered[of "s\<lparr>mach := entered (LProc p) (mach s)\<rparr>" "LProc p" "mach s"]
  by (simp add: killed_def acquire_free)

lemma allocpid_eq:
  assumes "mach_ok (mach s)" "lock_free LPid (mach s)"
  shows "allocpid s = Ok (nextpid s) (s\<lparr>mach := norm (mach s), nextpid := nextpid s + 1\<rparr>)"
  using assms release_entered[of "s\<lparr>mach := entered LPid (mach s), nextpid := nextpid s + 1\<rparr>" LPid "mach s"]
  by (simp add: allocpid_def acquire_free)

section \<open>Sleep lock contracts\<close>

lemma acquiresleep_free:
  assumes "mach_ok (mach s)" "lock_free (LSleep lk) (mach s)" "\<not> sl_locked (slocks s lk)"
    and "myproc s = Some p"
  shows "acquiresleep lk s = Ok () (s\<lparr>mach := norm (mach s),
    slocks := (slocks s)(lk := (slocks s lk)\<lparr>sl_locked := True, sl_pid := p_pid (procs s ! p)\<rparr>)\<rparr>)"
proof -
  have "c_proc (mycpu (mach s)) = Some p" using assms(4) by (simp add: myproc_def)
  then show ?thesis
    using assms(1-3) by (simp add: acquiresleep_def acquire_free set_slock_def release_entered)
qed

lemma releasesleep_eq:
  assumes "mach_ok (mach s)" "lock_free (LSleep lk) (mach s)" "proclocks_free (mach s)"
    and "length (procs s) = NPROC"
  shows "releasesleep lk s = Ok () (s\<lparr>mach := norm (mach s),
    slocks := (slocks s)(lk := (slocks s lk)\<lparr>sl_locked := False, sl_pid := 0\<rparr>),
    procs := woken (ChSleep lk) (myproc s) (procs s)\<rparr>)"
  using assms
  by (simp add: releasesleep_def acquire_free set_slock_def wakeup_eq release_entered)
    (simp add: myproc_def)

lemma holdingsleep_eq:
  assumes "mach_ok (mach s)" "lock_free (LSleep lk) (mach s)" "myproc s = Some p"
  shows "holdingsleep lk s =
    Ok (sl_locked (slocks s lk) \<and> sl_pid (slocks s lk) = p_pid (procs s ! p)) (s\<lparr>mach := norm (mach s)\<rparr>)"
proof -
  have "c_proc (mycpu (mach s)) = Some p" using assms(3) by (simp add: myproc_def)
  then show ?thesis
    using assms(1,2) by (simp add: holdingsleep_def acquire_free release_entered)
qed

section \<open>Properties\<close>

lemma scheduler_visit_eq:
  assumes "mach_ok (mach s)" "lock_free (LProc i) (mach s)"
  shows "scheduler_visit i s =
    (if p_state (procs s ! i) = RUNNABLE
     then Away (s\<lparr>mach := entered (LProc i) (with_proc (Some i) (mach s)),
                 procs := (procs s)[i := (procs s ! i)\<lparr>p_state := RUNNING\<rparr>]\<rparr>)
     else Ok () (s\<lparr>mach := norm (mach s)\<rparr>))"
  using assms
  by (simp add: scheduler_visit_def acquire_free release_entered set_proc_def
      flip: with_proc_entered) (simp add: with_proc_def)

lemma scheduler_back_eq:
  assumes "mach s = entered (LProc i) m" "mach_ok m" "lock_free (LProc i) m"
  shows "scheduler_back i s = Ok () (s\<lparr>mach := norm (with_proc None m)\<rparr>)"
proof -
  let ?t = "s\<lparr>mach := entered (LProc i) (with_proc None m)\<rparr>"
  have "scheduler_back i s = release (LProc i) ?t"
    using assms(1) by (simp add: scheduler_back_def with_proc_def[symmetric] with_proc_entered)
  also have "\<dots> = Ok () (?t\<lparr>mach := norm (with_proc None m)\<rparr>)"
    using assms by (intro release_entered) auto
  finally show ?thesis by simp
qed

lemma sleep_eq:
  assumes "mach s = entered lk m" "mach_ok m" "lock_free lk m" "lock_free (LProc p) m" "lk \<noteq> LProc p"
    and "noff (mycpu m) = 0" "c_proc (mycpu m) = Some p" "p < length (procs s)"
  shows "sleep ch lk s = Away (s\<lparr>mach := entered (LProc p) m,
    procs := (procs s)[p := (procs s ! p)\<lparr>p_chan := ch, p_state := SLEEPING\<rparr>]\<rparr>)"
proof -
  let ?m = "entered (LProc p) m"
  have me: "myproc s = Some p" using assms(1,7) by (simp add: myproc_def)
  have "acquire (LProc p) s = Ok () (s\<lparr>mach := entered lk ?m\<rparr>)"
    using assms entered_commute[of m "LProc p" lk] by (simp add: acquire_free)
  moreover have "release lk (s\<lparr>mach := entered lk ?m\<rparr>) = Ok () (s\<lparr>mach := ?m\<rparr>)"
    using assms by (simp add: release_entered)
  moreover have "sched (s\<lparr>mach := ?m, procs := (procs s)[p := (procs s ! p)\<lparr>p_chan := ch, p_state := SLEEPING\<rparr>]\<rparr>)
      = Away (s\<lparr>mach := ?m, procs := (procs s)[p := (procs s ! p)\<lparr>p_chan := ch, p_state := SLEEPING\<rparr>]\<rparr>)"
    using assms by (simp add: sched_def myproc_def holding_def)
  ultimately show ?thesis by (simp add: sleep_def me set_proc_def)
qed

lemma sleep_resume_eq:
  assumes "mach s = entered (LProc p) m" "mach_ok m" "lock_free lk m" "lock_free (LProc p) m"
  shows "sleep_resume p lk s = Ok () (s\<lparr>mach := entered lk m,
    procs := (procs s)[p := (procs s ! p)\<lparr>p_chan := ChNone\<rparr>]\<rparr>)"
  using assms by (simp add: sleep_resume_def release_entered acquire_free set_proc_def)

text \<open>
  C14: a sleeper is not lost.  A process that calls \<open>sleep(chan, lk)\<close> holding only \<open>lk\<close> leaves the
  CPU SLEEPING on \<open>chan\<close> with \<open>lk\<close> free; after the scheduler has taken the CPU back, a \<open>wakeup(chan)\<close>
  makes it RUNNABLE, the scheduler's next visit runs it, and \<open>sleep\<close> then returns with \<open>lk\<close> held
  again, the channel cleared and the process RUNNING, on a machine whose next matching release
  restores the interrupt state the caller of \<open>sleep\<close> had saved.
\<close>

theorem sleep_wakeup_resume:
  assumes "mach s = entered lk m" "mach_ok m" "lock_free lk m" "proclocks_free m" "\<And>i. lk \<noteq> LProc i"
    and "noff (mycpu m) = 0" "c_proc (mycpu m) = Some p" "p < NPROC" "length (procs s) = NPROC"
  shows "\<exists>s1 s2 s3 s4 s5.
    sleep ch lk s = Away s1 \<and> p_state (procs s1 ! p) = SLEEPING \<and>
    scheduler_back p s1 = Ok () s2 \<and> lock_free lk (mach s2) \<and> myproc s2 = None \<and>
    wakeup ch s2 = Ok () s3 \<and> p_state (procs s3 ! p) = RUNNABLE \<and>
    scheduler_visit p s3 = Away s4 \<and>
    sleep_resume p lk (sched_resume (intena (mycpu (mach s1))) s4) = Ok () s5 \<and>
    myproc s5 = Some p \<and> p_state (procs s5 ! p) = RUNNING \<and> p_chan (procs s5 ! p) = ChNone \<and>
    (\<exists>m'. mach s5 = entered lk m' \<and> intr_get m' = intena (mycpu (mach s)) \<and> locks m' = locks m)"
proof -
  have pl: "lock_free (LProc p) m" using assms(4,8) by (simp add: proclocks_free_def)
  let ?P = "(procs s)[p := (procs s ! p)\<lparr>p_chan := ch, p_state := SLEEPING\<rparr>]"
  let ?s1 = "s\<lparr>mach := entered (LProc p) m, procs := ?P\<rparr>"
  let ?m2 = "norm (with_proc None m)"
  let ?s2 = "s\<lparr>mach := ?m2, procs := ?P\<rparr>"
  let ?Q = "woken ch None ?P"
  let ?s3 = "s\<lparr>mach := ?m2, procs := ?Q\<rparr>"
  let ?m4 = "with_proc (Some p) ?m2"
  let ?s4 = "s\<lparr>mach := entered (LProc p) ?m4, procs := ?Q[p := (?Q ! p)\<lparr>p_state := RUNNING\<rparr>]\<rparr>"
  let ?ie = "intena (mycpu (mach ?s1))"
  let ?m5 = "set_intr ?ie ?m4"
  let ?s5 = "s\<lparr>mach := entered lk ?m5,
     procs := (procs ?s4)[p := (procs ?s4 ! p)\<lparr>p_chan := ChNone\<rparr>]\<rparr>"
  have s1: "sleep ch lk s = Away ?s1"
    using assms pl by (intro sleep_eq) auto
  have s2: "scheduler_back p ?s1 = Ok () ?s2"
    using scheduler_back_eq[of ?s1 p m] assms(2) pl by simp
  have s3: "wakeup ch ?s2 = Ok () ?s3"
    using wakeup_eq[of ?s2 ch] assms(2,4,9) by (simp add: proclocks_free_def myproc_def)
  have run: "p_state (?Q ! p) = RUNNABLE" using assms(8,9) by (simp add: wake1_def)
  have s4: "scheduler_visit p ?s3 = Away ?s4"
    using scheduler_visit_eq[of ?s3 p] assms(2) pl run by simp
  have "sched_resume ?ie ?s4 = ?s4\<lparr>mach := entered (LProc p) ?m5\<rparr>"
    using assms(6) by (simp add: sched_resume_def intena_entered)
  moreover have "mach_ok ?m5" "lock_free lk ?m5" "lock_free (LProc p) ?m5"
    using assms(2,3,6) pl by (simp_all add: mach_ok_def)
  ultimately have s5: "sleep_resume p lk (sched_resume ?ie ?s4) = Ok () ?s5"
    using sleep_resume_eq[of "?s4\<lparr>mach := entered (LProc p) ?m5\<rparr>" p ?m5 lk] by simp
  have "intena (mycpu (entered (LProc p) m)) = intena (mycpu (entered lk m))"
    by (simp add: entered_def push_off_def Let_def)
  then have "\<exists>m'. mach ?s5 = entered lk m' \<and> intr_get m' = intena (mycpu (mach s)) \<and> locks m' = locks m"
    using assms(1) by (intro exI[of _ ?m5]) simp
  moreover have "myproc ?s2 = None" "myproc ?s5 = Some p" by (simp_all add: myproc_def)
  moreover have "p_state (procs ?s5 ! p) = RUNNING" "p_chan (procs ?s5 ! p) = ChNone"
    "p_state (procs ?s1 ! p) = SLEEPING" "p_state (procs ?s3 ! p) = RUNNABLE" "lock_free lk (mach ?s2)"
    using assms(3,8,9) run by simp_all
  ultimately show ?thesis using s1 s2 s3 s4 s5 by blast
qed

text \<open>A table of 64 processes: process 0 runs, the others are unused.\<close>

definition example_proc :: proc where
  "example_proc = \<lparr>p_state = RUNNING, p_chan = ChNone, p_killed = False, p_xstate = 0, p_pid = 1,
     p_parent = None, p_kstack = 0, p_sz = 0, p_pagetable = 0, p_trapframe = 0,
     p_context = \<lparr>ctx_ra = 0, ctx_sp = 0, ctx_s = []\<rparr>, p_ofile = replicate NOFILE None,
     p_cwd = None, p_name = []\<rparr>"

definition example_base :: base where
  "example_base = \<lparr>mach = idle_mach,
     slocks = (\<lambda>_. \<lparr>sl_locked = False, sl_name = [], sl_pid = 0\<rparr>),
     procs = example_proc # replicate 63 (example_proc\<lparr>p_state := UNUSED, p_pid := 0\<rparr>),
     nextpid = 2, initproc = Some 0,
     tframes = (\<lambda>_. \<lparr>kernel_satp = 0, kernel_sp = 0, kernel_trap = 0, epc = 0, kernel_hartid = 0,
       tf_ra = 0, tf_sp = 0, tf_gp = 0, tf_tp = 0, tf_t = [], tf_s = [], a0 = 0, a1 = 0, a2 = 0,
       a3 = 0, a4 = 0, a5 = 0, a6 = 0, a7 = 0\<rparr>),
     kend = 0x80022000, etext = 0x80008000, trampoline = 0x80007000, uservec_off = 0,
     forkret_addr = 0, usertrap_addr = 0, kernelvec_addr = 0\<rparr>"

lemma example_base [simp]: "mach example_base = idle_mach" "length (procs example_base) = NPROC"
  by (simp_all add: example_base_def params)

lemma quiet_idle [simp]: "quiet idle_mach" "proclocks_free idle_mach"
  by (simp_all add: quiet_def proclocks_free_def)

theorem sleep_wakeup_resume_witness:
  "\<exists>s1 s2 s3. sleep ChTicks LTicks (example_base\<lparr>mach := entered LTicks idle_mach\<rparr>) = Away s1 \<and>
     p_state (procs s1 ! 0) = SLEEPING \<and> scheduler_back 0 s1 = Ok () s2 \<and>
     wakeup ChTicks s2 = Ok () s3 \<and> p_state (procs s3 ! 0) = RUNNABLE"
proof -
  have "0 < NPROC" by (simp add: params)
  then show ?thesis
    using sleep_wakeup_resume[of "example_base\<lparr>mach := entered LTicks idle_mach\<rparr>" LTicks idle_mach 0 ChTicks]
    by fastforce
qed

lemma kkill_from_eq:
  assumes "mach_ok (mach s)" "\<forall>i \<in> set is. lock_free (LProc i) (mach s)"
  shows "kkill_from is pid s =
    (case find (\<lambda>i. p_pid (procs s ! i) = pid) is of
       None \<Rightarrow> Ok (-1) (if is = [] then s else s\<lparr>mach := norm (mach s)\<rparr>)
     | Some i \<Rightarrow> Ok 0 (s\<lparr>mach := norm (mach s), procs := (procs s)[i := (procs s ! i)
         \<lparr>p_killed := True,
          p_state := if p_state (procs s ! i) = SLEEPING then RUNNABLE else p_state (procs s ! i)\<rparr>]\<rparr>))"
  using assms
proof (induction "is" arbitrary: s)
  case (Cons i "is")
  let ?s = "s\<lparr>mach := norm (mach s)\<rparr>"
  show ?case
  proof (cases "p_pid (procs s ! i) = pid")
    case True
    show ?thesis
    proof (cases "i < length (procs s)")
      case False
      then show ?thesis using True Cons.prems
        by (simp add: acquire_free release_entered Let_def set_proc_def list_update_beyond)
    next
      case len: True
      then show ?thesis using True Cons.prems
        by (cases "p_state (procs s ! i) = SLEEPING")
          (simp_all add: acquire_free release_entered Let_def set_proc_def)
    qed
  next
    case False
    then have "kkill_from (i # is) pid s = kkill_from is pid ?s"
      using Cons.prems by (simp add: acquire_free release_entered)
    also have "\<dots> = (case find (\<lambda>i. p_pid (procs s ! i) = pid) is of
       None \<Rightarrow> Ok (-1) ?s
     | Some i \<Rightarrow> Ok 0 (s\<lparr>mach := norm (mach s), procs := (procs s)[i := (procs s ! i)
         \<lparr>p_killed := True,
          p_state := if p_state (procs s ! i) = SLEEPING then RUNNABLE else p_state (procs s ! i)\<rparr>]\<rparr>))"
      using Cons.IH[of ?s] Cons.prems by (auto split: option.splits)
    finally show ?thesis using False by simp
  qed
qed simp

text \<open>
  C18: \<open>kill(pid)\<close> marks the first process with that pid, makes it RUNNABLE if it was SLEEPING so
  that it can notice, returns 0, and changes no other process; with no such process it returns -1
  and changes none.
\<close>

theorem kkill_spec:
  assumes "mach_ok (mach s)" "proclocks_free (mach s)"
  shows "kkill pid s =
    (case find (\<lambda>i. p_pid (procs s ! i) = pid) [0..<NPROC] of
       None \<Rightarrow> Ok (-1) (s\<lparr>mach := norm (mach s)\<rparr>)
     | Some i \<Rightarrow> Ok 0 (s\<lparr>mach := norm (mach s), procs := (procs s)[i := (procs s ! i)
         \<lparr>p_killed := True,
          p_state := if p_state (procs s ! i) = SLEEPING then RUNNABLE else p_state (procs s ! i)\<rparr>]\<rparr>))"
proof -
  have pos: "(NPROC = 0) = False" by (simp add: params)
  show ?thesis
    using kkill_from_eq[of s "[0..<NPROC]" pid] assms
    by (simp add: kkill_def proclocks_free_def pos cong: option.case_cong)
qed

theorem kkill_spec_witness:
  "\<exists>s'. kkill 1 example_base = Ok 0 s' \<and> p_killed (procs s' ! 0)"
proof -
  have upt: "[0..<NPROC] = 0 # [1..<NPROC]" by (simp add: params upt_conv_Cons)
  have "p_pid (procs example_base ! 0) = 1" by (simp add: example_base_def example_proc_def)
  then have "find (\<lambda>i. p_pid (procs example_base ! i) = 1) [0..<NPROC] = Some 0"
    unfolding upt by simp
  moreover have "procs example_base \<noteq> []" by (simp add: example_base_def)
  ultimately show ?thesis using kkill_spec[of example_base 1] by simp
qed

end
