(* ===== verification/Kalloc.thy ===== *)
theory Kalloc
  imports Sched "HOL-Library.Multiset"
begin

text \<open>
  The physical page allocator, \<open>kernel/kalloc.c\<close>.  The kernel's memory is a map from addresses
  to bytes; the free list is threaded through the free pages themselves: the first eight bytes of
  a free page hold the address of the next one (\<open>struct run\<close>), and \<open>freelist\<close> is the head
  pointer, 0 when no page is free.

  \<open>avail s ps\<close> abstracts the chain to the list \<open>ps\<close> of free pages: distinct, page aligned and
  inside \<open>[end, PHYSTOP)\<close>.  The locale \<open>page_allocator\<close> is what a client may rely on, and is
  interpreted on \<open>kalloc\<close> and \<open>kfree\<close>.
\<close>

record memory = base +
  ram :: mem
  freelist :: uint64
  kernel_pagetable :: uint64

definition ld64 :: "mem \<Rightarrow> uint64 \<Rightarrow> uint64" where
  "ld64 m a = le_word (rd m a 8)"

definition st64 :: "uint64 \<Rightarrow> uint64 \<Rightarrow> mem \<Rightarrow> mem" where
  "st64 a v m = wr m a (le_bytes v)"

section \<open>The operations\<close>

definition kfree :: "uint64 \<Rightarrow> 'a memory_scheme \<Rightarrow> (unit, 'a memory_scheme) res" where
  "kfree pa s =
     (if pa mod PGSIZE \<noteq> 0 \<or> pa < kend s \<or> PHYSTOP \<le> pa then Panic ''kfree''
      else let s = s\<lparr>ram := memset pa 1 4096 (ram s)\<rparr> in
        seq (acquire LKmem s) (\<lambda>_ s.
        let s = s\<lparr>ram := st64 pa (freelist s) (ram s)\<rparr>;
            s = s\<lparr>freelist := pa\<rparr>
        in release LKmem s))"

definition kalloc :: "'a memory_scheme \<Rightarrow> (uint64, 'a memory_scheme) res" where
  "kalloc s =
     seq (acquire LKmem s) (\<lambda>_ s.
     let r = freelist s;
         s = (if r \<noteq> 0 then s\<lparr>freelist := ld64 (ram s) r\<rparr> else s)
     in seq (release LKmem s) (\<lambda>_ s.
        Ok r (if r \<noteq> 0 then s\<lparr>ram := memset r 5 4096 (ram s)\<rparr> else s)))"

lemma kfree_Ok_below: "kfree pa s = Ok u s' \<Longrightarrow> pa < PHYSTOP"
  by (auto simp: kfree_def split: if_splits)

function freerange_loop :: "uint64 \<Rightarrow> uint64 \<Rightarrow> 'a memory_scheme \<Rightarrow> (unit, 'a memory_scheme) res" where
  "freerange_loop p pa_end s =
     (if p + PGSIZE \<le> pa_end
      then seq (kfree p s) (\<lambda>_ s. freerange_loop (p + PGSIZE) pa_end s)
      else Ok () s)"
  by pat_completeness auto
termination
proof (relation "measure (\<lambda>(p, _, _). unat PHYSTOP + 4096 - unat p)")
  fix p pa_end :: uint64 and s :: "'a memory_scheme" and u s'
  assume "kfree p s = Ok u s'"
  then have p: "unat p < unat PHYSTOP" using kfree_Ok_below word_less_nat_alt by blast
  have "unat (p + PGSIZE) = unat p + unat PGSIZE"
    using p by (intro unat_add_small) (simp add: params)
  then show "((p + PGSIZE, pa_end, s'), (p, pa_end, s)) \<in> measure (\<lambda>(p, _, _). unat PHYSTOP + 4096 - unat p)"
    using p by (simp add: params)
qed simp

declare freerange_loop.simps [simp del]

definition freerange :: "uint64 \<Rightarrow> uint64 \<Rightarrow> 'a memory_scheme \<Rightarrow> (unit, 'a memory_scheme) res" where
  "freerange pa_start pa_end s = freerange_loop (PGROUNDUP pa_start) pa_end s"

definition kinit :: "'a memory_scheme \<Rightarrow> (unit, 'a memory_scheme) res" where
  "kinit s = (let s = initlock LKmem ''kmem'' s in freerange (kend s) PHYSTOP s)"

section \<open>The free list as a list\<close>

fun flist :: "mem \<Rightarrow> uint64 \<Rightarrow> uint64 list \<Rightarrow> bool" where
  "flist m p [] \<longleftrightarrow> p = 0"
| "flist m p (q # qs) \<longleftrightarrow> p = q \<and> q \<noteq> 0 \<and> flist m (ld64 m q) qs"

definition aligned :: "uint64 \<Rightarrow> bool" where
  "aligned p \<longleftrightarrow> p mod PGSIZE = 0"

definition page_ok :: "uint64 \<Rightarrow> uint64 \<Rightarrow> bool" where
  "page_ok e pa \<longleftrightarrow> aligned pa \<and> e \<le> pa \<and> pa < PHYSTOP"

definition in_page :: "uint64 \<Rightarrow> uint64 \<Rightarrow> bool" where
  "in_page pa a \<longleftrightarrow> unat (a - pa) < 4096"

definition avail :: "'a memory_scheme \<Rightarrow> uint64 list \<Rightarrow> bool" where
  "avail s ps \<longleftrightarrow> mach_ok (mach s) \<and> lock_free LKmem (mach s) \<and> 0 < kend s \<and>
     flist (ram s) (freelist s) ps \<and> distinct ps \<and> (\<forall>p \<in> set ps. page_ok (kend s) p)"

lemma ld64_st64 [simp]: "ld64 (st64 a v m) a = v"
  by (simp add: ld64_def st64_def rd_wr_same)

lemma ld64_cong: "(\<And>a. in_page p a \<Longrightarrow> m a = m' a) \<Longrightarrow> ld64 m p = ld64 m' p"
  unfolding ld64_def by (intro arg_cong[of _ _ le_word] rd_cong) (simp add: in_page_def unat_of_nat_64)

lemma unat_numeral_4096: "unat (4096 :: uint64) = 4096"
  by simp

lemma flist_cong:
  "(\<And>p a. p \<in> set ps \<Longrightarrow> in_page p a \<Longrightarrow> m a = m' a) \<Longrightarrow> flist m q ps = flist m' q ps"
proof (induction ps arbitrary: q)
  case (Cons p ps)
  then have "ld64 m p = ld64 m' p" by (intro ld64_cong) auto
  moreover have "flist m (ld64 m' p) ps = flist m' (ld64 m' p) ps" using Cons by auto
  ultimately show ?case by simp
qed simp

lemma memset_outside: "\<not> in_page p a \<Longrightarrow> memset p c 4096 m a = m a"
  by (simp add: memset_wr in_page_def) (simp add: wr_def)

lemma st64_outside: "\<not> in_page p a \<Longrightarrow> st64 p v m a = m a"
  by (simp add: st64_def in_page_def wr_def)

text \<open>Two different aligned pages share no address.\<close>

lemma aligned_unat: "aligned p \<Longrightarrow> unat p mod 4096 = 0"
  unfolding aligned_def by (metis PGSIZE_def unat_0 unat_mod_distrib unat_numeral_4096)

lemma in_page_div:
  assumes "aligned p" "in_page p a"
  shows "unat a div 4096 * 4096 = unat p"
proof -
  obtain k where k: "unat p = 4096 * k" using aligned_unat[OF assms(1)] by auto
  have lt: "unat p < 2 ^ 64" using unsigned_less[of p] by simp
  have "k < 2 ^ 52" using k lt by simp
  then have "unat p + unat (a - p) < 2 ^ 64" using k assms(2) by (simp add: in_page_def)
  then have "unat (p + (a - p)) = unat p + unat (a - p)" by (intro unat_add_small) simp
  then have "unat a = 4096 * k + unat (a - p)" using k by simp
  then show ?thesis using assms(2) k by (simp add: in_page_def)
qed

lemma pages_disjoint:
  assumes "aligned p" "aligned q" "in_page p a" "in_page q a"
  shows "p = q"
  using in_page_div[OF assms(1,3)] in_page_div[OF assms(2,4)] by (metis unsigned_word_eqI)

lemma in_page_self [simp]: "in_page p p"
  by (simp add: in_page_def)

section \<open>What the operations do to the free list\<close>

lemma kfree_eq:
  assumes "mach_ok (mach s)" "lock_free LKmem (mach s)" "page_ok (kend s) pa"
  shows "kfree pa s = Ok () (s\<lparr>mach := norm (mach s), freelist := pa,
    ram := st64 pa (freelist s) (memset pa 1 4096 (ram s))\<rparr>)"
  using assms by (simp add: kfree_def page_ok_def aligned_def acquire_free release_entered not_less not_le)

lemma kalloc_eq:
  assumes "mach_ok (mach s)" "lock_free LKmem (mach s)"
  shows "kalloc s = Ok (freelist s) (if freelist s = 0 then s\<lparr>mach := norm (mach s)\<rparr>
    else s\<lparr>mach := norm (mach s), freelist := ld64 (ram s) (freelist s),
           ram := memset (freelist s) 5 4096 (ram s)\<rparr>)"
  using assms by (simp add: kalloc_def acquire_free release_entered Let_def)

lemma avail_frame:
  assumes "avail s ps" "mach_ok (mach t)" "lock_free LKmem (mach t)" "kend t = kend s"
    "freelist t = freelist s" "\<And>p a. p \<in> set ps \<Longrightarrow> in_page p a \<Longrightarrow> ram t a = ram s a"
  shows "avail t ps"
  using assms flist_cong[of ps "ram t" "ram s"] by (simp add: avail_def)

lemma kfree_avail:
  assumes "avail s ps" "page_ok (kend s) pa" "pa \<notin> set ps"
  shows "\<exists>m. kfree pa s = Ok () (s\<lparr>mach := norm (mach s), freelist := pa, ram := m\<rparr>) \<and>
    avail (s\<lparr>mach := norm (mach s), freelist := pa, ram := m\<rparr>) (pa # ps) \<and>
    (\<forall>a. \<not> in_page pa a \<longrightarrow> m a = ram s a)"
proof -
  let ?m = "st64 pa (freelist s) (memset pa 1 4096 (ram s))"
  have out: "?m a = ram s a" if "\<not> in_page pa a" for a
    using that by (simp add: st64_outside memset_outside)
  have "\<not> in_page pa a" if "p \<in> set ps" "in_page p a" for p a
    using pages_disjoint[of p pa a] that assms by (auto simp: avail_def page_ok_def)
  then have "flist ?m (freelist s) ps"
    using flist_cong[of ps ?m "ram s"] out assms(1) by (auto simp: avail_def)
  moreover have "pa \<noteq> 0" using assms(1,2) by (auto simp: avail_def page_ok_def)
  ultimately show ?thesis
    using assms out kfree_eq[of s pa] by (intro exI[of _ ?m]) (auto simp: avail_def)
qed

lemma kalloc_avail_Cons:
  assumes "avail s (p # ps)"
  shows "\<exists>f m. kalloc s = Ok p (s\<lparr>mach := norm (mach s), freelist := f, ram := m\<rparr>) \<and>
    avail (s\<lparr>mach := norm (mach s), freelist := f, ram := m\<rparr>) ps \<and>
    (\<forall>a. m a = (if in_page p a then 5 else ram s a))"
proof -
  let ?m = "memset p 5 4096 (ram s)"
  have p: "freelist s = p" "p \<noteq> 0" "flist (ram s) (ld64 (ram s) p) ps" using assms by (auto simp: avail_def)
  have m: "?m a = (if in_page p a then 5 else ram s a)" for a
    by (simp add: memset_wr in_page_def) (simp add: wr_def)
  have "\<not> in_page p a" if "q \<in> set ps" "in_page q a" for q a
    using pages_disjoint[of q p a] that assms by (auto simp: avail_def page_ok_def)
  then have "flist ?m (ld64 (ram s) p) ps"
    using flist_cong[of ps ?m "ram s"] m p by auto
  then show ?thesis
    using assms p m kalloc_eq[of s]
    by (intro exI[of _ "ld64 (ram s) p"] exI[of _ ?m]) (auto simp: avail_def)
qed

lemma kalloc_avail_Nil:
  "avail s [] \<Longrightarrow> kalloc s = Ok 0 (s\<lparr>mach := norm (mach s)\<rparr>) \<and> avail (s\<lparr>mach := norm (mach s)\<rparr>) []"
  using kalloc_eq[of s] by (simp add: avail_def)

section \<open>The interface\<close>

text \<open>
  \<open>free_list s ps\<close>: the pages \<open>ps\<close> are free; \<open>usable s p\<close>: \<open>p\<close> may be given to the allocator.
\<close>

locale page_allocator =
  fixes alloc :: "'s \<Rightarrow> (uint64, 's) res"
    and free :: "uint64 \<Rightarrow> 's \<Rightarrow> (unit, 's) res"
    and free_list :: "'s \<Rightarrow> uint64 list \<Rightarrow> bool"
    and usable :: "'s \<Rightarrow> uint64 \<Rightarrow> bool"
  assumes alloc_none: "free_list s [] \<Longrightarrow> \<exists>s'. alloc s = Ok 0 s' \<and> free_list s' []"
    and alloc_page: "free_list s (p # ps) \<Longrightarrow>
      p \<noteq> 0 \<and> (\<exists>s'. alloc s = Ok p s' \<and> free_list s' ps \<and> usable s' = usable s)"
    and free_page: "free_list s ps \<Longrightarrow> usable s p \<Longrightarrow> p \<notin> set ps \<Longrightarrow>
      \<exists>s'. free p s = Ok () s' \<and> free_list s' (p # ps) \<and> usable s' = usable s"
    and listed: "free_list s ps \<Longrightarrow> distinct ps \<and> (\<forall>p \<in> set ps. usable s p)"
begin

lemma collect_free_list:
  "free_list s (qs @ ps) \<Longrightarrow> \<exists>s'. collect (length qs) alloc s = Ok qs s' \<and> free_list s' ps \<and> usable s' = usable s"
proof (induction qs arbitrary: s)
  case (Cons q qs)
  then obtain s1 where s1: "alloc s = Ok q s1" "free_list s1 (qs @ ps)" "usable s1 = usable s"
    using alloc_page[of s q "qs @ ps"] by auto
  then obtain s2 where "collect (length qs) alloc s1 = Ok qs s2" "free_list s2 ps" "usable s2 = usable s1"
    using Cons.IH by blast
  then show ?case using s1 by auto
qed simp

lemma free_all:
  assumes "free_list s ps" "distinct qs" "set qs \<inter> set ps = {}" "\<forall>q \<in> set qs. usable s q"
  shows "\<exists>s'. foreach qs free s = Ok () s' \<and> free_list s' (rev qs @ ps) \<and> usable s' = usable s"
  using assms
proof (induction qs arbitrary: s ps)
  case (Cons q qs)
  then obtain s1 where s1: "free q s = Ok () s1" "free_list s1 (q # ps)" "usable s1 = usable s"
    using free_page[of s ps q] by auto
  then obtain s2 where "foreach qs free s1 = Ok () s2" "free_list s2 (rev qs @ q # ps)" "usable s2 = usable s1"
    using Cons.IH[of s1 "q # ps"] Cons.prems by auto
  then show ?case using s1 by auto
qed simp

text \<open>Allocating \<open>n\<close> pages and freeing them leaves the same pages free.\<close>

lemma alloc_then_free:
  assumes "free_list s (qs @ ps)"
  shows "\<exists>s'. seq (collect (length qs) alloc s) (\<lambda>qs s. foreach qs free s) = Ok () s' \<and> free_list s' (rev qs @ ps)"
proof -
  obtain s1 where s1: "collect (length qs) alloc s = Ok qs s1" "free_list s1 ps" "usable s1 = usable s"
    using collect_free_list[OF assms] by blast
  have "distinct qs" "set qs \<inter> set ps = {}" "\<forall>q \<in> set qs. usable s1 q"
    using listed[OF assms] s1(3) by auto
  from free_all[OF s1(2) this] s1(1) show ?thesis by auto
qed

end

interpretation kmem: page_allocator kalloc kfree avail "\<lambda>s. page_ok (kend s)"
proof
  fix s :: "'a memory_scheme" and p ps
  show "\<exists>s'. kalloc s = Ok 0 s' \<and> avail s' []" if "avail s []"
    using kalloc_avail_Nil[OF that] by blast
  show "p \<noteq> 0 \<and> (\<exists>s'. kalloc s = Ok p s' \<and> avail s' ps \<and> page_ok (kend s') = page_ok (kend s))"
    if "avail s (p # ps)"
    using kalloc_avail_Cons[OF that] that by (fastforce simp: avail_def)
  show "\<exists>s'. kfree p s = Ok () s' \<and> avail s' (p # ps) \<and> page_ok (kend s') = page_ok (kend s)"
    if "avail s ps" "page_ok (kend s) p" "p \<notin> set ps"
    using kfree_avail[OF that] by fastforce
  show "distinct ps \<and> (\<forall>p \<in> set ps. page_ok (kend s) p)" if "avail s ps"
    using that by (simp add: avail_def)
qed

section \<open>Initialisation\<close>

lemma aligned_less_iff:
  assumes "aligned p" "aligned q" "unat p + 4096 < 2 ^ 64"
  shows "q < p + PGSIZE \<longleftrightarrow> q < p \<or> q = p"
proof -
  obtain j k where jk: "unat p = 4096 * j" "unat q = 4096 * k"
    using aligned_unat[OF assms(1)] aligned_unat[OF assms(2)] by (metis mod_0_imp_dvd dvdE)
  have u: "unat (p + PGSIZE) = unat p + unat PGSIZE"
    using assms(3) by (intro unat_add_small) (simp add: params)
  have "unat q < unat (p + PGSIZE) \<longleftrightarrow> unat q < unat p \<or> unat q = unat p"
    unfolding u using jk by (auto simp: params)
  then show ?thesis by (metis unsigned_word_eqI word_less_nat_alt)
qed

lemma aligned_add: "aligned p \<Longrightarrow> unat p + 4096 < 2 ^ 64 \<Longrightarrow> aligned (p + PGSIZE)"
proof -
  assume "aligned p" and lt: "unat p + 4096 < 2 ^ 64"
  then have "unat p mod 4096 = 0" by (intro aligned_unat)
  moreover have "unat (p + PGSIZE) = unat p + unat PGSIZE"
    using lt by (intro unat_add_small) (simp add: params)
  ultimately have "unat ((p + PGSIZE) mod PGSIZE) = 0" by (simp add: unat_mod_distrib params)
  then show ?thesis by (simp only: unat_eq_zero aligned_def)
qed

lemma PHYSTOP_numeral: "PHYSTOP = 0x88000000"
  by (simp add: params)

lemma freerange_loop_avail:
  assumes "avail s ps" "set ps = {q. page_ok (kend s) q \<and> q < p}" "aligned p"
    "kend s \<le> p" "p \<le> PHYSTOP"
  shows "\<exists>s' ps'. freerange_loop p PHYSTOP s = Ok () s' \<and> kend s' = kend s \<and> avail s' ps' \<and>
    set ps' = {q. page_ok (kend s) q}"
  using assms
proof (induction p PHYSTOP s arbitrary: ps rule: freerange_loop.induct)
  case (1 p s)
  have small: "unat p + 4096 < 2 ^ 64" using 1(6) by (simp add: PHYSTOP_numeral word_le_nat_alt)
  have u: "unat (p + PGSIZE) = unat p + 4096"
    using small unat_add_small[of p PGSIZE] by (simp add: params)
  show ?case
  proof (cases "p + PGSIZE \<le> PHYSTOP")
    case True
    then have lt: "p < PHYSTOP" using u by (simp add: word_le_nat_alt word_less_nat_alt)
    then have ok: "page_ok (kend s) p" using 1(4,5) by (simp add: page_ok_def)
    have "p \<notin> set ps" using 1(3) by simp
    then obtain m where m: "kfree p s = Ok () (s\<lparr>mach := norm (mach s), freelist := p, ram := m\<rparr>)"
      "avail (s\<lparr>mach := norm (mach s), freelist := p, ram := m\<rparr>) (p # ps)"
      using kfree_avail[OF 1(2) ok] by blast
    let ?s = "s\<lparr>mach := norm (mach s), freelist := p, ram := m\<rparr>"
    have "set (p # ps) = {q. page_ok (kend s) q \<and> q < p + PGSIZE}"
      using 1(3) ok aligned_less_iff[OF 1(4) _ small] by (auto simp: page_ok_def)
    moreover have "kend s \<le> p + PGSIZE" using 1(5) u by (simp add: word_le_nat_alt)
    ultimately obtain s' ps' where "freerange_loop (p + PGSIZE) PHYSTOP ?s = Ok () s'" "kend s' = kend s"
      "avail s' ps'" "set ps' = {q. page_ok (kend s) q}"
      using 1(1)[OF True m(1) m(2)] aligned_add[OF 1(4) small] True by auto
    then show ?thesis using True m(1) by (subst freerange_loop.simps) auto
  next
    case False
    have "p = PHYSTOP"
    proof -
      obtain j where "unat p = 4096 * j" using aligned_unat[OF 1(4)] by auto
      then have "unat p = unat PHYSTOP"
        using False u 1(6) by (simp add: word_le_nat_alt PHYSTOP_numeral)
      then show ?thesis by (rule unsigned_word_eqI)
    qed
    then have "set ps = {q. page_ok (kend s) q}" using 1(3) by (auto simp: page_ok_def)
    then show ?thesis using False 1(2) by (subst freerange_loop.simps) auto
  qed
qed

lemma unat_PGROUNDDOWN: "unat (PGROUNDDOWN a) = unat a div 4096 * 4096"
proof -
  have "PGROUNDDOWN a = push_bit 12 (drop_bit 12 a)"
    unfolding PGROUNDDOWN_def
  proof (rule bit_word_eqI)
    fix n
    have "(PGSIZE - 1 :: uint64) = mask 12" by (simp add: params mask_eq_exp_minus_1)
    then show "bit (a AND NOT (PGSIZE - 1)) n = bit (push_bit 12 (drop_bit 12 a)) n" if "n < LENGTH(64)"
      using that by (auto simp: bit_simps)
  qed
  also have "\<dots> = drop_bit 12 a * 4096" by (simp add: push_bit_eq_mult)
  also have "unat \<dots> = unat a div 4096 * 4096"
  proof -
    have d: "unat (drop_bit 12 a) = unat a div 4096"
      by (simp only: unat_drop_bit_eq) (simp add: drop_bit_eq_div)
    have "unat a < 2 ^ 64" using unsigned_less[of a] by simp
    then have "unat a div 4096 * 4096 < 2 ^ 64" by (meson div_times_less_eq_dividend le_less_trans)
    then show ?thesis by (simp add: unat_word_ariths d)
  qed
  finally show ?thesis .
qed

lemma unat_mod_PGSIZE: "aligned p \<longleftrightarrow> unat p mod 4096 = 0"
proof
  assume "unat p mod 4096 = 0"
  then have "unat (p mod PGSIZE) = 0" by (simp add: unat_mod_distrib params)
  then show "aligned p" by (simp only: unat_eq_zero aligned_def)
qed (rule aligned_unat)

lemma aligned_PGROUNDDOWN [simp]: "aligned (PGROUNDDOWN a)"
  by (simp add: unat_mod_PGSIZE unat_PGROUNDDOWN)

lemma PGROUNDUP_DOWN: "PGROUNDUP a = PGROUNDDOWN (a + 4095)"
  by (simp add: PGROUNDUP_def PGROUNDDOWN_def params add.commute)

lemma aligned_PGROUNDUP [simp]: "aligned (PGROUNDUP a)"
  by (simp add: PGROUNDUP_DOWN)

lemma unat_PGROUNDUP:
  "unat a + 4095 < 2 ^ 64 \<Longrightarrow> unat (PGROUNDUP a) = (unat a + 4095) div 4096 * 4096"
  using unat_add_small[of a 4095] by (simp add: PGROUNDUP_DOWN unat_PGROUNDDOWN)

lemma PGROUNDUP_least:
  assumes "unat a + 4095 < 2 ^ 64"
  shows "a \<le> PGROUNDUP a" "aligned q \<Longrightarrow> a \<le> q \<Longrightarrow> PGROUNDUP a \<le> q"
proof -
  show "a \<le> PGROUNDUP a" using unat_PGROUNDUP[OF assms] by (simp add: word_le_nat_alt)
  assume "aligned q" "a \<le> q"
  then obtain k where k: "unat q = 4096 * k" "unat a \<le> unat q"
    by (auto simp: unat_mod_PGSIZE word_le_nat_alt)
  then have "(unat a + 4095) div 4096 < Suc k" by (simp add: div_less_iff_less_mult)
  then have "(unat a + 4095) div 4096 * 4096 \<le> unat q" using k(1) by simp
  then show "PGROUNDUP a \<le> q" using unat_PGROUNDUP[OF assms] by (simp add: word_le_nat_alt)
qed

lemma kinit_avail:
  assumes "mach_ok (mach s)" "freelist s = 0" "0 < kend s" "kend s < PHYSTOP"
  shows "\<exists>s' ps. kinit s = Ok () s' \<and> kend s' = kend s \<and> avail s' ps \<and>
    set ps = {p. page_ok (kend s) p}"
proof -
  let ?s = "initlock LKmem ''kmem'' s"
  have small: "unat (kend s) + 4095 < 2 ^ 64"
    using assms(4) by (simp add: PHYSTOP_numeral word_less_nat_alt)
  have "mach_ok (mach ?s)" "lock_free LKmem (mach ?s)"
    using assms(1) by (simp_all add: initlock_def initlock_m_def mach_ok_def lock_free_def)
  then have "avail ?s []" using assms by (simp add: avail_def initlock_def)
  moreover have "set [] = {q. page_ok (kend ?s) q \<and> q < PGROUNDUP (kend s)}"
    using PGROUNDUP_least(2)[OF small] by (auto simp: page_ok_def initlock_def not_less[symmetric])
  moreover have "PGROUNDUP (kend s) \<le> PHYSTOP"
    using assms(4) by (intro PGROUNDUP_least(2)[OF small]) (auto simp: unat_mod_PGSIZE PHYSTOP_numeral)
  ultimately have "\<exists>s' ps. freerange_loop (PGROUNDUP (kend s)) PHYSTOP ?s = Ok () s' \<and> kend s' = kend ?s \<and>
      avail s' ps \<and> set ps = {q. page_ok (kend ?s) q}"
    using PGROUNDUP_least(1)[OF small]
    by (intro freerange_loop_avail[of ?s "[]"]) (simp_all add: initlock_def)
  then show ?thesis by (simp add: kinit_def freerange_def Let_def) (simp add: initlock_def)
qed

section \<open>Properties\<close>

definition example_memory :: memory where
  "example_memory = base.extend example_base (memory.fields (\<lambda>_. 0) 0 0)"

lemma example_memory [simp]:
  "mach example_memory = idle_mach" "freelist example_memory = 0" "kend example_memory = 0x80022000"
  "procs example_memory = procs example_base" "ram example_memory = (\<lambda>_. 0)"
  by (simp_all add: example_memory_def base.defs memory.defs example_base_def)

text \<open>
  C5: the allocator hands out every page exactly once.  After \<open>kinit\<close> the free pages are exactly
  the aligned pages of \<open>[end, PHYSTOP)\<close>; from there, \<open>n\<close> calls of \<open>kalloc\<close> return \<open>n\<close> different
  non-null pages of that range for every \<open>n\<close> up to their number, one more call returns 0, and
  giving the pages back with \<open>kfree\<close> makes all of them free again.
\<close>

theorem kalloc_hands_out_each_page_once:
  assumes "mach_ok (mach s)" "freelist s = 0" "0 < kend s" "kend s < PHYSTOP"
  shows "\<exists>s' ps. kinit s = Ok () s' \<and> distinct ps \<and> set ps = {p. page_ok (kend s) p} \<and> 0 \<notin> set ps \<and>
    (\<forall>n \<le> length ps. \<exists>t. collect n kalloc s' = Ok (take n ps) t \<and>
       (n = length ps \<longrightarrow> (\<exists>t'. kalloc t = Ok 0 t')) \<and>
       (\<exists>t' qs. foreach (take n ps) kfree t = Ok () t' \<and> avail t' qs \<and> mset qs = mset ps))"
proof -
  obtain s' ps where s': "kinit s = Ok () s'" "kend s' = kend s" "avail s' ps"
    "set ps = {p. page_ok (kend s) p}"
    using kinit_avail[OF assms] by blast
  have d: "distinct ps" using s'(3) by (simp add: avail_def)
  have "\<not> page_ok (kend s) 0" using assms(3) by (auto simp: page_ok_def)
  then have z: "0 \<notin> set ps" using s'(4) by simp
  have n: "\<exists>t. collect n kalloc s' = Ok (take n ps) t \<and>
       (n = length ps \<longrightarrow> (\<exists>t'. kalloc t = Ok 0 t')) \<and>
       (\<exists>t' qs. foreach (take n ps) kfree t = Ok () t' \<and> avail t' qs \<and> mset qs = mset ps)"
    if le: "n \<le> length ps" for n
  proof -
    obtain t where t: "collect n kalloc s' = Ok (take n ps) t" "avail t (drop n ps)"
      "page_ok (kend t) = page_ok (kend s')"
      using kmem.collect_free_list[of s' "take n ps" "drop n ps"] s'(3) le
      by (auto simp: min_absorb2)
    have "\<exists>t'. foreach (take n ps) kfree t = Ok () t' \<and> avail t' (rev (take n ps) @ drop n ps) \<and>
        page_ok (kend t') = page_ok (kend t)"
    proof (rule kmem.free_all[OF t(2)])
      show "distinct (take n ps)" using d by simp
      show "set (take n ps) \<inter> set (drop n ps) = {}" using d by (simp add: set_take_disj_set_drop_if_distinct)
      show "\<forall>q \<in> set (take n ps). page_ok (kend t) q" using t(3) s'(2,4) by (auto dest: in_set_takeD)
    qed
    moreover have "mset (rev (take n ps) @ drop n ps) = mset ps"
      by (metis append_take_drop_id mset_append mset_rev)
    moreover have "\<exists>t'. kalloc t = Ok 0 t'" if "n = length ps"
      using kmem.alloc_none[of t] t(2) that by auto
    ultimately show ?thesis using t(1) by meson
  qed
  show ?thesis
    using s'(1,4) d z n by meson
qed

theorem kalloc_hands_out_each_page_once_witness:
  "\<exists>s' ps t. kinit example_memory = Ok () s' \<and> set ps = {p. page_ok 0x80022000 p} \<and>
    collect 1 kalloc s' = Ok (take 1 ps) t \<and> take 1 ps \<noteq> []"
proof -
  obtain s' ps where h: "kinit example_memory = Ok () s'" "set ps = {p. page_ok 0x80022000 p}"
    "\<forall>n \<le> length ps. \<exists>t. collect n kalloc s' = Ok (take n ps) t"
  proof -
    have pre: "mach_ok (mach example_memory)" "freelist example_memory = 0" "0 < kend example_memory"
      "kend example_memory < PHYSTOP"
      by (simp_all add: PHYSTOP_numeral)
    have "\<exists>s' ps. kinit example_memory = Ok () s' \<and> set ps = {p. page_ok 0x80022000 p} \<and>
      (\<forall>n \<le> length ps. \<exists>t. collect n kalloc s' = Ok (take n ps) t)"
      using kalloc_hands_out_each_page_once[OF pre] unfolding example_memory by meson
    then show thesis using that by blast
  qed
  have "page_ok 0x80022000 0x80022000" by (simp add: page_ok_def PHYSTOP_numeral unat_mod_PGSIZE)
  then have "ps \<noteq> []" using h(2) by auto
  then have "1 \<le> length ps" "take 1 ps \<noteq> []" by (simp_all add: Suc_le_eq)
  then show ?thesis using h by blast
qed

end
