(* ===== verification/Bio.thy ===== *)
theory Bio
  imports Kalloc
begin

text \<open>
  The buffer cache, \<open>kernel/bio.c\<close> and \<open>kernel/buf.h\<close>.  The buffers are numbered \<open>0 .. NBUF-1\<close>
  and the list head \<open>bcache.head\<close> is number \<open>NBUF\<close>; \<open>b_next\<close> and \<open>b_prev\<close> are the pointers of
  the doubly linked LRU ring, updated one store at a time as in the code.  A scan of the ring is
  given \<open>NBUF + 1\<close> steps: in a well-formed ring it ends within them, and a scan that does not is
  the outcome \<open>Spin\<close>.

  The disk is a map from block numbers to blocks.  \<open>disk_rw\<close> is the completed transfer that
  \<open>virtio_disk_rw(b, write)\<close> performs when it returns; \<open>dlog\<close> records the writes in order and is
  read only by the statements about crashes.  The \<open>dev\<close> of a buffer does not reach the driver,
  so blocks are looked up on the disk by number alone.

  \<open>ring B xs\<close> abstracts the pointers to the list \<open>xs\<close> of buffers from most to least recently
  used; \<open>view s bn\<close> is the content of block \<open>bn\<close> as the kernel sees it, cached or on disk.
  \<open>bio_ok P H s\<close> is the state contract: blocks in \<open>P\<close> are pinned, \<open>H\<close> maps each block the
  running process holds to its buffer.
\<close>

record buf =
  b_valid :: bool
  b_disk :: bool
  b_dev :: nat
  b_blockno :: nat
  b_refcnt :: uint
  b_prev :: nat
  b_next :: nat
  b_data :: "byte list"

type_synonym bufmap = "nat \<Rightarrow> buf"

record bio = memory +
  bufs :: bufmap
  disk :: "nat \<Rightarrow> byte list"
  dlog :: "(nat \<times> byte list) list"

section \<open>The ring of buffers\<close>

definition set_next :: "nat \<Rightarrow> nat \<Rightarrow> bufmap \<Rightarrow> bufmap" where
  "set_next x v B = B(x := (B x)\<lparr>b_next := v\<rparr>)"

definition set_prev :: "nat \<Rightarrow> nat \<Rightarrow> bufmap \<Rightarrow> bufmap" where
  "set_prev x v B = B(x := (B x)\<lparr>b_prev := v\<rparr>)"

definition unlink_buf :: "nat \<Rightarrow> bufmap \<Rightarrow> bufmap" where
  "unlink_buf b B =
     (let B = set_prev (b_next (B b)) (b_prev (B b)) B in
      set_next (b_prev (B b)) (b_next (B b)) B)"

definition link_front :: "nat \<Rightarrow> bufmap \<Rightarrow> bufmap" where
  "link_front b B =
     (let B = set_next b (b_next (B NBUF)) B;
          B = set_prev b NBUF B;
          B = set_prev (b_next (B NBUF)) b B
      in set_next NBUF b B)"

text \<open>
  The two scans: \<open>Some (Some b)\<close> is the first buffer with the property, \<open>Some None\<close> that the scan
  came back to the head.
\<close>

fun scan_next :: "nat \<Rightarrow> bufmap \<Rightarrow> nat \<Rightarrow> (buf \<Rightarrow> bool) \<Rightarrow> nat option option" where
  "scan_next 0 B b P = None"
| "scan_next (Suc k) B b P =
     (if b = NBUF then Some None else if P (B b) then Some (Some b)
      else scan_next k B (b_next (B b)) P)"

fun scan_prev :: "nat \<Rightarrow> bufmap \<Rightarrow> nat \<Rightarrow> (buf \<Rightarrow> bool) \<Rightarrow> nat option option" where
  "scan_prev 0 B b P = None"
| "scan_prev (Suc k) B b P =
     (if b = NBUF then Some None else if P (B b) then Some (Some b)
      else scan_prev k B (b_prev (B b)) P)"

section \<open>The operations\<close>

definition b_upd :: "nat \<Rightarrow> (buf \<Rightarrow> buf) \<Rightarrow> 'a bio_scheme \<Rightarrow> 'a bio_scheme" where
  "b_upd b f s = s\<lparr>bufs := (bufs s)(b := f (bufs s b))\<rparr>"

definition disk_rw :: "nat \<Rightarrow> bool \<Rightarrow> 'a bio_scheme \<Rightarrow> 'a bio_scheme" where
  "disk_rw b write s =
     (let bn = b_blockno (bufs s b) in
      if write then s\<lparr>disk := (disk s)(bn := b_data (bufs s b)), dlog := dlog s @ [(bn, b_data (bufs s b))]\<rparr>
      else b_upd b (b_data_update (\<lambda>_. disk s bn)) s)"

definition binit_one :: "nat \<Rightarrow> 'a bio_scheme \<Rightarrow> (unit, 'a bio_scheme) res" where
  "binit_one b s =
     (let s = s\<lparr>bufs := set_prev b NBUF (set_next b (b_next (bufs s NBUF)) (bufs s))\<rparr>;
          s = initsleeplock (SBuf b) ''buffer'' s;
          s = s\<lparr>bufs := set_prev (b_next (bufs s NBUF)) b (bufs s)\<rparr>
      in Ok () (s\<lparr>bufs := set_next NBUF b (bufs s)\<rparr>))"

definition binit :: "'a bio_scheme \<Rightarrow> (unit, 'a bio_scheme) res" where
  "binit s =
     (let s = initlock LBcache ''bcache'' s;
          s = s\<lparr>bufs := set_next NBUF NBUF (set_prev NBUF NBUF (bufs s))\<rparr>
      in foreach [0..<NBUF] binit_one s)"

definition bget :: "nat \<Rightarrow> nat \<Rightarrow> 'a bio_scheme \<Rightarrow> (nat, 'a bio_scheme) res" where
  "bget dev blockno s =
     seq (acquire LBcache s) (\<lambda>_ s.
     case scan_next (NBUF + 1) (bufs s) (b_next (bufs s NBUF))
            (\<lambda>b. b_dev b = dev \<and> b_blockno b = blockno) of
       None \<Rightarrow> Spin
     | Some (Some b) \<Rightarrow>
         let s = b_upd b (\<lambda>x. x\<lparr>b_refcnt := b_refcnt x + 1\<rparr>) s in
         seq (release LBcache s) (\<lambda>_ s. seq (acquiresleep (SBuf b) s) (\<lambda>_ s. Ok b s))
     | Some None \<Rightarrow>
         (case scan_prev (NBUF + 1) (bufs s) (b_prev (bufs s NBUF)) (\<lambda>b. b_refcnt b = 0) of
            None \<Rightarrow> Spin
          | Some (Some b) \<Rightarrow>
              let s = b_upd b (\<lambda>x. x\<lparr>b_dev := dev, b_blockno := blockno, b_valid := False, b_refcnt := 1\<rparr>) s in
              seq (release LBcache s) (\<lambda>_ s. seq (acquiresleep (SBuf b) s) (\<lambda>_ s. Ok b s))
          | Some None \<Rightarrow> Panic ''bget: no buffers''))"

definition bread :: "nat \<Rightarrow> nat \<Rightarrow> 'a bio_scheme \<Rightarrow> (nat, 'a bio_scheme) res" where
  "bread dev blockno s =
     seq (bget dev blockno s) (\<lambda>b s.
     if \<not> b_valid (bufs s b)
     then Ok b (b_upd b (\<lambda>x. x\<lparr>b_valid := True\<rparr>) (disk_rw b False s))
     else Ok b s)"

definition bwrite :: "nat \<Rightarrow> 'a bio_scheme \<Rightarrow> (unit, 'a bio_scheme) res" where
  "bwrite b s =
     seq (holdingsleep (SBuf b) s) (\<lambda>h s.
     if \<not> h then Panic ''bwrite'' else Ok () (disk_rw b True s))"

definition brelse :: "nat \<Rightarrow> 'a bio_scheme \<Rightarrow> (unit, 'a bio_scheme) res" where
  "brelse b s =
     seq (holdingsleep (SBuf b) s) (\<lambda>h s.
     if \<not> h then Panic ''brelse''
     else seq (releasesleep (SBuf b) s) (\<lambda>_ s.
       seq (acquire LBcache s) (\<lambda>_ s.
       let s = b_upd b (\<lambda>x. x\<lparr>b_refcnt := b_refcnt x - 1\<rparr>) s;
           s = (if b_refcnt (bufs s b) = 0
                then s\<lparr>bufs := link_front b (unlink_buf b (bufs s))\<rparr> else s)
       in release LBcache s)))"

definition bpin :: "nat \<Rightarrow> 'a bio_scheme \<Rightarrow> (unit, 'a bio_scheme) res" where
  "bpin b s =
     seq (acquire LBcache s) (\<lambda>_ s.
     release LBcache (b_upd b (\<lambda>x. x\<lparr>b_refcnt := b_refcnt x + 1\<rparr>) s))"

definition bunpin :: "nat \<Rightarrow> 'a bio_scheme \<Rightarrow> (unit, 'a bio_scheme) res" where
  "bunpin b s =
     seq (acquire LBcache s) (\<lambda>_ s.
     release LBcache (b_upd b (\<lambda>x. x\<lparr>b_refcnt := b_refcnt x - 1\<rparr>) s))"

section \<open>The ring as a list\<close>

fun linked :: "bufmap \<Rightarrow> nat list \<Rightarrow> bool" where
  "linked B (x # y # zs) \<longleftrightarrow> b_next (B x) = y \<and> b_prev (B y) = x \<and> linked B (y # zs)"
| "linked B xs \<longleftrightarrow> True"

definition ring :: "bufmap \<Rightarrow> nat list \<Rightarrow> bool" where
  "ring B xs \<longleftrightarrow> linked B (NBUF # xs @ [NBUF]) \<and> distinct xs \<and> set xs = {0..<NBUF}"

lemma linked_append:
  "linked B (xs @ x # ys) \<longleftrightarrow> linked B (xs @ [x]) \<and> linked B (x # ys)"
proof (induction xs)
  case (Cons a xs)
  then show ?case by (cases xs) auto
qed simp

lemma linked_frame:
  assumes "\<And>x. x \<in> set (butlast xs) \<Longrightarrow> b_next (B' x) = b_next (B x)"
    and "\<And>x. x \<in> set (tl xs) \<Longrightarrow> b_prev (B' x) = b_prev (B x)"
  shows "linked B' xs = linked B xs"
  using assms
proof (induction B xs rule: linked.induct)
  case (1 B x y zs)
  then show ?case by (cases zs) auto
qed simp_all

lemma scan_next_find:
  "linked B (x # xs @ [NBUF]) \<Longrightarrow> NBUF \<notin> set xs \<Longrightarrow> length xs < k \<Longrightarrow>
   scan_next k B (b_next (B x)) P = Some (find (\<lambda>i. P (B i)) xs)"
proof (induction xs arbitrary: x k)
  case Nil
  then show ?case by (cases k) auto
next
  case (Cons y ys)
  obtain j where j: "k = Suc j" "length ys < j" using Cons.prems(3) by (cases k) auto
  have "scan_next j B (b_next (B y)) P = Some (find (\<lambda>i. P (B i)) ys)"
    using Cons.prems j by (intro Cons.IH) auto
  then show ?case using Cons.prems j by auto
qed

lemma scan_prev_find:
  "linked B (NBUF # xs @ [x]) \<Longrightarrow> NBUF \<notin> set xs \<Longrightarrow> length xs < k \<Longrightarrow>
   scan_prev k B (b_prev (B x)) P = Some (find (\<lambda>i. P (B i)) (rev xs))"
proof (induction xs arbitrary: x k rule: rev_induct)
  case Nil
  then show ?case by (cases k) auto
next
  case (snoc y ys)
  obtain j where j: "k = Suc j" "length ys < j" using snoc.prems(3) by (cases k) auto
  have l: "linked B (NBUF # ys @ [y])" "b_prev (B x) = y"
    using snoc.prems(1) linked_append[of B "NBUF # ys" y "[x]"] by auto
  then have "scan_prev j B (b_prev (B y)) P = Some (find (\<lambda>i. P (B i)) (rev ys))"
    using snoc.prems j by (intro snoc.IH) auto
  then show ?case using snoc.prems j l by auto
qed

declare scan_next.simps [simp del] scan_prev.simps [simp del]

lemma length_ring: "ring B xs \<Longrightarrow> length xs = NBUF"
  using distinct_card[of xs] by (simp add: ring_def)

lemma scan_next_ring:
  "ring B xs \<Longrightarrow> scan_next (NBUF + 1) B (b_next (B NBUF)) P = Some (find (\<lambda>i. P (B i)) xs)"
  using length_ring[of B xs] by (intro scan_next_find) (auto simp: ring_def)

lemma scan_prev_ring:
  "ring B xs \<Longrightarrow> scan_prev (NBUF + 1) B (b_prev (B NBUF)) P = Some (find (\<lambda>i. P (B i)) (rev xs))"
  using length_ring[of B xs] by (intro scan_prev_find) (auto simp: ring_def)

lemma ring_cong:
  "(\<And>x. b_next (B' x) = b_next (B x)) \<Longrightarrow> (\<And>x. b_prev (B' x) = b_prev (B x)) \<Longrightarrow> ring B' xs = ring B xs"
  using linked_frame[of "NBUF # xs @ [NBUF]" B' B] by (simp add: ring_def)

lemma linked_link_front:
  assumes "linked B (NBUF # xs @ [NBUF])" "b \<notin> set xs" "b \<noteq> NBUF" "distinct xs" "NBUF \<notin> set xs"
  shows "linked (link_front b B) (NBUF # b # xs @ [NBUF])"
proof (cases xs)
  case Nil
  then show ?thesis using assms by (auto simp: link_front_def set_next_def set_prev_def Let_def)
next
  case (Cons y ys)
  let ?B = "link_front b B"
  have nx: "b_next (B NBUF) = y" using assms(1) Cons by simp
  have y: "y \<noteq> b" "y \<noteq> NBUF" using assms Cons by auto
  have "linked ?B (y # ys @ [NBUF]) = linked B (y # ys @ [NBUF])"
    using assms Cons nx y
    by (intro linked_frame) (auto simp: link_front_def set_next_def set_prev_def Let_def butlast_append)
  then show ?thesis using assms Cons nx y
    by (auto simp: link_front_def set_next_def set_prev_def Let_def)
qed

lemma linked_unlink:
  assumes "linked B (NBUF # as @ b # cs @ [NBUF])" "distinct (NBUF # as @ b # cs)"
  shows "linked (unlink_buf b B) (NBUF # as @ cs @ [NBUF])"
proof -
  have l: "linked B ((NBUF # as) @ [b])" "linked B (b # cs @ [NBUF])"
    using assms(1) linked_append[of B "NBUF # as" b "cs @ [NBUF]"] by simp_all
  obtain ps p where ps: "NBUF # as = ps @ [p]" by (metis append_butlast_last_id list.distinct(1))
  obtain n ns where ns: "cs @ [NBUF] = n # ns" by (cases cs) auto
  have p: "linked B (ps @ [p])" "b_prev (B b) = p"
    using l(1) linked_append[of B ps p "[b]"] unfolding ps by simp_all
  have n: "linked B (n # ns)" "b_next (B b) = n" using l(2) unfolding ns by simp_all
  let ?B = "unlink_buf b B"
  have d1: "distinct (ps @ [p])" "b \<notin> set (ps @ [p])" "NBUF \<notin> set (tl (ps @ [p]))"
      "set (ps @ [p]) \<inter> set cs = {}" "set (tl (ps @ [p])) \<inter> set cs = {}"
    using assms(2) unfolding ps[symmetric] by auto
  have d2: "distinct (n # ns)" "b \<notin> set (n # ns)" "butlast (n # ns) = cs"
    using assms(2) unfolding ns[symmetric] by auto
  have d3: "n \<in> insert NBUF (set cs)" using ns by (cases cs) auto
  have B: "b_next (?B x) = (if x = p then n else b_next (B x))" "b_prev (?B x) = (if x = n then p else b_prev (B x))" for x
    using p(2) n(2) d1(2) d2(2) by (auto simp: unlink_buf_def set_next_def set_prev_def Let_def)
  have "linked ?B (ps @ [p]) = linked B (ps @ [p])"
    using d1 d3 by (intro linked_frame) (auto simp: B)
  moreover have "linked ?B (n # ns) = linked B (n # ns)"
  proof (rule linked_frame)
    show "b_next (?B x) = b_next (B x)" if "x \<in> set (butlast (n # ns))" for x
      using that d1(4) unfolding d2(3) by (auto simp: B)
    show "b_prev (?B x) = b_prev (B x)" if "x \<in> set (tl (n # ns))" for x
      using that d2(1) by (auto simp: B)
  qed
  ultimately have "linked ?B (ps @ p # n # ns)"
    using p n linked_append[of ?B ps p "n # ns"] by (simp add: B)
  then show ?thesis using ps ns by (metis append_Cons append_assoc append_Nil)
qed

lemma ring_move_front:
  assumes "ring B xs" "b < NBUF"
  shows "ring (link_front b (unlink_buf b B)) (b # remove1 b xs)"
proof -
  have b: "b \<in> set xs" using assms by (simp add: ring_def)
  then obtain as cs where xs: "xs = as @ b # cs" "b \<notin> set as" by (metis split_list_first)
  have d: "distinct (NBUF # as @ b # cs)" using assms xs by (auto simp: ring_def)
  have rm: "remove1 b xs = as @ cs" using xs by (simp add: remove1_append)
  have "linked (unlink_buf b B) (NBUF # (as @ cs) @ [NBUF])"
    using linked_unlink[OF _ d] assms(1) xs(1) by (auto simp: ring_def)
  then have "linked (link_front b (unlink_buf b B)) (NBUF # b # (as @ cs) @ [NBUF])"
    using d by (intro linked_link_front) auto
  then show ?thesis unfolding rm using assms(1) xs d by (auto simp: ring_def)
qed

lemma relink_fields [simp]:
  "b_valid (link_front b B x) = b_valid (B x)" "b_dev (link_front b B x) = b_dev (B x)"
  "b_blockno (link_front b B x) = b_blockno (B x)" "b_refcnt (link_front b B x) = b_refcnt (B x)"
  "b_data (link_front b B x) = b_data (B x)"
  "b_valid (unlink_buf b B x) = b_valid (B x)" "b_dev (unlink_buf b B x) = b_dev (B x)"
  "b_blockno (unlink_buf b B x) = b_blockno (B x)" "b_refcnt (unlink_buf b B x) = b_refcnt (B x)"
  "b_data (unlink_buf b B x) = b_data (B x)"
  by (auto simp: link_front_def unlink_buf_def set_next_def set_prev_def Let_def)

section \<open>The cache as a view of the disk\<close>

definition cached :: "bufmap \<Rightarrow> nat \<Rightarrow> nat \<Rightarrow> bool" where
  "cached B bn i \<longleftrightarrow> i < NBUF \<and> b_dev (B i) = ROOTDEV \<and> b_blockno (B i) = bn"

definition bview :: "bufmap \<Rightarrow> (nat \<Rightarrow> byte list) \<Rightarrow> nat \<Rightarrow> byte list" where
  "bview B d bn = (case find (\<lambda>i. cached B bn i \<and> b_valid (B i)) [0..<NBUF] of
     Some i \<Rightarrow> b_data (B i) | None \<Rightarrow> d bn)"

definition view :: "'a bio_scheme \<Rightarrow> nat \<Rightarrow> byte list" where
  "view s = bview (bufs s) (disk s)"

text \<open>
  The cache invariant.  A block has at most one buffer; a buffer that nobody references holds what
  is on disk, so recycling it loses nothing.  The buffers of the initial state have \<open>dev\<close> 0.
\<close>

definition bcache_inv :: "bufmap \<Rightarrow> (nat \<Rightarrow> byte list) \<Rightarrow> bool" where
  "bcache_inv B d \<longleftrightarrow> (\<exists>xs. ring B xs) \<and>
     (\<forall>bn. length (d bn) = BSIZE) \<and>
     (\<forall>i < NBUF. length (b_data (B i)) = BSIZE) \<and>
     (\<forall>i < NBUF. if b_valid (B i) then b_dev (B i) = ROOTDEV else b_dev (B i) = 0) \<and>
     (\<forall>bn i j. cached B bn i \<longrightarrow> cached B bn j \<longrightarrow> i = j) \<and>
     (\<forall>i < NBUF. b_refcnt (B i) = 0 \<longrightarrow> b_valid (B i) \<longrightarrow> b_data (B i) = d (b_blockno (B i)))"

lemma bcache_invD:
  assumes "bcache_inv B d"
  shows "\<exists>xs. ring B xs" "length (d bn) = BSIZE" "i < NBUF \<Longrightarrow> length (b_data (B i)) = BSIZE"
    "i < NBUF \<Longrightarrow> if b_valid (B i) then b_dev (B i) = ROOTDEV else b_dev (B i) = 0"
    "i < NBUF \<Longrightarrow> b_refcnt (B i) = 0 \<Longrightarrow> b_valid (B i) \<Longrightarrow> b_data (B i) = d (b_blockno (B i))"
  using assms unfolding bcache_inv_def by simp_all

lemma cached_unique: "bcache_inv B d \<Longrightarrow> cached B bn i \<Longrightarrow> cached B bn j \<Longrightarrow> i = j"
  unfolding bcache_inv_def by blast

lemma cached_valid: "bcache_inv B d \<Longrightarrow> cached B bn i \<Longrightarrow> b_valid (B i)"
  using bcache_invD(4)[of B d i] by (auto simp: cached_def ROOTDEV_def split: if_splits)

lemma bview_cached:
  assumes "bcache_inv B d" "cached B bn i"
  shows "bview B d bn = b_data (B i)"
proof -
  let ?P = "\<lambda>i. cached B bn i \<and> b_valid (B i)"
  have "find ?P [0..<NBUF] \<noteq> None"
    using assms cached_valid[OF assms] by (auto simp: find_None_iff cached_def)
  then obtain j where j: "find ?P [0..<NBUF] = Some j" by auto
  then have "cached B bn j" by (auto simp: find_Some_iff)
  then have "j = i" using cached_unique[OF assms] by simp
  then show ?thesis using j by (simp add: bview_def)
qed

lemma bview_uncached:
  assumes "\<And>i. \<not> cached B bn i"
  shows "bview B d bn = d bn"
proof -
  have "find (\<lambda>i. cached B bn i \<and> b_valid (B i)) [0..<NBUF] = None"
    using assms by (auto simp: find_None_iff)
  then show ?thesis by (simp add: bview_def)
qed

lemma bview_eqI:
  assumes "bcache_inv B d"
    and "\<And>i. cached B bn i \<Longrightarrow> b_data (B i) = v"
    and "(\<And>i. \<not> cached B bn i) \<Longrightarrow> d bn = v"
  shows "bview B d bn = v"
proof (cases "\<exists>i. cached B bn i")
  case True
  then show ?thesis using bview_cached[OF assms(1)] assms(2) by auto
next
  case False
  then show ?thesis using bview_uncached[of B bn d] assms(3) by auto
qed

lemma length_bview:
  assumes "bcache_inv B d"
  shows "length (bview B d bn) = BSIZE"
proof (cases "\<exists>i. cached B bn i")
  case True
  then show ?thesis using bview_cached[OF assms] bcache_invD(3)[OF assms] by (auto simp: cached_def)
next
  case False
  then have "bview B d bn = d bn" by (intro bview_uncached) blast
  then show ?thesis using bcache_invD(2)[OF assms] by simp
qed

section \<open>What an operation leaves alone\<close>

definition procs_woken :: "proc list \<Rightarrow> proc list \<Rightarrow> bool" where
  "procs_woken ps qs \<longleftrightarrow> length qs = length ps \<and>
     (\<forall>i < length ps. qs ! i = ps ! i \<or> p_state (ps ! i) = SLEEPING \<and> qs ! i = (ps ! i)\<lparr>p_state := RUNNABLE\<rparr>)"

lemma procs_woken_refl [simp]: "procs_woken ps ps"
  by (simp add: procs_woken_def)

lemma procs_woken_woken [simp]: "procs_woken ps (woken ch me ps)"
  by (simp add: procs_woken_def wake1_def)

lemma procs_woken_trans: "procs_woken ps qs \<Longrightarrow> procs_woken qs rs \<Longrightarrow> procs_woken ps rs"
proof -
  assume a: "procs_woken ps qs" "procs_woken qs rs"
  have "rs ! i = ps ! i \<or> p_state (ps ! i) = SLEEPING \<and> rs ! i = (ps ! i)\<lparr>p_state := RUNNABLE\<rparr>"
    if "i < length ps" for i
  proof (cases "qs ! i = ps ! i")
    case False
    then have "qs ! i = (ps ! i)\<lparr>p_state := RUNNABLE\<rparr>" "p_state (ps ! i) = SLEEPING" "i < length qs"
      using a(1) that by (auto simp: procs_woken_def)
    then show ?thesis using a(2) by (auto simp: procs_woken_def)
  qed (use a that in \<open>auto simp: procs_woken_def\<close>)
  then show ?thesis using a by (simp add: procs_woken_def)
qed

lemma procs_woken_fields:
  assumes "procs_woken ps qs" "i < length ps"
  shows "p_pid (qs ! i) = p_pid (ps ! i)" "p_killed (qs ! i) = p_killed (ps ! i)"
    "p_cwd (qs ! i) = p_cwd (ps ! i)" "p_ofile (qs ! i) = p_ofile (ps ! i)"
    "p_pagetable (qs ! i) = p_pagetable (ps ! i)" "p_sz (qs ! i) = p_sz (ps ! i)"
    "p_trapframe (qs ! i) = p_trapframe (ps ! i)"
  using assms by (auto simp: procs_woken_def)

definition base_rest where
  "base_rest s = (nextpid s, initproc s, tframes s, kend s, etext s, trampoline s, uservec_off s,
     forkret_addr s, usertrap_addr s, kernelvec_addr s)"

definition bio_rest where
  "bio_rest s = (base_rest s, ram s, freelist s, kernel_pagetable s, bio.more s)"

lemma rest_simps [simp]:
  "base_rest (s\<lparr>mach := m\<rparr>) = base_rest s" "base_rest (s\<lparr>slocks := l\<rparr>) = base_rest s"
  "base_rest (s\<lparr>procs := ps\<rparr>) = base_rest s"
  "base_rest (t\<lparr>bufs := B\<rparr>) = base_rest t" "base_rest (t\<lparr>disk := d\<rparr>) = base_rest t"
  "base_rest (t\<lparr>dlog := w\<rparr>) = base_rest t"
  by (simp_all add: base_rest_def)

definition bio_frame :: "'a bio_scheme \<Rightarrow> 'a bio_scheme \<Rightarrow> bool" where
  "bio_frame s t \<longleftrightarrow> norm (mach t) = norm (mach s) \<and> procs_woken (procs s) (procs t) \<and>
     (\<forall>i. slocks t (SInode i) = slocks s (SInode i)) \<and> bio_rest t = bio_rest s"

lemma bio_frame_refl [simp]: "bio_frame s s"
  by (simp add: bio_frame_def)

lemma bio_frame_trans [trans]: "bio_frame s t \<Longrightarrow> bio_frame t u \<Longrightarrow> bio_frame s u"
  unfolding bio_frame_def using procs_woken_trans by metis

lemma norm_myproc: "norm (mach t) = norm (mach s) \<Longrightarrow> myproc t = myproc s"
  unfolding myproc_def by (metis norm_fields(5))

lemma norm_quiet: "norm m = norm m' \<Longrightarrow> quiet m = quiet m'"
  by (metis quiet_norm)

section \<open>The state contract\<close>

text \<open>
  Blocks in \<open>P\<close> are pinned in the cache; \<open>H\<close> maps the blocks held locked to their buffers.  The
  reference count of a buffer is the number of these two that apply.
\<close>

definition refs :: "nat set \<Rightarrow> (nat \<rightharpoonup> nat) \<Rightarrow> bufmap \<Rightarrow> nat \<Rightarrow> nat" where
  "refs P H B i = (if b_dev (B i) = ROOTDEV \<and> b_blockno (B i) \<in> P then 1 else 0) +
     (if H (b_blockno (B i)) = Some i then 1 else 0)"

definition cache_ok :: "nat set \<Rightarrow> (nat \<rightharpoonup> nat) \<Rightarrow> bufmap \<Rightarrow> (nat \<Rightarrow> byte list) \<Rightarrow> bool" where
  "cache_ok P H B d \<longleftrightarrow> bcache_inv B d \<and> finite P \<and>
     (\<forall>i < NBUF. unat (b_refcnt (B i)) = refs P H B i) \<and>
     (\<forall>bn \<in> P. \<exists>i. cached B bn i) \<and>
     (\<forall>bn i. H bn = Some i \<longrightarrow> cached B bn i)"

lemma cache_okD:
  assumes "cache_ok P H B d"
  shows "bcache_inv B d" "finite P" "i < NBUF \<Longrightarrow> unat (b_refcnt (B i)) = refs P H B i"
    "bn \<in> P \<Longrightarrow> \<exists>i. cached B bn i" "H bn = Some i \<Longrightarrow> cached B bn i"
  using assms unfolding cache_ok_def by simp_all

lemma finite_dom_held:
  assumes "cache_ok P H B d"
  shows "finite (dom H)"
proof -
  have "dom H \<subseteq> (\<lambda>i. b_blockno (B i)) ` {..<NBUF}"
  proof
    fix bn assume "bn \<in> dom H"
    then obtain i where "H bn = Some i" by auto
    then have "cached B bn i" by (rule cache_okD(5)[OF assms])
    then show "bn \<in> (\<lambda>i. b_blockno (B i)) ` {..<NBUF}" by (auto simp: cached_def)
  qed
  then show ?thesis by (rule finite_subset) simp
qed

text \<open>Fewer referenced blocks than buffers leave a buffer to recycle.\<close>

lemma unreferenced_exists:
  assumes "cache_ok P H B d" "card (P \<union> dom H) < NBUF"
  shows "\<exists>i < NBUF. b_refcnt (B i) = 0"
proof (rule ccontr)
  assume "\<not> ?thesis"
  then have nz: "unat (b_refcnt (B i)) \<noteq> 0" if "i < NBUF" for i
    using that by (simp add: unat_eq_zero)
  have pos: "refs P H B i \<noteq> 0" if "i < NBUF" for i
    using nz[OF that] cache_okD(3)[OF assms(1) that] by simp
  have c: "cached B (b_blockno (B i)) i" if "i < NBUF" for i
  proof -
    have "b_dev (B i) = ROOTDEV \<or> H (b_blockno (B i)) = Some i"
      using pos[OF that] by (auto simp: refs_def split: if_splits)
    then show ?thesis using that cache_okD(5)[OF assms(1), of _ i] by (auto simp: cached_def)
  qed
  have "b_blockno (B i) \<in> P \<union> dom H" if "i < NBUF" for i
    using pos[OF that] by (auto simp: refs_def split: if_splits)
  moreover have "inj_on (\<lambda>i. b_blockno (B i)) {..<NBUF}"
  proof (rule inj_onI)
    fix i j assume "i \<in> {..<NBUF}" "j \<in> {..<NBUF}" "b_blockno (B i) = b_blockno (B j)"
    then show "i = j" using c[of i] c[of j] cached_unique[OF cache_okD(1)[OF assms(1)]] by simp
  qed
  ultimately have "card {..<NBUF} \<le> card (P \<union> dom H)"
    using finite_dom_held[OF assms(1)] cache_okD(2)[OF assms(1)]
    by (intro card_inj_on_le[of "\<lambda>i. b_blockno (B i)"]) auto
  then show False using assms(2) by simp
qed

text \<open>
  Every operation changes one buffer \<open>i\<close>, and the pins, locks and disk content of that buffer's
  block only.  When the buffer changes its block, nobody may reference the old one.
\<close>

lemma cached_upd:
  "cached (B(i := x)) bn j \<longleftrightarrow>
     (if j = i then i < NBUF \<and> b_dev x = ROOTDEV \<and> b_blockno x = bn else cached B bn j)"
  by (simp add: cached_def)

lemma bcache_inv_upd:
  assumes "bcache_inv B d" "i < NBUF" "b_next x = b_next (B i)" "b_prev x = b_prev (B i)"
    and "length (b_data x) = BSIZE" "b_dev x = ROOTDEV" "b_valid x"
    and "\<And>j. cached B (b_blockno x) j \<Longrightarrow> j = i"
    and "b_refcnt x = 0 \<Longrightarrow> b_data x = d' (b_blockno x)"
    and "\<And>bn. length (d' bn) = BSIZE" "\<And>bn. bn \<noteq> b_blockno x \<Longrightarrow> d' bn = d bn"
  shows "bcache_inv (B(i := x)) d'"
proof -
  obtain xs where "ring B xs" using bcache_invD(1)[OF assms(1)] by blast
  then have ring: "ring (B(i := x)) xs" using ring_cong[of "B(i := x)" B xs] assms(3,4) by simp
  have new: "cached B bn j \<or> j = i \<and> b_blockno x = bn" "j \<noteq> i \<Longrightarrow> cached B bn j"
    if "cached (B(i := x)) bn j" for bn j
    using that by (simp_all add: cached_upd split: if_splits)
  have uniq: "p = q" if "cached (B(i := x)) bn p" "cached (B(i := x)) bn q" for bn p q
    using new[OF that(1)] new[OF that(2)] assms(8) cached_unique[OF assms(1)] by metis
  have clean: "b_data ((B(i := x)) j) = d' (b_blockno ((B(i := x)) j))"
    if h: "j < NBUF" "b_refcnt ((B(i := x)) j) = 0" "b_valid ((B(i := x)) j)" for j
  proof (cases "j = i")
    case True
    then show ?thesis using h assms(9) by simp
  next
    case False
    then have "b_dev (B j) = ROOTDEV" using h bcache_invD(4)[OF assms(1) h(1)] by simp
    then have "b_blockno (B j) \<noteq> b_blockno x" using False assms(8)[of j] h(1) by (auto simp: cached_def)
    then show ?thesis using False h assms(11) bcache_invD(5)[OF assms(1), of j] by simp
  qed
  show ?thesis
    unfolding bcache_inv_def
  proof (intro conjI allI impI)
    show "if b_valid ((B(i := x)) j) then b_dev ((B(i := x)) j) = ROOTDEV else b_dev ((B(i := x)) j) = 0"
      if "j < NBUF" for j
      using that assms(6,7) bcache_invD(4)[OF assms(1), of j] by simp
  qed (use ring uniq clean assms(5,10) bcache_invD(3)[OF assms(1)] in \<open>auto\<close>)
qed

lemma unreferenced_refs:
  assumes "cache_ok P H B d" "i < NBUF" "b_refcnt (B i) = 0"
  shows "b_dev (B i) = ROOTDEV \<Longrightarrow> b_blockno (B i) \<notin> P" "H (b_blockno (B i)) \<noteq> Some i"
    "b_dev (B i) = ROOTDEV \<Longrightarrow> H (b_blockno (B i)) = None"
proof -
  have 0: "refs P H B i = 0" using cache_okD(3)[OF assms(1,2)] assms(3) by simp
  then show "b_dev (B i) = ROOTDEV \<Longrightarrow> b_blockno (B i) \<notin> P" and H: "H (b_blockno (B i)) \<noteq> Some i"
    by (auto simp: refs_def split: if_splits)
  assume r: "b_dev (B i) = ROOTDEV"
  show "H (b_blockno (B i)) = None"
  proof (cases "H (b_blockno (B i))")
    case (Some j)
    then have "j = i"
      using cached_unique[OF cache_okD(1)[OF assms(1)] cache_okD(5)[OF assms(1) Some]] r assms(2)
      by (simp add: cached_def)
    then show ?thesis using H Some by simp
  qed
qed

lemma cache_ok_upd:
  assumes "cache_ok P H B d" "i < NBUF" "b_next x = b_next (B i)" "b_prev x = b_prev (B i)"
    and "length (b_data x) = BSIZE" "b_dev x = ROOTDEV" "b_valid x"
    and uniq: "\<And>j. cached B (b_blockno x) j \<Longrightarrow> j = i"
    and clean: "b_refcnt x = 0 \<Longrightarrow> b_data x = d' (b_blockno x)"
    and dsk: "\<And>bn. length (d' bn) = BSIZE" "\<And>bn. bn \<noteq> b_blockno x \<Longrightarrow> d' bn = d bn"
    and old: "b_blockno (B i) \<noteq> b_blockno x \<or> b_dev (B i) \<noteq> ROOTDEV \<Longrightarrow> b_refcnt (B i) = 0"
    and cnt: "unat (b_refcnt x) = (if b_blockno x \<in> P' then 1 else 0) + (if H' (b_blockno x) = Some i then 1 else 0)"
    and P': "finite P'" "\<And>bn. bn \<noteq> b_blockno x \<Longrightarrow> bn \<in> P' \<longleftrightarrow> bn \<in> P"
    and H': "\<And>bn. bn \<noteq> b_blockno x \<Longrightarrow> H' bn = H bn" "H' (b_blockno x) = None \<or> H' (b_blockno x) = Some i"
  shows "cache_ok P' H' (B(i := x)) d'"
    and "bview (B(i := x)) d' = (bview B d)(b_blockno x := b_data x)"
proof -
  note inv = cache_okD(1)[OF assms(1)]
  let ?B = "B(i := x)"
  have inv': "bcache_inv ?B d'"
    using assms(2-7) uniq clean dsk by (intro bcache_inv_upd[OF inv]) auto
  have ne: "j \<noteq> i" if "cached B bn j" "bn \<noteq> b_blockno x" "bn \<in> P \<or> H bn = Some j" for bn j
  proof
    assume "j = i"
    then have "b_blockno (B i) = bn" "b_dev (B i) = ROOTDEV" "b_refcnt (B i) = 0"
      using that old by (auto simp: cached_def)
    then show False using unreferenced_refs[OF assms(1,2)] that(3) \<open>j = i\<close> by auto
  qed
  have r: "unat (b_refcnt (?B j)) = refs P' H' ?B j" if j: "j < NBUF" for j
  proof (cases "j = i")
    case True
    then show ?thesis using cnt assms(6) by (simp add: refs_def)
  next
    case False
    have "refs P' H' B j = refs P H B j"
    proof (cases "b_blockno (B j) = b_blockno x")
      case True
      then have dev: "b_dev (B j) \<noteq> ROOTDEV" using uniq[of j] False j by (auto simp: cached_def)
      then have "H (b_blockno (B j)) \<noteq> Some j" using cache_okD(5)[OF assms(1)] by (auto simp: cached_def)
      then show ?thesis using dev True False H'(2) by (auto simp: refs_def)
    next
      case False
      then show ?thesis using P'(2) H'(1) by (simp add: refs_def)
    qed
    then show ?thesis using False cache_okD(3)[OF assms(1) j] by (simp add: refs_def)
  qed
  have p: "\<exists>j. cached ?B bn j" if "bn \<in> P'" for bn
  proof (cases "bn = b_blockno x")
    case True
    then show ?thesis using assms(2,6) by (auto simp: cached_upd)
  next
    case False
    then have "bn \<in> P" using that P'(2) by simp
    then obtain j where "cached B bn j" using cache_okD(4)[OF assms(1)] by blast
    then show ?thesis using ne[of bn j] False \<open>bn \<in> P\<close> by (auto simp: cached_upd)
  qed
  have h: "cached ?B bn j" if "H' bn = Some j" for bn j
  proof (cases "bn = b_blockno x")
    case True
    then show ?thesis using that H'(2) assms(2,6) by (auto simp: cached_upd)
  next
    case False
    then have "H bn = Some j" using that H'(1) by simp
    then show ?thesis using ne[of bn j] cache_okD(5)[OF assms(1)] False by (auto simp: cached_upd)
  qed
  show "cache_ok P' H' ?B d'"
    unfolding cache_ok_def
    by (intro conjI allI ballI impI) (fact inv' P'(1), fact P'(1), erule r, erule p, erule h)
  show "bview ?B d' = (bview B d)(b_blockno x := b_data x)"
  proof
    fix bn
    show "bview ?B d' bn = ((bview B d)(b_blockno x := b_data x)) bn"
    proof (cases "bn = b_blockno x")
      case True
      then show ?thesis using bview_cached[OF inv', of bn i] assms(2,6) by (simp add: cached_upd)
    next
      case False
      show ?thesis
      proof (cases "\<exists>j. cached ?B bn j")
        case True
        then obtain j where j: "cached ?B bn j" by blast
        then have "j \<noteq> i" "cached B bn j" using False by (auto simp: cached_upd split: if_splits)
        then show ?thesis using bview_cached[OF inv' j] bview_cached[OF inv, of bn j] False by simp
      next
        case none: False
        then have v: "bview ?B d' bn = d bn" using bview_uncached[of ?B bn d'] dsk(2) False by simp
        show ?thesis
        proof (cases "cached B bn i")
          case True
          then have "b_refcnt (B i) = 0" using old False by (auto simp: cached_def)
          then show ?thesis
            using v False bview_cached[OF inv True] bcache_invD(5)[OF inv assms(2)] cached_valid[OF inv True] True
            by (simp add: cached_def)
        next
          case ni: False
          then have "\<not> cached B bn j" for j using none by (metis cached_upd)
          then show ?thesis using v False bview_uncached[of B bn d] by simp
        qed
      qed
    qed
  qed
qed

lemma unat_inc: "unat (x :: uint) < 2 ^ 32 - 1 \<Longrightarrow> unat (x + 1) = Suc (unat x)"
  by (simp add: unat_word_ariths)

lemma unat_dec: "unat (x :: uint) = Suc n \<Longrightarrow> unat (x - 1) = n"
  by (metis diff_Suc_1 nat.distinct(1) unat_0 unat_minus_one)

definition bio_ok :: "nat set \<Rightarrow> (nat \<rightharpoonup> nat) \<Rightarrow> 'a bio_scheme \<Rightarrow> bool" where
  "bio_ok P H s \<longleftrightarrow> cache_ok P H (bufs s) (disk s) \<and> quiet (mach s) \<and> length (procs s) = NPROC \<and>
     (\<exists>p. myproc s = Some p \<and> p < NPROC \<and>
        (\<forall>bn i. H bn = Some i \<longrightarrow> sl_pid (slocks s (SBuf i)) = p_pid (procs s ! p))) \<and>
     (\<forall>i < NBUF. sl_locked (slocks s (SBuf i)) \<longleftrightarrow> H (b_blockno (bufs s i)) = Some i)"

lemma bio_okD:
  assumes "bio_ok P H s"
  shows "cache_ok P H (bufs s) (disk s)" "quiet (mach s)" "length (procs s) = NPROC"
    "mach_ok (mach s)" "lock_free l (mach s)" "proclocks_free (mach s)"
    "i < NBUF \<Longrightarrow> sl_locked (slocks s (SBuf i)) \<longleftrightarrow> H (b_blockno (bufs s i)) = Some i"
    "\<exists>p. myproc s = Some p \<and> p < NPROC \<and>
      (\<forall>bn i. H bn = Some i \<longrightarrow> sl_pid (slocks s (SBuf i)) = p_pid (procs s ! p))"
  using assms unfolding bio_ok_def by (simp_all add: quiet_proclocks) (simp_all add: quiet_def)

text \<open>Locking the buffer just looked up.\<close>

definition take_buf :: "nat \<Rightarrow> buf \<Rightarrow> nat \<Rightarrow> 'a bio_scheme \<Rightarrow> 'a bio_scheme" where
  "take_buf i x p s = s\<lparr>mach := norm (mach s), bufs := (bufs s)(i := x),
     slocks := (slocks s)(SBuf i := (slocks s (SBuf i))\<lparr>sl_locked := True, sl_pid := p_pid (procs s ! p)\<rparr>)\<rparr>"

lemma bget_hit:
  assumes "bio_ok P H s" "cached (bufs s) bn i" "H bn = None" "myproc s = Some p"
  shows "bget ROOTDEV bn s = Ok i (take_buf i ((bufs s i)\<lparr>b_refcnt := b_refcnt (bufs s i) + 1\<rparr>) p s)"
proof -
  note inv = cache_okD(1)[OF bio_okD(1)[OF assms(1)]]
  let ?s = "s\<lparr>mach := entered LBcache (mach s)\<rparr>"
  obtain xs where ring: "ring (bufs s) xs" using bcache_invD(1)[OF inv] by blast
  have i: "i \<in> set xs" "i < NBUF" "b_blockno (bufs s i) = bn"
    using assms(2) ring by (auto simp: cached_def ring_def)
  let ?P = "\<lambda>i. b_dev (bufs s i) = ROOTDEV \<and> b_blockno (bufs s i) = bn"
  have "find ?P xs \<noteq> None" using i assms(2) by (auto simp: find_None_iff cached_def)
  then obtain j where j: "find ?P xs = Some j" by auto
  then have "cached (bufs s) bn j" using ring by (auto simp: find_Some_iff cached_def ring_def)
  then have "find ?P xs = Some i" using j cached_unique[OF inv _ assms(2)] by simp
  then have scan: "scan_next (Suc NBUF) (bufs s) (b_next (bufs s NBUF))
      (\<lambda>b. b_dev b = ROOTDEV \<and> b_blockno b = bn) = Some (Some i)"
    using scan_next_ring[OF ring] by simp
  have free: "\<not> sl_locked (slocks s (SBuf i))" using bio_okD(7)[OF assms(1) i(2)] i(3) assms(3) by simp
  have me: "c_proc (mycpu (mach s)) = Some p" using assms(4) by (simp add: myproc_def)
  show ?thesis
    using bio_okD(4,5)[OF assms(1)] free me
    by (simp add: bget_def acquire_free scan Let_def b_upd_def release_entered acquiresleep_free
        take_buf_def)
qed

lemma bget_miss:
  assumes "bio_ok P H s" "ring (bufs s) xs" "\<And>i. \<not> cached (bufs s) bn i" "card (P \<union> dom H) < NBUF"
    "myproc s = Some p"
  shows "\<exists>i < NBUF. find (\<lambda>i. b_refcnt (bufs s i) = 0) (rev xs) = Some i \<and> b_refcnt (bufs s i) = 0 \<and>
    bget ROOTDEV bn s = Ok i (take_buf i
      ((bufs s i)\<lparr>b_dev := ROOTDEV, b_blockno := bn, b_valid := False, b_refcnt := 1\<rparr>) p s)"
proof -
  note ok = bio_okD(1)[OF assms(1)] and inv = cache_okD(1)[OF bio_okD(1)[OF assms(1)]] and ring = assms(2)
  have "find (\<lambda>i. b_dev (bufs s i) = ROOTDEV \<and> b_blockno (bufs s i) = bn) xs = None"
    using assms(3) ring by (auto simp: find_None_iff cached_def ring_def)
  then have scan: "scan_next (Suc NBUF) (bufs s) (b_next (bufs s NBUF))
      (\<lambda>b. b_dev b = ROOTDEV \<and> b_blockno b = bn) = Some None"
    using scan_next_ring[OF ring] by simp
  obtain k where "k < NBUF" "b_refcnt (bufs s k) = 0" using unreferenced_exists[OF ok assms(4)] by blast
  then have "find (\<lambda>i. b_refcnt (bufs s i) = 0) (rev xs) \<noteq> None"
    using ring by (auto simp: find_None_iff ring_def)
  then obtain i where f: "find (\<lambda>i. b_refcnt (bufs s i) = 0) (rev xs) = Some i" by auto
  then have i: "i < NBUF" "b_refcnt (bufs s i) = 0"
    using ring by (auto simp: find_Some_iff ring_def) (metis atLeastLessThan_iff length_rev nth_mem set_rev)
  have scan2: "scan_prev (Suc NBUF) (bufs s) (b_prev (bufs s NBUF)) (\<lambda>b. b_refcnt b = 0) = Some (Some i)"
    using scan_prev_ring[OF ring] f by simp
  have free: "\<not> sl_locked (slocks s (SBuf i))"
    using bio_okD(7)[OF assms(1) i(1)] unreferenced_refs(2)[OF ok i] by simp
  have me: "c_proc (mycpu (mach s)) = Some p" using assms(5) by (simp add: myproc_def)
  have "bget ROOTDEV bn s = Ok i (take_buf i
    ((bufs s i)\<lparr>b_dev := ROOTDEV, b_blockno := bn, b_valid := False, b_refcnt := 1\<rparr>) p s)"
    using bio_okD(4,5)[OF assms(1)] free me
    by (simp add: bget_def acquire_free scan scan2 Let_def b_upd_def release_entered acquiresleep_free
        take_buf_def)
  then show ?thesis using i f by blast
qed

lemma bio_ok_take:
  assumes "bio_ok P H s" "myproc s = Some p" "H bn = None" "i < NBUF" "b_blockno x = bn"
    "cache_ok P (H(bn \<mapsto> i)) ((bufs s)(i := x)) (disk s)"
    "b_blockno (bufs s i) = bn \<or> b_refcnt (bufs s i) = 0"
  shows "bio_ok P (H(bn \<mapsto> i)) (take_buf i x p s)" "bio_frame s (take_buf i x p s)"
proof -
  obtain q where q: "myproc s = Some q" "q < NPROC"
    "\<forall>bn i. H bn = Some i \<longrightarrow> sl_pid (slocks s (SBuf i)) = p_pid (procs s ! q)"
    using bio_okD(8)[OF assms(1)] by blast
  have l: "sl_locked (slocks (take_buf i x p s) (SBuf j)) \<longleftrightarrow>
      (H(bn \<mapsto> i)) (b_blockno (((bufs s)(i := x)) j)) = Some j" if j: "j < NBUF" for j
  proof (cases "j = i")
    case True
    then show ?thesis using assms(5) by (simp add: take_buf_def)
  next
    case False
    have "sl_locked (slocks s (SBuf j)) \<longleftrightarrow> H (b_blockno (bufs s j)) = Some j"
      by (rule bio_okD(7)[OF assms(1) j])
    then show ?thesis using False assms(3) by (auto simp: take_buf_def)
  qed
  have pid: "sl_pid (slocks (take_buf i x p s) (SBuf j)) = p_pid (procs s ! q)"
    if "(H(bn \<mapsto> i)) b = Some j" for b j
    using that q assms(2) by (auto simp: take_buf_def split: if_splits)
  have "myproc (take_buf i x p s) = Some q" using q(1) by (simp add: take_buf_def myproc_def)
  then show "bio_ok P (H(bn \<mapsto> i)) (take_buf i x p s)"
    unfolding bio_ok_def using assms(6) bio_okD(2,3)[OF assms(1)] q(2) l pid
    by (auto simp: take_buf_def)
  show "bio_frame s (take_buf i x p s)"
    by (simp add: bio_frame_def take_buf_def bio_rest_def)
qed

lemma bread_law:
  assumes "bio_ok P H s" "H bn = None" "bn \<in> P \<or> card (P \<union> dom H) < NBUF"
  shows "\<exists>i s'. bread ROOTDEV bn s = Ok i s' \<and> bio_ok P (H(bn \<mapsto> i)) s' \<and>
    b_data (bufs s' i) = view s bn \<and> view s' = view s \<and> disk s' = disk s \<and> dlog s' = dlog s \<and>
    bio_frame s s'"
proof -
  note ok = bio_okD(1)[OF assms(1)] and inv = cache_okD(1)[OF bio_okD(1)[OF assms(1)]]
  obtain p where me: "myproc s = Some p" using bio_okD(8)[OF assms(1)] by blast
  show ?thesis
  proof (cases "\<exists>i. cached (bufs s) bn i")
    case True
    then obtain i where c: "cached (bufs s) bn i" by blast
    let ?x = "(bufs s i)\<lparr>b_refcnt := b_refcnt (bufs s i) + 1\<rparr>"
    have i: "i < NBUF" "b_blockno (bufs s i) = bn" "b_dev (bufs s i) = ROOTDEV" using c by (auto simp: cached_def)
    have r: "unat (b_refcnt (bufs s i)) = (if bn \<in> P then 1 else 0)"
      using cache_okD(3)[OF ok i(1)] i assms(2) by (simp add: refs_def)
    then have u: "unat (b_refcnt (bufs s i) + 1) = Suc (if bn \<in> P then 1 else 0)"
      using unat_inc[of "b_refcnt (bufs s i)"] by (simp split: if_splits)
    then have nz: "b_refcnt (bufs s i) + 1 \<noteq> 0" by (metis nat.distinct(1) unat_0)
    have upd: "cache_ok P (H(bn \<mapsto> i)) ((bufs s)(i := ?x)) (disk s)"
      "bview ((bufs s)(i := ?x)) (disk s) = (bview (bufs s) (disk s))(bn := b_data (bufs s i))"
      using cache_ok_upd[OF ok i(1), of ?x "disk s" P "H(bn \<mapsto> i)"] i r u nz cached_valid[OF inv c]
        cached_unique[OF inv _ c] bcache_invD(2,3)[OF inv] cache_okD(2)[OF ok]
      by (auto split: if_splits)
    have v: "bview (bufs s) (disk s) bn = b_data (bufs s i)" by (rule bview_cached[OF inv c])
    have "bread ROOTDEV bn s = Ok i (take_buf i ?x p s)"
      using bget_hit[OF assms(1) c assms(2) me] cached_valid[OF inv c] by (simp add: bread_def take_buf_def)
    moreover have "view (take_buf i ?x p s) = view s"
      using upd(2) v by (simp add: view_def take_buf_def fun_upd_idem)
    ultimately show ?thesis
      using bio_ok_take[OF assms(1) me assms(2) i(1) _ upd(1)] i v by (auto simp: take_buf_def view_def)
  next
    case False
    then have nc: "\<not> cached (bufs s) bn i" for i by blast
    have "card (P \<union> dom H) < NBUF" using assms(3) cache_okD(4)[OF ok] nc by blast
    moreover obtain xs where "ring (bufs s) xs" using bcache_invD(1)[OF inv] by blast
    ultimately obtain i where i: "i < NBUF" "b_refcnt (bufs s i) = 0" and g: "bget ROOTDEV bn s = Ok i (take_buf i
        ((bufs s i)\<lparr>b_dev := ROOTDEV, b_blockno := bn, b_valid := False, b_refcnt := 1\<rparr>) p s)"
      using bget_miss[OF assms(1) _ nc _ me] by blast
    let ?x = "(bufs s i)\<lparr>b_dev := ROOTDEV, b_blockno := bn, b_refcnt := 1, b_data := disk s bn, b_valid := True\<rparr>"
    have nP: "bn \<notin> P" using cache_okD(4)[OF ok] nc by blast
    have upd: "cache_ok P (H(bn \<mapsto> i)) ((bufs s)(i := ?x)) (disk s)"
      "bview ((bufs s)(i := ?x)) (disk s) = (bview (bufs s) (disk s))(bn := disk s bn)"
      using cache_ok_upd[OF ok i(1), of ?x "disk s" P "H(bn \<mapsto> i)"] i nP nc
        bcache_invD(2,3)[OF inv] cache_okD(2)[OF ok]
      by auto
    have v: "bview (bufs s) (disk s) bn = disk s bn" using nc by (rule bview_uncached)
    have "bread ROOTDEV bn s = Ok i (take_buf i ?x p s)"
      using g by (simp add: bread_def take_buf_def disk_rw_def b_upd_def Let_def)
    moreover have "view (take_buf i ?x p s) = view s"
      using upd(2) v by (simp add: view_def take_buf_def fun_upd_idem)
    ultimately show ?thesis
      using bio_ok_take[OF assms(1) me assms(2) i(1) _ upd(1)] i v by (auto simp: take_buf_def view_def)
  qed
qed

text \<open>A held buffer: its place in the cache, its lock and its reference count.\<close>

lemma held_buf:
  assumes "bio_ok P H s" "H bn = Some i"
  shows "cached (bufs s) bn i" "i < NBUF" "b_blockno (bufs s i) = bn" "b_dev (bufs s i) = ROOTDEV"
    "b_valid (bufs s i)" "unat (b_refcnt (bufs s i)) = Suc (if bn \<in> P then 1 else 0)"
    "view s bn = b_data (bufs s i)" "length (b_data (bufs s i)) = BSIZE"
    "\<And>j. cached (bufs s) bn j \<Longrightarrow> j = i"
proof -
  note ok = bio_okD(1)[OF assms(1)] and inv = cache_okD(1)[OF bio_okD(1)[OF assms(1)]]
  show c: "cached (bufs s) bn i" by (rule cache_okD(5)[OF ok assms(2)])
  then show i: "i < NBUF" "b_blockno (bufs s i) = bn" "b_dev (bufs s i) = ROOTDEV" by (auto simp: cached_def)
  show "b_valid (bufs s i)" by (rule cached_valid[OF inv c])
  show "unat (b_refcnt (bufs s i)) = Suc (if bn \<in> P then 1 else 0)"
    using cache_okD(3)[OF ok i(1)] i assms(2) by (simp add: refs_def)
  show "view s bn = b_data (bufs s i)" unfolding view_def by (rule bview_cached[OF inv c])
  show "length (b_data (bufs s i)) = BSIZE" by (rule bcache_invD(3)[OF inv i(1)])
  show "j = i" if "cached (bufs s) bn j" for j by (rule cached_unique[OF inv that c])
qed

text \<open>Changing the buffer of a held block, keeping it held; the locks do not move.\<close>

lemma held_upd:
  assumes "bio_ok P H s" "H bn = Some i" "b_next x = b_next (bufs s i)" "b_prev x = b_prev (bufs s i)"
    and "b_dev x = ROOTDEV" "b_valid x" "b_blockno x = bn" "length (b_data x) = BSIZE"
    and "unat (b_refcnt x) = Suc (if bn \<in> P' then 1 else 0)"
    and "\<And>b. length (d' b) = BSIZE" "\<And>b. b \<noteq> bn \<Longrightarrow> d' b = disk s b"
    and "finite P'" "\<And>b. b \<noteq> bn \<Longrightarrow> b \<in> P' \<longleftrightarrow> b \<in> P" "norm m = norm (mach s)"
  shows "bio_ok P' H (s\<lparr>mach := m, bufs := (bufs s)(i := x), disk := d', dlog := w\<rparr>)"
    "view (s\<lparr>mach := m, bufs := (bufs s)(i := x), disk := d', dlog := w\<rparr>) = (view s)(bn := b_data x)"
    "bio_frame s (s\<lparr>mach := m, bufs := (bufs s)(i := x), disk := d', dlog := w\<rparr>)"
proof -
  note ok = bio_okD(1)[OF assms(1)] and h = held_buf[OF assms(1,2)]
  have nz: "b_refcnt x \<noteq> 0" using assms(9) by (metis nat.distinct(1) unat_0)
  have uniq: "\<And>j. cached (bufs s) (b_blockno x) j \<Longrightarrow> j = i" using h(9) assms(7) by simp
  have clean: "b_refcnt x = 0 \<Longrightarrow> b_data x = d' (b_blockno x)" using nz by simp
  have dsk: "\<And>b. b \<noteq> b_blockno x \<Longrightarrow> d' b = disk s b" using assms(7,11) by simp
  have old: "b_blockno (bufs s i) \<noteq> b_blockno x \<or> b_dev (bufs s i) \<noteq> ROOTDEV \<Longrightarrow> b_refcnt (bufs s i) = 0"
    using h(3,4) assms(7) by simp
  have cnt: "unat (b_refcnt x) = (if b_blockno x \<in> P' then 1 else 0) + (if H (b_blockno x) = Some i then 1 else 0)"
    using assms(2,7,9) by simp
  have pin: "\<And>b. b \<noteq> b_blockno x \<Longrightarrow> b \<in> P' \<longleftrightarrow> b \<in> P" using assms(7,13) by simp
  have hld: "H (b_blockno x) = None \<or> H (b_blockno x) = Some i" using assms(2,7) by simp
  note upd = cache_ok_upd[OF ok h(2) assms(3,4,8,5,6) uniq clean assms(10) dsk old cnt assms(12) pin refl hld,
      unfolded assms(7)]
  obtain p where p: "myproc s = Some p" "p < NPROC"
    "\<forall>bn i. H bn = Some i \<longrightarrow> sl_pid (slocks s (SBuf i)) = p_pid (procs s ! p)"
    using bio_okD(8)[OF assms(1)] by blast
  let ?t = "s\<lparr>mach := m, bufs := (bufs s)(i := x), disk := d', dlog := w\<rparr>"
  have me: "myproc ?t = Some p" using p(1) norm_myproc[of ?t s] assms(14) by simp
  have q: "quiet m" using bio_okD(2)[OF assms(1)] norm_quiet[OF assms(14)] by simp
  have l: "sl_locked (slocks s (SBuf j)) \<longleftrightarrow> H (b_blockno (((bufs s)(i := x)) j)) = Some j" if "j < NBUF" for j
    using bio_okD(7)[OF assms(1) that] h(3) assms(7) by simp
  show "bio_ok P' H ?t"
    unfolding bio_ok_def using upd(1) me p(2,3) q l bio_okD(3)[OF assms(1)] by simp
  show "view ?t = (view s)(bn := b_data x)" using upd(2) by (simp add: view_def)
  show "bio_frame s ?t" using assms(14) by (simp add: bio_frame_def bio_rest_def)
qed

definition set_bdata :: "nat \<Rightarrow> byte list \<Rightarrow> 'a bio_scheme \<Rightarrow> 'a bio_scheme" where
  "set_bdata i d s = b_upd i (b_data_update (\<lambda>_. d)) s"

lemma set_bdata_law:
  assumes "bio_ok P H s" "H bn = Some i" "length d = BSIZE"
  shows "bio_ok P H (set_bdata i d s)" "view (set_bdata i d s) = (view s)(bn := d)"
    "bio_frame s (set_bdata i d s)" "disk (set_bdata i d s) = disk s" "dlog (set_bdata i d s) = dlog s"
proof -
  note inv = cache_okD(1)[OF bio_okD(1)[OF assms(1)]] and fin = cache_okD(2)[OF bio_okD(1)[OF assms(1)]]
  have eq: "set_bdata i d s = s\<lparr>mach := mach s, bufs := (bufs s)(i := (bufs s i)\<lparr>b_data := d\<rparr>),
      disk := disk s, dlog := dlog s\<rparr>"
    by (simp add: set_bdata_def b_upd_def)
  let ?x = "(bufs s i)\<lparr>b_data := d\<rparr>"
  have "bio_ok P H (set_bdata i d s) \<and> view (set_bdata i d s) = (view s)(bn := b_data ?x) \<and>
    bio_frame s (set_bdata i d s)"
    unfolding eq
    by (intro conjI; rule held_upd[OF assms(1,2)];
        simp add: held_buf[OF assms(1,2)] assms(3) bcache_invD(2)[OF inv] fin)
  then show "bio_ok P H (set_bdata i d s)" "view (set_bdata i d s) = (view s)(bn := d)"
    "bio_frame s (set_bdata i d s)" by simp_all
qed (simp_all add: set_bdata_def b_upd_def)

lemma holding_held:
  assumes "bio_ok P H s" "H bn = Some i"
  shows "holdingsleep (SBuf i) s = Ok True (s\<lparr>mach := norm (mach s)\<rparr>)"
proof -
  obtain p where p: "myproc s = Some p" "sl_pid (slocks s (SBuf i)) = p_pid (procs s ! p)"
    using bio_okD(8)[OF assms(1)] assms(2) by blast
  have "sl_locked (slocks s (SBuf i))"
    using bio_okD(7)[OF assms(1) held_buf(2)[OF assms]] held_buf(3)[OF assms] assms(2) by simp
  then show ?thesis using holdingsleep_eq[OF bio_okD(4,5)[OF assms(1)] p(1)] p(2) by simp
qed

lemma bwrite_law:
  assumes "bio_ok P H s" "H bn = Some i"
  shows "\<exists>s'. bwrite i s = Ok () s' \<and> bio_ok P H s' \<and> view s' = view s \<and>
    disk s' = (disk s)(bn := view s bn) \<and> dlog s' = dlog s @ [(bn, view s bn)] \<and>
    bufs s' = bufs s \<and> bio_frame s s'"
proof -
  note h = held_buf[OF assms] and inv = cache_okD(1)[OF bio_okD(1)[OF assms(1)]]
    and fin = cache_okD(2)[OF bio_okD(1)[OF assms(1)]]
  let ?d = "(disk s)(bn := view s bn)" and ?w = "dlog s @ [(bn, view s bn)]"
  let ?t = "s\<lparr>mach := norm (mach s), bufs := (bufs s)(i := bufs s i), disk := ?d, dlog := ?w\<rparr>"
  have "bwrite i s = Ok () ?t"
    using h(3,7) by (simp add: bwrite_def holding_held[OF assms] disk_rw_def Let_def)
  moreover have "bio_ok P H ?t \<and> view ?t = (view s)(bn := b_data (bufs s i)) \<and> bio_frame s ?t"
    by (intro conjI; rule held_upd[OF assms]; simp add: h bcache_invD(2)[OF inv] fin)
  ultimately show ?thesis using h(7) by (auto simp: fun_upd_idem)
qed

lemma bpin_law:
  assumes "bio_ok P H s" "H bn = Some i" "bn \<notin> P"
  shows "\<exists>s'. bpin i s = Ok () s' \<and> bio_ok (insert bn P) H s' \<and> view s' = view s \<and>
    disk s' = disk s \<and> dlog s' = dlog s \<and> bio_frame s s'"
proof -
  note h = held_buf[OF assms(1,2)] and inv = cache_okD(1)[OF bio_okD(1)[OF assms(1)]]
    and fin = cache_okD(2)[OF bio_okD(1)[OF assms(1)]]
  let ?x = "(bufs s i)\<lparr>b_refcnt := b_refcnt (bufs s i) + 1\<rparr>"
  let ?t = "s\<lparr>mach := norm (mach s), bufs := (bufs s)(i := ?x), disk := disk s, dlog := dlog s\<rparr>"
  have u: "unat (b_refcnt (bufs s i) + 1) = 2" using unat_inc[of "b_refcnt (bufs s i)"] h(6) assms(3) by simp
  have "bpin i s = Ok () ?t"
    using bio_okD(4,5)[OF assms(1)] by (simp add: bpin_def acquire_free b_upd_def release_entered)
  moreover have "bio_ok (insert bn P) H ?t \<and> view ?t = (view s)(bn := b_data ?x) \<and> bio_frame s ?t"
    by (intro conjI; rule held_upd[OF assms(1,2), where P' = "insert bn P"];
        simp add: h u bcache_invD(2)[OF inv] fin)
  ultimately show ?thesis using h(7) by (auto simp: fun_upd_idem)
qed

lemma bunpin_law:
  assumes "bio_ok P H s" "H bn = Some i" "bn \<in> P"
  shows "\<exists>s'. bunpin i s = Ok () s' \<and> bio_ok (P - {bn}) H s' \<and> view s' = view s \<and>
    disk s' = disk s \<and> dlog s' = dlog s \<and> bio_frame s s'"
proof -
  note h = held_buf[OF assms(1,2)] and inv = cache_okD(1)[OF bio_okD(1)[OF assms(1)]]
    and fin = cache_okD(2)[OF bio_okD(1)[OF assms(1)]]
  let ?x = "(bufs s i)\<lparr>b_refcnt := b_refcnt (bufs s i) - 1\<rparr>"
  let ?t = "s\<lparr>mach := norm (mach s), bufs := (bufs s)(i := ?x), disk := disk s, dlog := dlog s\<rparr>"
  have u: "unat (b_refcnt (bufs s i) - 1) = 1" using unat_dec[of "b_refcnt (bufs s i)" 1] h(6) assms(3) by simp
  have "bunpin i s = Ok () ?t"
    using bio_okD(4,5)[OF assms(1)] by (simp add: bunpin_def acquire_free b_upd_def release_entered)
  moreover have "bio_ok (P - {bn}) H ?t \<and> view ?t = (view s)(bn := b_data ?x) \<and> bio_frame s ?t"
    by (intro conjI; rule held_upd[OF assms(1,2), where P' = "P - {bn}"];
        simp add: h u bcache_invD(2)[OF inv] fin)
  ultimately show ?thesis using h(7) by (auto simp: fun_upd_idem)
qed

lemma cache_ok_relink:
  assumes "cache_ok P H B d" "i < NBUF"
  defines "B' \<equiv> link_front i (unlink_buf i B)"
  shows "cache_ok P H B' d" "bview B' d = bview B d"
proof -
  note inv = cache_okD(1)[OF assms(1)]
  have f: "b_valid (B' x) = b_valid (B x)" "b_dev (B' x) = b_dev (B x)" "b_blockno (B' x) = b_blockno (B x)"
    "b_refcnt (B' x) = b_refcnt (B x)" "b_data (B' x) = b_data (B x)" for x
    by (simp_all add: B'_def)
  have c: "cached B' = cached B" by (intro ext) (simp add: cached_def f)
  obtain xs where "ring B xs" using bcache_invD(1)[OF inv] by blast
  then have "ring B' (i # remove1 i xs)" unfolding B'_def using assms(2) by (rule ring_move_front)
  then have "bcache_inv B' d" using inv unfolding bcache_inv_def c f by blast
  moreover have "refs P H B' = refs P H B" by (rule ext) (simp add: refs_def f)
  ultimately show "cache_ok P H B' d" using assms(1) unfolding cache_ok_def c f by simp
  show "bview B' d = bview B d" by (rule ext) (simp add: bview_def c f cong: option.case_cong)
qed

lemma brelse_law:
  assumes "bio_ok P H s" "H bn = Some i" "bn \<in> P \<or> view s bn = disk s bn"
  shows "\<exists>s'. brelse i s = Ok () s' \<and> bio_ok P (H(bn := None)) s' \<and> view s' = view s \<and>
    disk s' = disk s \<and> dlog s' = dlog s \<and> bio_frame s s'"
proof -
  note h = held_buf[OF assms(1,2)] and ok = bio_okD(1)[OF assms(1)]
  note inv = cache_okD(1)[OF ok] and fin = cache_okD(2)[OF ok]
  obtain p where p: "myproc s = Some p" "p < NPROC"
    "\<forall>bn i. H bn = Some i \<longrightarrow> sl_pid (slocks s (SBuf i)) = p_pid (procs s ! p)"
    using bio_okD(8)[OF assms(1)] by blast
  let ?x = "(bufs s i)\<lparr>b_refcnt := b_refcnt (bufs s i) - 1\<rparr>"
  let ?B1 = "(bufs s)(i := ?x)"
  let ?B = "if b_refcnt (bufs s i) - 1 = 0 then link_front i (unlink_buf i ?B1) else ?B1"
  have u: "unat (b_refcnt (bufs s i) - 1) = (if bn \<in> P then 1 else 0)" using unat_dec[OF h(6)] .
  then have z: "b_refcnt (bufs s i) - 1 = 0 \<longleftrightarrow> bn \<notin> P" by (metis one_neq_zero unat_eq_zero)
  have cl: "bn \<notin> P \<Longrightarrow> b_data (bufs s i) = disk s bn" using assms(3) h(7) by simp
  have "cache_ok P (H(bn := None)) ?B1 (disk s) \<and> bview ?B1 (disk s) = (bview (bufs s) (disk s))(bn := b_data ?x)"
    using cache_ok_upd[OF ok h(2), where x = ?x and d' = "disk s" and P' = P and H' = "H(bn := None)"]
      h(3-5,7-9) u z bcache_invD(2)[OF inv] fin cl by (simp add: view_def)
  then have ok1: "cache_ok P (H(bn := None)) ?B1 (disk s)" "bview ?B1 (disk s) = bview (bufs s) (disk s)"
    using h(7) by (auto simp: view_def fun_upd_idem)
  have ok2: "cache_ok P (H(bn := None)) ?B (disk s)" "bview ?B (disk s) = bview (bufs s) (disk s)"
    using cache_ok_relink[OF ok1(1) h(2)] ok1 by (simp_all only: split: if_splits) simp_all
  let ?t = "s\<lparr>mach := norm (mach s), bufs := ?B,
    slocks := (slocks s)(SBuf i := (slocks s (SBuf i))\<lparr>sl_locked := False, sl_pid := 0\<rparr>),
    procs := woken (ChSleep (SBuf i)) (myproc s) (procs s)\<rparr>"
  have "brelse i s = Ok () ?t"
    using bio_okD(3-6)[OF assms(1)]
    by (simp add: brelse_def holding_held[OF assms(1,2)] releasesleep_eq acquire_free b_upd_def Let_def
        release_entered myproc_def)
  moreover have "bio_ok P (H(bn := None)) ?t"
  proof -
    have l: "sl_locked (slocks ?t (SBuf j)) \<longleftrightarrow> (H(bn := None)) (b_blockno (?B j)) = Some j" if "j < NBUF" for j
      using bio_okD(7)[OF assms(1) that] h(3) assms(2) by auto
    have pid: "sl_pid (slocks ?t (SBuf j)) = p_pid (procs ?t ! p)" if "(H(bn := None)) b = Some j" for b j
    proof -
      have "H b = Some j" "b \<noteq> bn" using that by (auto split: if_splits)
      then have "j \<noteq> i" using held_buf(3)[OF assms(1)] h(3) by metis
      then show ?thesis using p \<open>H b = Some j\<close> bio_okD(3)[OF assms(1)] by (simp add: wake1_def)
    qed
    have "myproc ?t = Some p" using p(1) by (simp add: myproc_def)
    then show ?thesis
      unfolding bio_ok_def using ok2(1) l pid p(2) bio_okD(2,3)[OF assms(1)] by simp
  qed
  moreover have "view ?t = view s" using ok2(2) by (simp add: view_def)
  moreover have "bio_frame s ?t" by (simp add: bio_frame_def bio_rest_def)
  ultimately show ?thesis by (intro exI[of _ ?t]) simp
qed

section \<open>Initialisation\<close>

definition zero_bufs :: "bufmap \<Rightarrow> bool" where
  "zero_bufs B \<longleftrightarrow> (\<forall>i. \<not> b_valid (B i) \<and> b_dev (B i) = 0 \<and> b_refcnt (B i) = 0 \<and> length (b_data (B i)) = BSIZE)"

lemma quiet_initlock: "quiet (mach s) \<Longrightarrow> quiet (mach (initlock l n s))"
  by (simp add: quiet_def initlock_def initlock_m_def mach_ok_def lock_free_def)

lemma initlock_fields [simp]:
  "slocks (initlock l n s) = slocks s" "procs (initlock l n s) = procs s"
  "myproc (initlock l n s) = myproc s" "base_rest (initlock l n s) = base_rest s"
  by (simp_all add: initlock_def initlock_m_def myproc_def)

lemma binit_one_eq:
  "binit_one b s = Ok () (s\<lparr>mach := mach (initlock (LSleep (SBuf b)) ''sleep lock'' s),
     slocks := (slocks s)(SBuf b := \<lparr>sl_locked = False, sl_name = ''buffer'', sl_pid = 0\<rparr>),
     bufs := link_front b (bufs s)\<rparr>)"
  by (simp add: binit_one_def initsleeplock_def set_slock_def initlock_def Let_def link_front_def)

lemma binit_loop:
  assumes "k \<le> NBUF" "linked (bufs s) [NBUF, NBUF]" "zero_bufs (bufs s)" "quiet (mach s)"
  shows "\<exists>m sl B. foreach [0..<k] binit_one s = Ok () (s\<lparr>mach := m, slocks := sl, bufs := B\<rparr>) \<and>
    linked B (NBUF # rev [0..<k] @ [NBUF]) \<and> zero_bufs B \<and> quiet m \<and>
    c_proc (mycpu m) = c_proc (mycpu (mach s)) \<and> (\<forall>i < k. \<not> sl_locked (sl (SBuf i)))"
  using assms(1)
proof (induction k)
  case 0
  have "s = s\<lparr>mach := mach s, slocks := slocks s, bufs := bufs s\<rparr>" by simp
  then show ?case using assms
    by (intro exI[of _ "mach s"] exI[of _ "slocks s"] exI[of _ "bufs s"]) simp
next
  case (Suc k)
  then obtain m sl B where IH: "foreach [0..<k] binit_one s = Ok () (s\<lparr>mach := m, slocks := sl, bufs := B\<rparr>)"
    "linked B (NBUF # rev [0..<k] @ [NBUF])" "zero_bufs B" "quiet m"
    "c_proc (mycpu m) = c_proc (mycpu (mach s))" "\<forall>i < k. \<not> sl_locked (sl (SBuf i))"
    by (metis Suc_leD)
  let ?t = "s\<lparr>mach := m, slocks := sl, bufs := B\<rparr>"
  let ?m = "mach (initlock (LSleep (SBuf k)) ''sleep lock'' ?t)"
  let ?sl = "sl(SBuf k := \<lparr>sl_locked = False, sl_name = ''buffer'', sl_pid = 0\<rparr>)"
  have "foreach [0..<Suc k] binit_one s = Ok () (s\<lparr>mach := ?m, slocks := ?sl, bufs := link_front k B\<rparr>)"
    using IH(1) by (simp add: foreach_append binit_one_eq)
  moreover have "linked (link_front k B) (NBUF # rev [0..<Suc k] @ [NBUF])"
    using linked_link_front[OF IH(2), of k] Suc.prems by simp
  moreover have "zero_bufs (link_front k B)" using IH(3) by (simp add: zero_bufs_def)
  moreover have "quiet ?m" "c_proc (mycpu ?m) = c_proc (mycpu (mach s))"
    using quiet_initlock[of ?t] IH(4,5) by (simp_all add: initlock_def initlock_m_def)
  moreover have "\<forall>i < Suc k. \<not> sl_locked (?sl (SBuf i))" using IH(6) less_Suc_eq by auto
  ultimately show ?case by blast
qed

lemma binit_ok:
  assumes "zero_bufs (bufs s)" "quiet (mach s)" "length (procs s) = NPROC" "myproc s = Some p" "p < NPROC"
    "\<And>bn. length (disk s bn) = BSIZE"
  shows "\<exists>s'. binit s = Ok () s' \<and> bio_ok {} (\<lambda>_. None) s' \<and> view s' = disk s \<and> disk s' = disk s \<and>
    dlog s' = dlog s \<and> bio_rest s' = bio_rest s \<and> procs s' = procs s \<and> myproc s' = myproc s \<and>
    ring (bufs s') (rev [0..<NBUF]) \<and> zero_bufs (bufs s')"
proof -
  let ?s = "(initlock LBcache ''bcache'' s)\<lparr>bufs := set_next NBUF NBUF (set_prev NBUF NBUF (bufs s))\<rparr>"
  have "linked (bufs ?s) [NBUF, NBUF]" "zero_bufs (bufs ?s)" "quiet (mach ?s)"
    using assms(1) quiet_initlock[OF assms(2)] by (simp_all add: set_next_def set_prev_def zero_bufs_def)
  from binit_loop[OF order_refl this] obtain m sl B where
    loop: "foreach [0..<NBUF] binit_one ?s = Ok () (?s\<lparr>mach := m, slocks := sl, bufs := B\<rparr>)" and
    B: "linked B (NBUF # rev [0..<NBUF] @ [NBUF])" "zero_bufs B" and
    m: "quiet m" "c_proc (mycpu m) = c_proc (mycpu (mach ?s))" and
    sl: "\<forall>i < NBUF. \<not> sl_locked (sl (SBuf i))" by blast
  let ?t = "?s\<lparr>mach := m, slocks := sl, bufs := B\<rparr>"
  have init: "binit s = Ok () ?t" using loop by (simp add: binit_def Let_def initlock_def)
  have ring: "ring B (rev [0..<NBUF])" using B(1) by (auto simp: ring_def)
  have nc: "\<not> cached B bn i" for bn i using B(2) by (simp add: cached_def zero_bufs_def ROOTDEV_def)
  have d: "disk ?t = disk s" "dlog ?t = dlog s" "procs ?t = procs s" by (simp_all add: initlock_def)
  have me: "myproc ?t = Some p"
    using m(2) assms(4) by (simp add: myproc_def initlock_def initlock_m_def)
  have "bcache_inv B (disk s)"
    unfolding bcache_inv_def using ring nc assms(6) B(2) by (auto simp: zero_bufs_def)
  then have "cache_ok {} (\<lambda>_. None) B (disk s)"
    unfolding cache_ok_def using nc B(2) by (auto simp: zero_bufs_def refs_def)
  then have "bio_ok {} (\<lambda>_. None) ?t"
    unfolding bio_ok_def using d m(1) me assms(3,5) sl by simp
  moreover have "view ?t = disk s" using bview_uncached[of B] nc d by (simp add: view_def fun_eq_iff)
  moreover have "bio_rest ?t = bio_rest s" by (simp add: bio_rest_def base_rest_def initlock_def)
  ultimately show ?thesis using init ring B(2) d me assms(4) by (intro exI[of _ ?t]) simp
qed

section \<open>Properties\<close>

definition zero_buf :: buf where
  "zero_buf = \<lparr>b_valid = False, b_disk = False, b_dev = 0, b_blockno = 0, b_refcnt = 0, b_prev = 0,
     b_next = 0, b_data = replicate BSIZE 0\<rparr>"

definition example_bio :: bio where
  "example_bio = memory.extend (base.extend example_base (memory.fields (\<lambda>_. 0) 0 0))
     (bio.fields (\<lambda>_. zero_buf) (\<lambda>bn. replicate BSIZE (of_nat bn)) [])"

lemma example_bio_fields [simp]:
  "mach example_bio = idle_mach" "procs example_bio = procs example_base" "bufs example_bio = (\<lambda>_. zero_buf)"
  "disk example_bio = (\<lambda>bn. replicate BSIZE (of_nat bn))" "dlog example_bio = []"
  "myproc example_bio = Some 0"
  by (simp_all add: example_bio_def base.defs memory.defs bio.defs example_base_def myproc_def)

lemma example_bio_init:
  "\<exists>s. binit example_bio = Ok () s \<and> bio_ok {} (\<lambda>_. None) s \<and> view s = disk example_bio \<and>
    ring (bufs s) (rev [0..<NBUF]) \<and> zero_bufs (bufs s)"
proof -
  have "zero_bufs (bufs example_bio)" by (simp add: zero_bufs_def zero_buf_def)
  moreover have "0 < NPROC" by simp
  ultimately show ?thesis
    using binit_ok[of example_bio 0] by auto
qed

text \<open>
  C2: \<open>bread\<close> returns the current content of the block.  With a buffer to spare, or the block pinned
  in the cache, \<open>bread\<close> on a block that the process does not hold returns a locked buffer whose data
  is the block's content as last written, whether cached or on disk; no block changes its content,
  nothing is written to disk, recycling a buffer included, and the cache invariant is kept.
\<close>

theorem bread_current:
  assumes "bio_ok P H s" "H bn = None" "bn \<in> P \<or> card (P \<union> dom H) < NBUF"
  shows "\<exists>i s'. bread ROOTDEV bn s = Ok i s' \<and> bio_ok P (H(bn \<mapsto> i)) s' \<and>
    b_data (bufs s' i) = view s bn \<and> view s' = view s \<and> disk s' = disk s \<and> dlog s' = dlog s"
  using bread_law[OF assms] by blast

theorem bread_current_witness:
  "\<exists>s i s'. binit example_bio = Ok () s \<and> bread ROOTDEV 7 s = Ok i s' \<and>
     b_data (bufs s' i) = replicate BSIZE 7"
proof -
  obtain s where s: "binit example_bio = Ok () s" "bio_ok {} (\<lambda>_. None) s" "view s = disk example_bio"
    using example_bio_init by blast
  then show ?thesis using bread_current[of "{}" "\<lambda>_. None" s 7] by auto
qed

lemma brelse_ring:
  assumes "bio_ok P H s" "H bn = Some i" "bn \<notin> P" "ring (bufs s) xs" "brelse i s = Ok () s'"
  shows "ring (bufs s') (i # remove1 i xs)"
proof -
  note h = held_buf[OF assms(1,2)]
  let ?x = "(bufs s i)\<lparr>b_refcnt := b_refcnt (bufs s i) - 1\<rparr>"
  let ?B1 = "(bufs s)(i := ?x)"
  have "unat (b_refcnt (bufs s i)) = Suc 0" using h(6) assms(3) by simp
  then have z: "b_refcnt (bufs s i) - 1 = 0" using unat_dec unat_eq_zero by blast
  have "bufs s' = link_front i (unlink_buf i ?B1)"
    using assms(5) bio_okD(3-6)[OF assms(1)] z
    by (auto simp: brelse_def holding_held[OF assms(1,2)] releasesleep_eq acquire_free b_upd_def Let_def
        release_entered)
  moreover have "ring ?B1 xs" using assms(4) ring_cong[of ?B1 "bufs s" xs] by simp
  ultimately show ?thesis using ring_move_front[of ?B1 xs i] h(2) by simp
qed

text \<open>
  C3: the cache is least-recently-used.  The pointers of the ring always spell a list of all the
  buffers; giving up the last reference to a buffer moves it to the front of that list, and a
  block that is not cached is put into the unreferenced buffer nearest to the end of the list.
\<close>

theorem bcache_lru:
  assumes "bio_ok P H s" "ring (bufs s) xs"
  shows "(H bn = Some i \<and> bn \<notin> P \<and> view s bn = disk s bn \<longrightarrow>
      (\<exists>s'. brelse i s = Ok () s' \<and> ring (bufs s') (i # remove1 i xs))) \<and>
    ((\<forall>j. \<not> cached (bufs s) bn' j) \<and> card (P \<union> dom H) < NBUF \<longrightarrow>
      (\<exists>j s'. bget ROOTDEV bn' s = Ok j s' \<and> find (\<lambda>j. b_refcnt (bufs s j) = 0) (rev xs) = Some j \<and>
        ring (bufs s') xs))"
proof (intro conjI impI)
  assume h: "H bn = Some i \<and> bn \<notin> P \<and> view s bn = disk s bn"
  then obtain s' where "brelse i s = Ok () s'" using brelse_law[OF assms(1), of bn i] by blast
  then show "\<exists>s'. brelse i s = Ok () s' \<and> ring (bufs s') (i # remove1 i xs)"
    using brelse_ring[OF assms(1) _ _ assms(2)] h by blast
next
  assume h: "(\<forall>j. \<not> cached (bufs s) bn' j) \<and> card (P \<union> dom H) < NBUF"
  obtain p where "myproc s = Some p" using bio_okD(8)[OF assms(1)] by blast
  then obtain j where j: "find (\<lambda>j. b_refcnt (bufs s j) = 0) (rev xs) = Some j"
    "bget ROOTDEV bn' s = Ok j (take_buf j
      ((bufs s j)\<lparr>b_dev := ROOTDEV, b_blockno := bn', b_valid := False, b_refcnt := 1\<rparr>) p s)"
    using bget_miss[OF assms, of bn' p] h by blast
  have "ring (bufs (take_buf j ((bufs s j)\<lparr>b_dev := ROOTDEV, b_blockno := bn', b_valid := False,
      b_refcnt := 1\<rparr>) p s)) xs"
    using assms(2) by (subst ring_cong[where B = "bufs s"]) (auto simp: take_buf_def)
  then show "\<exists>j s'. bget ROOTDEV bn' s = Ok j s' \<and>
      find (\<lambda>j. b_refcnt (bufs s j) = 0) (rev xs) = Some j \<and> ring (bufs s') xs"
    using j by blast
qed

theorem bcache_lru_witness:
  "\<exists>s j s'. binit example_bio = Ok () s \<and> bget ROOTDEV 7 s = Ok j s' \<and>
     find (\<lambda>j. b_refcnt (bufs s j) = 0) (rev (rev [0..<NBUF])) = Some j"
proof -
  obtain s where s: "binit example_bio = Ok () s" "bio_ok {} (\<lambda>_. None) s" "view s = disk example_bio"
    "ring (bufs s) (rev [0..<NBUF])" "zero_bufs (bufs s)"
    using example_bio_init by blast
  have "\<not> cached (bufs s) 7 j" for j using s(5) by (simp add: cached_def zero_bufs_def ROOTDEV_def)
  then show ?thesis using bcache_lru[OF s(2,4), of 0 0 7] s(1) by auto
qed

end
