(* ===== verification/Log.thy ===== *)
theory Log
  imports Bio
begin

text \<open>
  The redo log, \<open>kernel/log.c\<close>.  The in-memory \<open>struct log\<close> is the record \<open>logging\<close>: \<open>lh_n\<close> and
  \<open>lh_block\<close> are \<open>log.lh\<close>.  The header block holds \<open>n\<close> at byte 0 and \<open>block[i]\<close> at byte \<open>4 + 4 i\<close>,
  little endian.  An access to \<open>lh.block\<close> out of its \<open>LOGBLOCKS\<close> entries is \<open>Undef\<close>.  The \<open>printf\<close>
  in \<open>install_trans(1)\<close> changes nothing that is modelled here and is left out.

  \<open>log_ok D H s\<close> is the state between \<open>begin_op\<close> and \<open>end_op\<close>: the blocks named in the log header are
  pinned in the cache, every other block that is not dirty (in \<open>D\<close>) is as on disk.  The locale
  \<open>block_store\<close> is what the file system relies on; it is interpreted on \<open>bread\<close>, \<open>log_write\<close> and
  \<open>brelse\<close>.
\<close>

record logging = bio +
  l_start :: nat
  l_outstanding :: int
  l_committing :: bool
  l_dev :: nat
  lh_n :: int
  lh_block :: "nat list"

section \<open>The header block\<close>

definition head_n :: "byte list \<Rightarrow> int" where
  "head_n d = sint (get32 0 d)"

definition head_block :: "nat \<Rightarrow> byte list \<Rightarrow> nat" where
  "head_block i d = unat (get32 (4 + 4 * i) d)"

definition put_head :: "int \<Rightarrow> nat list \<Rightarrow> byte list \<Rightarrow> byte list" where
  "put_head n bl d =
     fold (\<lambda>i d. put32 (4 + 4 * i) (of_nat (bl ! i)) d) [0..<nat n] (put32 0 (of_int n) d)"

section \<open>The operations\<close>

definition install_one :: "bool \<Rightarrow> nat \<Rightarrow> 'a logging_scheme \<Rightarrow> (unit, 'a logging_scheme) res" where
  "install_one recovering tail s =
     (if length (lh_block s) \<le> tail then Undef
      else seq (bread (l_dev s) (l_start s + tail + 1) s) (\<lambda>lbuf s.
        seq (bread (l_dev s) (lh_block s ! tail) s) (\<lambda>dbuf s.
        let s = set_bdata dbuf (b_data (bufs s lbuf)) s in
        seq (bwrite dbuf s) (\<lambda>_ s.
        seq (if recovering then Ok () s else bunpin dbuf s) (\<lambda>_ s.
        seq (brelse lbuf s) (\<lambda>_ s. brelse dbuf s))))))"

definition install_trans :: "bool \<Rightarrow> 'a logging_scheme \<Rightarrow> (unit, 'a logging_scheme) res" where
  "install_trans recovering s = foreach [0..<nat (lh_n s)] (install_one recovering) s"

definition read_head :: "'a logging_scheme \<Rightarrow> (unit, 'a logging_scheme) res" where
  "read_head s =
     seq (bread (l_dev s) (l_start s) s) (\<lambda>b s.
     let d = b_data (bufs s b); n = head_n d in
     if int LOGBLOCKS < n then Undef
     else let s = s\<lparr>lh_n := n,
                    lh_block := map (\<lambda>i. if i < nat n then head_block i d else lh_block s ! i) [0..<LOGBLOCKS]\<rparr>
          in brelse b s)"

definition write_head :: "'a logging_scheme \<Rightarrow> (unit, 'a logging_scheme) res" where
  "write_head s =
     seq (bread (l_dev s) (l_start s) s) (\<lambda>b s.
     if int LOGBLOCKS < lh_n s then Undef
     else let s = set_bdata b (put_head (lh_n s) (lh_block s) (b_data (bufs s b))) s in
       seq (bwrite b s) (\<lambda>_ s. brelse b s))"

definition recover_from_log :: "'a logging_scheme \<Rightarrow> (unit, 'a logging_scheme) res" where
  "recover_from_log s =
     seq (read_head s) (\<lambda>_ s.
     seq (install_trans True s) (\<lambda>_ s.
     write_head (s\<lparr>lh_n := 0\<rparr>)))"

definition initlog :: "nat \<Rightarrow> superblock \<Rightarrow> 'a logging_scheme \<Rightarrow> (unit, 'a logging_scheme) res" where
  "initlog dev sb s =
     (if BSIZE \<le> 4 * (1 + LOGBLOCKS) then Panic ''initlog: too big logheader''
      else let s = initlock LLog ''log'' s
           in recover_from_log (s\<lparr>l_start := sb_logstart sb, l_dev := dev\<rparr>))"

definition begin_op :: "'a logging_scheme \<Rightarrow> (unit, 'a logging_scheme) res" where
  "begin_op s =
     seq (acquire LLog s) (\<lambda>_ s.
     if l_committing s then sleep ChLog LLog s
     else if int LOGBLOCKS < lh_n s + (l_outstanding s + 1) * int MAXOPBLOCKS then sleep ChLog LLog s
     else release LLog (s\<lparr>l_outstanding := l_outstanding s + 1\<rparr>))"

definition write_log_one :: "nat \<Rightarrow> 'a logging_scheme \<Rightarrow> (unit, 'a logging_scheme) res" where
  "write_log_one tail s =
     (if length (lh_block s) \<le> tail then Undef
      else seq (bread (l_dev s) (l_start s + tail + 1) s) (\<lambda>to s.
        seq (bread (l_dev s) (lh_block s ! tail) s) (\<lambda>from s.
        let s = set_bdata to (b_data (bufs s from)) s in
        seq (bwrite to s) (\<lambda>_ s.
        seq (brelse from s) (\<lambda>_ s. brelse to s)))))"

definition write_log :: "'a logging_scheme \<Rightarrow> (unit, 'a logging_scheme) res" where
  "write_log s = foreach [0..<nat (lh_n s)] write_log_one s"

definition commit :: "'a logging_scheme \<Rightarrow> (unit, 'a logging_scheme) res" where
  "commit s =
     (if 0 < lh_n s then
        seq (write_log s) (\<lambda>_ s.
        seq (write_head s) (\<lambda>_ s.
        seq (install_trans False s) (\<lambda>_ s.
        write_head (s\<lparr>lh_n := 0\<rparr>))))
      else Ok () s)"

definition end_op :: "'a logging_scheme \<Rightarrow> (unit, 'a logging_scheme) res" where
  "end_op s =
     seq (acquire LLog s) (\<lambda>_ s.
     let s = s\<lparr>l_outstanding := l_outstanding s - 1\<rparr> in
     if l_committing s then Panic ''log.committing''
     else if l_outstanding s = 0 then
       seq (release LLog (s\<lparr>l_committing := True\<rparr>)) (\<lambda>_ s.
       seq (commit s) (\<lambda>_ s.
       seq (acquire LLog s) (\<lambda>_ s.
       seq (wakeup ChLog (s\<lparr>l_committing := False\<rparr>)) (\<lambda>_ s.
       release LLog s))))
     else
       seq (wakeup ChLog s) (\<lambda>_ s. release LLog s))"

text \<open>The absorption loop: the first \<open>i < n\<close> with \<open>lh.block[i] = blockno\<close>, otherwise \<open>n\<close>.\<close>

fun absorb :: "nat list \<Rightarrow> nat \<Rightarrow> nat" where
  "absorb [] bn = 0"
| "absorb (x # xs) bn = (if x = bn then 0 else Suc (absorb xs bn))"

definition log_write :: "nat \<Rightarrow> 'a logging_scheme \<Rightarrow> (unit, 'a logging_scheme) res" where
  "log_write b s =
     seq (acquire LLog s) (\<lambda>_ s.
     if int LOGBLOCKS \<le> lh_n s then Panic ''too big a transaction''
     else if l_outstanding s < 1 then Panic ''log_write outside of trans''
     else let bn = b_blockno (bufs s b);
              i = absorb (take (nat (lh_n s)) (lh_block s)) bn;
              s = s\<lparr>lh_block := (lh_block s)[i := bn]\<rparr>
          in if i = nat (lh_n s) then
               seq (bpin b s) (\<lambda>_ s. release LLog (s\<lparr>lh_n := lh_n s + 1\<rparr>))
             else release LLog s)"

section \<open>The header as numbers\<close>

lemma LOGBLOCKS_numeral: "LOGBLOCKS = 30" and BSIZE_numeral: "BSIZE = 1024" and NBUF_numeral: "NBUF = 30"
  by (simp_all add: params)

lemma length_put_head_fold:
  "length d = BSIZE \<Longrightarrow> k \<le> LOGBLOCKS \<Longrightarrow>
   length (fold (\<lambda>i d. put32 (4 + 4 * i) (of_nat (bl ! i)) d) [0..<k] d) = BSIZE"
  by (induction k) (auto simp: BSIZE_numeral LOGBLOCKS_numeral)

lemma get32_put_head_fold:
  assumes "length d = BSIZE" "k \<le> LOGBLOCKS" "j \<le> LOGBLOCKS"
  shows "get32 (4 * j) (fold (\<lambda>i d. put32 (4 + 4 * i) (of_nat (bl ! i)) d) [0..<k] d) =
    (if 1 \<le> j \<and> j \<le> k then of_nat (bl ! (j - 1)) else get32 (4 * j) d)"
  using assms(2)
proof (induction k)
  case (Suc k)
  let ?d = "fold (\<lambda>i d. put32 (4 + 4 * i) (of_nat (bl ! i)) d) [0..<k] d"
  have l: "length ?d = 1024" using length_put_head_fold[OF assms(1), of k bl] Suc.prems by (simp add: BSIZE_numeral)
  show ?case
  proof (cases "j = Suc k")
    case True
    then show ?thesis using l Suc.prems by (simp add: LOGBLOCKS_numeral)
  next
    case False
    then have "get32 (4 * j) (put32 (4 + 4 * k) (of_nat (bl ! k)) ?d) = get32 (4 * j) ?d"
      using l Suc.prems assms(3) by (intro get32_put32_other) (auto simp: LOGBLOCKS_numeral)
    then show ?thesis using Suc False by auto
  qed
qed auto

lemma put_head_read:
  assumes "length d = BSIZE" "0 \<le> n" "n \<le> int LOGBLOCKS"
  shows "length (put_head n bl d) = BSIZE" "head_n (put_head n bl d) = n"
    "int i < n \<Longrightarrow> bl ! i < 2 ^ 32 \<Longrightarrow> head_block i (put_head n bl d) = bl ! i"
proof -
  let ?d = "put32 0 (of_int n) d"
  have l: "length ?d = BSIZE" using assms(1) by (simp add: BSIZE_numeral)
  show "length (put_head n bl d) = BSIZE"
    unfolding put_head_def using length_put_head_fold[OF l] assms(3) by simp
  have "get32 0 (put_head n bl d) = of_int n"
    using get32_put_head_fold[OF l, of "nat n" 0 bl] assms by (simp add: put_head_def BSIZE_numeral)
  moreover have "sint (of_int n :: uint) = n"
    using assms(2,3) by (simp add: LOGBLOCKS_numeral sint_sbintrunc' signed_take_bit_int_eq_self)
  ultimately show "head_n (put_head n bl d) = n" by (simp add: head_n_def)
  assume i: "int i < n" "bl ! i < 2 ^ 32"
  then have "get32 (4 * Suc i) (put_head n bl d) = of_nat (bl ! i)"
    using get32_put_head_fold[OF l, of "nat n" "Suc i" bl] assms
    by (simp add: put_head_def Suc_le_eq zless_nat_eq_int_zless)
  then show "head_block i (put_head n bl d) = bl ! i"
    using i(2) by (simp add: head_block_def unat_of_nat)
qed

section \<open>Loops over the log\<close>

text \<open>The fields of the log are the \<open>more\<close> part of the cache's state.\<close>

lemma bio_frame_log:
  assumes "bio_frame s t"
  shows "l_start t = l_start s" "l_outstanding t = l_outstanding s" "l_committing t = l_committing s"
    "l_dev t = l_dev s" "lh_n t = lh_n s" "lh_block t = lh_block s" "logging.more t = logging.more s"
    "norm (mach t) = norm (mach s)" "procs_woken (procs s) (procs t)"
    "slocks t (SInode i) = slocks s (SInode i)" "base_rest t = base_rest s" "ram t = ram s" "freelist t = freelist s"
  using assms by (cases s, cases t, simp add: bio_frame_def bio_rest_def)+

definition writes :: "(nat \<times> byte list) list \<Rightarrow> (nat \<Rightarrow> byte list) \<Rightarrow> nat \<Rightarrow> byte list" where
  "writes ws d = fold (\<lambda>(b, v) d. d(b := v)) ws d"

lemma writes_simps [simp]: "writes [] d = d" "writes ((b, v) # ws) d = writes ws (d(b := v))"
  "writes (ws @ vs) d = writes vs (writes ws d)"
  by (simp_all add: writes_def)

lemma writes_notin: "bn \<notin> fst ` set ws \<Longrightarrow> writes ws d bn = d bn"
  by (induction ws arbitrary: d) auto

lemma writes_cong_at: "d b = d' b \<Longrightarrow> writes ws d b = writes ws d' b"
proof (induction ws rule: rev_induct)
  case (snoc w ws) then show ?case by (cases w) auto
qed simp

text \<open>What the log's operations leave alone.\<close>

definition log_frame :: "'a logging_scheme \<Rightarrow> 'a logging_scheme \<Rightarrow> bool" where
  "log_frame s t \<longleftrightarrow> norm (mach t) = norm (mach s) \<and> procs_woken (procs s) (procs t) \<and>
     (\<forall>i. slocks t (SInode i) = slocks s (SInode i)) \<and> base_rest t = base_rest s \<and> ram t = ram s \<and>
     freelist t = freelist s \<and> logging.more t = logging.more s \<and> l_start t = l_start s \<and> l_dev t = l_dev s"

lemma log_frame_refl [simp]: "log_frame s s"
  by (simp add: log_frame_def)

lemma log_frame_trans [trans]: "log_frame s t \<Longrightarrow> log_frame t u \<Longrightarrow> log_frame s u"
  by (auto simp: log_frame_def intro: procs_woken_trans)

lemma bio_log_frame: "bio_frame s t \<Longrightarrow> log_frame s t"
  using bio_frame_log[of s t] by (simp add: log_frame_def)

lemma base_rest_log [simp]:
  "base_rest (s\<lparr>lh_n := n\<rparr>) = base_rest s" "base_rest (s\<lparr>lh_block := bl\<rparr>) = base_rest s"
  "base_rest (s\<lparr>l_outstanding := k\<rparr>) = base_rest s" "base_rest (s\<lparr>l_committing := c\<rparr>) = base_rest s"
  by (simp_all add: base_rest_def)

lemma log_frame_upd [simp]:
  "log_frame s (t\<lparr>lh_n := n\<rparr>) = log_frame s t" "log_frame s (t\<lparr>lh_block := bl\<rparr>) = log_frame s t"
  "log_frame s (t\<lparr>l_outstanding := k\<rparr>) = log_frame s t" "log_frame s (t\<lparr>l_committing := c\<rparr>) = log_frame s t"
  "log_frame (s\<lparr>lh_n := n\<rparr>) t = log_frame s t" "log_frame (s\<lparr>lh_block := bl\<rparr>) t = log_frame s t"
  "log_frame (s\<lparr>l_outstanding := k\<rparr>) t = log_frame s t" "log_frame (s\<lparr>l_committing := c\<rparr>) t = log_frame s t"
  by (simp_all add: log_frame_def)

text \<open>
  Two blocks are read, the second (\<open>dst\<close>) or the first (\<open>lb\<close>) is overwritten with the other's
  content and written to disk.
\<close>

lemma write_log_one_law:
  assumes "bio_ok P Map.empty s" "tail < length (lh_block s)" "l_dev s = ROOTDEV"
    and "lh_block s ! tail \<in> P" "l_start s + tail + 1 \<notin> P" "card P < NBUF"
  defines "lb \<equiv> l_start s + tail + 1" and "v \<equiv> view s (lh_block s ! tail)"
  shows "\<exists>s'. write_log_one tail s = Ok () s' \<and> bio_ok P Map.empty s' \<and> view s' = (view s)(lb := v) \<and>
    disk s' = (disk s)(lb := v) \<and> dlog s' = dlog s @ [(lb, v)] \<and> bio_frame s s'"
proof -
  let ?blk = "lh_block s ! tail"
  have ne: "lb \<noteq> ?blk" using assms(4,5) by (auto simp: lb_def)
  obtain i s1 where s1: "bread ROOTDEV lb s = Ok i s1" "bio_ok P [lb \<mapsto> i] s1" "view s1 = view s"
    "disk s1 = disk s" "dlog s1 = dlog s" "bio_frame s s1"
    using bread_law[OF assms(1), of lb] assms(6) by auto
  obtain j s2 where s2: "bread ROOTDEV ?blk s1 = Ok j s2" "bio_ok P [lb \<mapsto> i, ?blk \<mapsto> j] s2"
    "b_data (bufs s2 j) = v" "view s2 = view s" "disk s2 = disk s" "dlog s2 = dlog s" "bio_frame s s2"
    using bread_law[OF s1(2), of ?blk] assms(4) ne s1 bio_frame_trans[OF s1(6)] by (auto simp: v_def)
  let ?s3 = "set_bdata i v s2"
  have len: "length v = BSIZE"
    unfolding v_def view_def by (rule length_bview[OF cache_okD(1)[OF bio_okD(1)[OF assms(1)]]])
  define H where "H = [lb \<mapsto> i, ?blk \<mapsto> j]"
  have H2: "H lb = Some i" "H ?blk = Some j" using ne by (auto simp: H_def)
  have ok2: "bio_ok P H s2" using s2(2) by (simp add: H_def)
  note s3 = set_bdata_law[OF ok2 H2(1) len]
  obtain s4 where s4: "bwrite i ?s3 = Ok () s4" "bio_ok P H s4" "view s4 = (view s)(lb := v)"
    "disk s4 = (disk s)(lb := v)" "dlog s4 = dlog s @ [(lb, v)]" "bio_frame ?s3 s4"
    using bwrite_law[OF s3(1) H2(1)] s3(2,4,5) s2(4-6) by auto
  obtain s5 where s5: "brelse j s4 = Ok () s5" "bio_ok P (H(?blk := None)) s5"
    "view s5 = view s4" "disk s5 = disk s4" "dlog s5 = dlog s4" "bio_frame s4 s5"
    using brelse_law[OF s4(2) H2(2)] assms(4) by auto
  have H5: "H(?blk := None) = [lb \<mapsto> i]" using ne by (auto simp: H_def)
  obtain s6 where s6: "brelse i s5 = Ok () s6" "bio_ok P ([lb \<mapsto> i](lb := None)) s6"
    "view s6 = view s5" "disk s6 = disk s5" "dlog s6 = dlog s5" "bio_frame s5 s6"
    using brelse_law[OF s5(2)[unfolded H5], of lb i] s5 s4 by auto
  have "bio_frame s s6"
    using s2(7) s3(3) s4(6) s5(6) s6(6) bio_frame_trans by blast
  moreover have "write_log_one tail s = Ok () s6"
    using s1(1) s2(1,3) s4(1) s5(1) s6(1) assms(2,3) bio_frame_log(4,6)[OF s1(6)]
    by (simp add: write_log_one_def lb_def Let_def)
  ultimately show ?thesis using s6 s5 s4 by auto
qed

lemma install_one_law:
  assumes "bio_ok P Map.empty s" "tail < length (lh_block s)" "l_dev s = ROOTDEV"
    and "l_start s + tail + 1 \<notin> P" "l_start s + tail + 1 \<noteq> lh_block s ! tail" "card P < NBUF"
    and "if recovering then P = {} else lh_block s ! tail \<in> P"
    and clean: "view s (l_start s + tail + 1) = disk s (l_start s + tail + 1)"
  defines "blk \<equiv> lh_block s ! tail" and "v \<equiv> view s (l_start s + tail + 1)"
  shows "\<exists>s'. install_one recovering tail s = Ok () s' \<and> bio_ok (P - {blk}) Map.empty s' \<and>
    view s' = (view s)(blk := v) \<and> disk s' = (disk s)(blk := v) \<and> dlog s' = dlog s @ [(blk, v)] \<and>
    bio_frame s s'"
proof -
  let ?lb = "l_start s + tail + 1"
  have ne: "?lb \<noteq> blk" using assms(5) by (simp add: blk_def)
  obtain i s1 where s1: "bread ROOTDEV ?lb s = Ok i s1" "bio_ok P [?lb \<mapsto> i] s1" "view s1 = view s"
    "disk s1 = disk s" "dlog s1 = dlog s" "bio_frame s s1"
    using bread_law[OF assms(1), of ?lb] assms(6) by auto
  have room: "blk \<in> P \<or> card (P \<union> dom [?lb \<mapsto> i]) < NBUF"
    using assms(7) by (auto simp: blk_def NBUF_numeral split: if_splits)
  have nb: "[?lb \<mapsto> i] blk = None" using ne by simp
  obtain j s2 where s2: "bread ROOTDEV blk s1 = Ok j s2" "bio_ok P [?lb \<mapsto> i, blk \<mapsto> j] s2"
    "view s2 = view s" "disk s2 = disk s" "dlog s2 = dlog s" "bio_frame s s2"
    using bread_law[OF s1(2) nb room] s1 bio_frame_trans[OF s1(6)] by auto
  define H where "H = [?lb \<mapsto> i, blk \<mapsto> j]"
  have H2: "H ?lb = Some i" "H blk = Some j" using ne by (auto simp: H_def)
  have ok2: "bio_ok P H s2" using s2(2) by (simp add: H_def)
  have v: "b_data (bufs s2 i) = v" using held_buf(7)[OF ok2 H2(1)] s2(3) by (simp add: v_def)
  have len: "length v = BSIZE"
    unfolding v_def view_def by (rule length_bview[OF cache_okD(1)[OF bio_okD(1)[OF assms(1)]]])
  let ?s3 = "set_bdata j v s2"
  note s3 = set_bdata_law[OF ok2 H2(2) len]
  obtain s4 where s4: "bwrite j ?s3 = Ok () s4" "bio_ok P H s4" "view s4 = (view s)(blk := v)"
    "disk s4 = (disk s)(blk := v)" "dlog s4 = dlog s @ [(blk, v)]" "bio_frame ?s3 s4"
    using bwrite_law[OF s3(1) H2(2)] s3(2,4,5) s2(3-5) by auto
  obtain s5 where s5: "(if recovering then Ok () s4 else bunpin j s4) = Ok () s5"
    "bio_ok (P - {blk}) H s5" "view s5 = view s4" "disk s5 = disk s4" "dlog s5 = dlog s4"
    "bio_frame s4 s5"
  proof (cases recovering)
    case True
    then show thesis using that[of s4] s4(2) assms(7) by simp
  next
    case False
    then show thesis using that bunpin_law[OF s4(2) H2(2)] assms(7) by (auto simp: blk_def)
  qed
  have H5: "H(?lb := None) = [blk \<mapsto> j]" using ne by (auto simp: H_def)
  have "view s5 ?lb = disk s5 ?lb" using s5(3,4) s4(3,4) ne clean by simp
  then obtain s6 where s6: "brelse i s5 = Ok () s6" "bio_ok (P - {blk}) [blk \<mapsto> j] s6"
    "view s6 = view s5" "disk s6 = disk s5" "dlog s6 = dlog s5" "bio_frame s5 s6"
    using brelse_law[OF s5(2) H2(1)] unfolding H5 by auto
  obtain s7 where s7: "brelse j s6 = Ok () s7" "bio_ok (P - {blk}) ([blk \<mapsto> j](blk := None)) s7"
    "view s7 = view s6" "disk s7 = disk s6" "dlog s7 = dlog s6" "bio_frame s6 s7"
    using brelse_law[OF s6(2), of blk j] s6(3,4) s5(3,4) s4(3,4) by auto
  have "bio_frame s s7"
    using s2(6) s3(3) s4(6) s5(6) s6(6) s7(6) bio_frame_trans by blast
  moreover have "install_one recovering tail s = Ok () s7"
    using s1(1) s2(1) v s4(1) s5(1) s6(1) s7(1) assms(2,3) bio_frame_log(4,6)[OF s1(6)]
    by (simp add: install_one_def blk_def Let_def)
  ultimately show ?thesis using s7 s6 s5 s4 by auto
qed

lemma bio_log_upd [simp]:
  "bio_ok P H (s\<lparr>lh_n := n\<rparr>) = bio_ok P H s" "bio_ok P H (s\<lparr>lh_block := bl\<rparr>) = bio_ok P H s"
  "bio_ok P H (s\<lparr>l_outstanding := k\<rparr>) = bio_ok P H s" "bio_ok P H (s\<lparr>l_committing := c\<rparr>) = bio_ok P H s"
  "bio_ok P H (s\<lparr>l_start := a\<rparr>) = bio_ok P H s" "bio_ok P H (s\<lparr>l_dev := dv\<rparr>) = bio_ok P H s"
  "view (s\<lparr>lh_n := n\<rparr>) = view s" "view (s\<lparr>lh_block := bl\<rparr>) = view s"
  "view (s\<lparr>l_outstanding := k\<rparr>) = view s" "view (s\<lparr>l_committing := c\<rparr>) = view s"
  "view (s\<lparr>l_start := a\<rparr>) = view s" "view (s\<lparr>l_dev := dv\<rparr>) = view s"
  by (simp_all add: bio_ok_def view_def myproc_def)

lemma view_base [simp]:
  "view (s\<lparr>mach := m\<rparr>) = view s" "view (s\<lparr>procs := ps\<rparr>) = view s" "view (s\<lparr>slocks := sl\<rparr>) = view s"
  by (simp_all add: view_def)

lemma write_head_law:
  assumes "bio_ok P Map.empty s" "l_dev s = ROOTDEV" "l_start s \<notin> P" "card P < NBUF"
    and "0 \<le> lh_n s" "lh_n s \<le> int LOGBLOCKS"
  defines "h \<equiv> put_head (lh_n s) (lh_block s) (view s (l_start s))"
  shows "\<exists>s'. write_head s = Ok () s' \<and> bio_ok P Map.empty s' \<and> view s' = (view s)(l_start s := h) \<and>
    disk s' = (disk s)(l_start s := h) \<and> dlog s' = dlog s @ [(l_start s, h)] \<and> bio_frame s s'"
proof -
  let ?b = "l_start s"
  obtain i s1 where s1: "bread ROOTDEV ?b s = Ok i s1" "bio_ok P [?b \<mapsto> i] s1" "b_data (bufs s1 i) = view s ?b"
    "view s1 = view s" "disk s1 = disk s" "dlog s1 = dlog s" "bio_frame s s1"
    using bread_law[OF assms(1), of ?b] assms(4) by auto
  note f1 = bio_frame_log[OF s1(7)]
  have len: "length h = BSIZE"
    unfolding h_def view_def
    using put_head_read(1)[OF length_bview[OF cache_okD(1)[OF bio_okD(1)[OF assms(1)]]] assms(5,6)] by simp
  let ?s2 = "set_bdata i h s1"
  define H where "H = [?b \<mapsto> i]"
  have Hb: "H ?b = Some i" and ok1: "bio_ok P H s1" using s1(2) by (simp_all add: H_def)
  note s2 = set_bdata_law[OF ok1 Hb len]
  obtain s3 where s3: "bwrite i ?s2 = Ok () s3" "bio_ok P H s3" "view s3 = (view s)(?b := h)"
    "disk s3 = (disk s)(?b := h)" "dlog s3 = dlog s @ [(?b, h)]" "bio_frame ?s2 s3"
    using bwrite_law[OF s2(1) Hb] s2(2,4,5) s1(4-6) by auto
  obtain s4 where s4: "brelse i s3 = Ok () s4" "bio_ok P (H(?b := None)) s4"
    "view s4 = view s3" "disk s4 = disk s3" "dlog s4 = dlog s3" "bio_frame s3 s4"
    using brelse_law[OF s3(2) Hb] s3(3,4) by auto
  have "bio_frame s s4" using s1(7) s2(3) s3(6) s4(6) bio_frame_trans by blast
  moreover have "write_head s = Ok () s4"
    using s1(1,3) s3(1) s4(1) assms(2,6) f1(5,6) by (simp add: write_head_def h_def Let_def)
  ultimately show ?thesis using s4 s3 by (auto simp: H_def)
qed

definition log_pins :: "'a logging_scheme \<Rightarrow> nat set" where
  "log_pins s = set (take (nat (lh_n s)) (lh_block s))"

text \<open>The log area is the header block and the \<open>LOGBLOCKS\<close> blocks after it.\<close>

definition log_area :: "nat \<Rightarrow> nat set" where
  "log_area st = {st..st + LOGBLOCKS}"

definition log_wf :: "'a logging_scheme \<Rightarrow> bool" where
  "log_wf s \<longleftrightarrow> length (lh_block s) = LOGBLOCKS \<and> 0 \<le> lh_n s \<and> lh_n s \<le> int LOGBLOCKS \<and> l_dev s = ROOTDEV \<and>
     distinct (take (nat (lh_n s)) (lh_block s)) \<and>
     (\<forall>b \<in> log_pins s. b \<notin> log_area (l_start s) \<and> b < 2 ^ 32)"

lemma log_wf_nth:
  assumes "log_wf s" "i < nat (lh_n s)"
  shows "i < length (lh_block s)" "lh_block s ! i \<in> log_pins s" "l_start s + i + 1 \<notin> log_pins s"
    "l_start s + i + 1 \<in> log_area (l_start s)" "lh_block s ! i \<notin> log_area (l_start s)" "lh_block s ! i < 2 ^ 32"
proof -
  show i: "i < length (lh_block s)" using assms by (auto simp: log_wf_def)
  then show m: "lh_block s ! i \<in> log_pins s"
    using assms(2) unfolding log_pins_def in_set_conv_nth by (intro exI[of _ i]) simp
  show a: "l_start s + i + 1 \<in> log_area (l_start s)" using assms by (auto simp: log_area_def log_wf_def)
  then show "l_start s + i + 1 \<notin> log_pins s" using assms(1) by (auto simp: log_wf_def)
  show "lh_block s ! i \<notin> log_area (l_start s)" "lh_block s ! i < 2 ^ 32"
    using m assms(1) by (auto simp: log_wf_def)
qed

lemma card_log_pins: "log_wf s \<Longrightarrow> card (log_pins s) = nat (lh_n s)"
  using distinct_card[of "take (nat (lh_n s)) (lh_block s)"]
  by (auto simp: log_pins_def log_wf_def min_absorb2 nat_le_iff)

definition log_copies :: "nat \<Rightarrow> 'a logging_scheme \<Rightarrow> (nat \<times> byte list) list" where
  "log_copies k s = map (\<lambda>i. (l_start s + i + 1, view s (lh_block s ! i))) [0..<k]"

definition home_copies :: "nat \<Rightarrow> 'a logging_scheme \<Rightarrow> (nat \<times> byte list) list" where
  "home_copies k s = map (\<lambda>i. (lh_block s ! i, view s (l_start s + i + 1))) [0..<k]"

lemma write_log_loop:
  assumes "log_wf s" "bio_ok (log_pins s) Map.empty s" "nat (lh_n s) < NBUF" "k \<le> nat (lh_n s)"
  shows "\<exists>s'. foreach [0..<k] write_log_one s = Ok () s' \<and> bio_ok (log_pins s) Map.empty s' \<and>
    view s' = writes (log_copies k s) (view s) \<and> disk s' = writes (log_copies k s) (disk s) \<and>
    dlog s' = dlog s @ log_copies k s \<and> bio_frame s s'"
  using assms(4)
proof (induction k)
  case 0
  then show ?case using assms(2) by (simp add: log_copies_def)
next
  case (Suc k)
  then obtain t where IH: "foreach [0..<k] write_log_one s = Ok () t" "bio_ok (log_pins s) Map.empty t"
    "view t = writes (log_copies k s) (view s)" "disk t = writes (log_copies k s) (disk s)"
    "dlog t = dlog s @ log_copies k s" "bio_frame s t"
    by (meson Suc_leD)
  note f = bio_frame_log[OF IH(6)] and w = log_wf_nth[OF assms(1), of k]
  have k: "k < nat (lh_n s)" using Suc.prems by simp
  have "view t (lh_block s ! k) = view s (lh_block s ! k)"
  proof -
    have "lh_block s ! k \<notin> fst ` set (log_copies k s)"
      using log_wf_nth[OF assms(1)] k by (auto simp: log_copies_def)
        (metis less_trans)
    then show ?thesis using IH(3) writes_notin by simp
  qed
  then obtain s' where s': "write_log_one k t = Ok () s'" "bio_ok (log_pins s) Map.empty s'"
    "view s' = (view t)(l_start s + k + 1 := view s (lh_block s ! k))"
    "disk s' = (disk t)(l_start s + k + 1 := view s (lh_block s ! k))"
    "dlog s' = dlog t @ [(l_start s + k + 1, view s (lh_block s ! k))]" "bio_frame t s'"
    using write_log_one_law[OF IH(2), of k] w[OF k] f(1,4,6) assms(1,3) card_log_pins[OF assms(1)]
    by (auto simp: log_wf_def)
  have "log_copies (Suc k) s = log_copies k s @ [(l_start s + k + 1, view s (lh_block s ! k))]"
    by (simp add: log_copies_def)
  moreover have "foreach [0..<Suc k] write_log_one s = Ok () s'" using IH(1) s'(1) by (simp add: foreach_append)
  ultimately show ?case using s' IH bio_frame_trans[OF IH(6) s'(6)] by auto
qed

lemma install_loop:
  assumes "length (lh_block s) = LOGBLOCKS" "k \<le> LOGBLOCKS" "l_dev s = ROOTDEV"
    and blks: "\<And>i. i < k \<Longrightarrow> lh_block s ! i \<notin> log_area (l_start s)"
    and ok: "bio_ok P Map.empty s" "card P < NBUF" "P \<inter> log_area (l_start s) = {}"
    and rec: "if recovering then P = {} else distinct (take k (lh_block s)) \<and> set (take k (lh_block s)) \<subseteq> P"
    and clean: "\<And>b. b \<in> log_area (l_start s) \<Longrightarrow> view s b = disk s b"
  shows "\<exists>s'. foreach [0..<k] (install_one recovering) s = Ok () s' \<and>
    bio_ok (P - set (take k (lh_block s))) Map.empty s' \<and>
    view s' = writes (home_copies k s) (view s) \<and> disk s' = writes (home_copies k s) (disk s) \<and>
    dlog s' = dlog s @ home_copies k s \<and> bio_frame s s'"
  using assms(2) blks rec
proof (induction k)
  case 0
  then show ?case using ok by (simp add: home_copies_def)
next
  case (Suc k)
  have tk: "take (Suc k) (lh_block s) = take k (lh_block s) @ [lh_block s ! k]"
    using Suc.prems(1) assms(1) by (simp add: take_Suc_conv_app_nth)
  have r: "if recovering then P = {} else distinct (take k (lh_block s)) \<and> set (take k (lh_block s)) \<subseteq> P"
    using Suc.prems(3) unfolding tk by (simp split: if_splits)
  obtain t where IH: "foreach [0..<k] (install_one recovering) s = Ok () t"
    "bio_ok (P - set (take k (lh_block s))) Map.empty t"
    "view t = writes (home_copies k s) (view s)" "disk t = writes (home_copies k s) (disk s)"
    "dlog t = dlog s @ home_copies k s" "bio_frame s t"
    using Suc.IH[OF _ _ r] Suc.prems(1,2) by (meson Suc_leD less_SucI)
  note f = bio_frame_log[OF IH(6)]
  let ?lb = "l_start s + k + 1" and ?Q = "P - set (take k (lh_block s))"
  have la: "?lb \<in> log_area (l_start s)" using Suc.prems(1) by (simp add: log_area_def)
  have nw: "?lb \<notin> fst ` set (home_copies k s)"
  proof
    assume "?lb \<in> fst ` set (home_copies k s)"
    then obtain i where "i < k" "lh_block s ! i = ?lb" by (auto simp: home_copies_def)
    then show False using Suc.prems(2)[of i] la by simp
  qed
  have v: "view t ?lb = view s ?lb" "view t ?lb = disk t ?lb"
    using IH(3,4) writes_notin[OF nw] clean[OF la] by simp_all
  have card: "card ?Q < NBUF"
    using ok(2) card_mono[of P ?Q] cache_okD(2)[OF bio_okD(1)[OF ok(1)]] by auto
  have ne: "?lb \<notin> ?Q" "?lb \<noteq> lh_block s ! k" using ok(3) la Suc.prems(2)[of k] by auto
  have rec': "if recovering then ?Q = {} else lh_block t ! k \<in> ?Q" using Suc.prems(3) unfolding tk f(6) by (simp split: if_splits)
  have pre: "k < length (lh_block t)" "l_dev t = ROOTDEV" "l_start t + k + 1 \<notin> ?Q"
    "l_start t + k + 1 \<noteq> lh_block t ! k" "view t (l_start t + k + 1) = disk t (l_start t + k + 1)"
    using Suc.prems(1) assms(1,3) ne v unfolding f by simp_all
  obtain s' where s': "install_one recovering k t = Ok () s'" "bio_ok (?Q - {lh_block s ! k}) Map.empty s'"
    "view s' = (view t)(lh_block s ! k := view s ?lb)" "disk s' = (disk t)(lh_block s ! k := view s ?lb)"
    "dlog s' = dlog t @ [(lh_block s ! k, view s ?lb)]" "bio_frame t s'"
    using install_one_law[OF IH(2) pre(1-4) card rec' pre(5)] unfolding f(1,6) v(1) by blast
  have "home_copies (Suc k) s = home_copies k s @ [(lh_block s ! k, view s ?lb)]"
    by (simp add: home_copies_def)
  moreover have "foreach [0..<Suc k] (install_one recovering) s = Ok () s'"
    using IH(1) s'(1) by (simp add: foreach_append)
  moreover have "P - set (take (Suc k) (lh_block s)) = ?Q - {lh_block s ! k}" by (auto simp: tk)
  ultimately show ?case using s' IH(3-5) bio_frame_trans[OF IH(6) s'(6)] by (intro exI[of _ s']) simp
qed

lemma writes_map:
  assumes "inj_on f {..<k}" "j < k"
  shows "writes (map (\<lambda>i. (f i, g i)) [0..<k]) d (f j) = g j"
  using assms
proof (induction k)
  case (Suc k)
  have "inj_on f {..<k}" using Suc.prems(1) by (rule inj_on_subset) auto
  moreover have "f j \<noteq> f k" if "j < k" using Suc.prems that by (auto dest: inj_onD)
  ultimately show ?case using Suc by (cases "j = k") auto
qed simp

section \<open>Commit\<close>

text \<open>The disk writes of \<open>commit\<close>, in order: log blocks, header, home blocks, cleared header.\<close>

definition commit_writes :: "'a logging_scheme \<Rightarrow> (nat \<times> byte list) list" where
  "commit_writes s =
     (let n = nat (lh_n s); h = put_head (lh_n s) (lh_block s) (view s (l_start s)) in
      log_copies n s @ [(l_start s, h)] @
      map (\<lambda>i. (lh_block s ! i, view s (lh_block s ! i))) [0..<n] @ [(l_start s, put_head 0 (lh_block s) h)])"

lemma log_copies_area:
  "b \<in> fst ` set (log_copies k s) \<Longrightarrow> k \<le> LOGBLOCKS \<Longrightarrow> b \<in> log_area (l_start s) \<and> b \<noteq> l_start s"
  by (auto simp: log_copies_def log_area_def)

definition unlogged_clean :: "'a logging_scheme \<Rightarrow> bool" where
  "unlogged_clean s \<longleftrightarrow> (\<forall>b. b \<notin> log_pins s \<longrightarrow> view s b = disk s b)"

lemma commit_law:
  assumes "log_wf s" "bio_ok (log_pins s) Map.empty s" "unlogged_clean s" "0 < lh_n s" "lh_n s < int NBUF"
  shows "\<exists>s'. commit s = Ok () s' \<and> bio_ok {} Map.empty s' \<and> view s' = disk s' \<and>
    disk s' = writes (commit_writes s) (disk s) \<and> dlog s' = dlog s @ commit_writes s \<and>
    lh_n s' = 0 \<and> l_outstanding s' = l_outstanding s \<and> l_committing s' = l_committing s \<and>
    lh_block s' = lh_block s \<and> log_frame s s'"
proof -
  let ?n = "nat (lh_n s)" and ?st = "l_start s" and ?P = "log_pins s"
  note nth = log_wf_nth[OF assms(1)]
  have n: "?n < NBUF" "?n \<le> LOGBLOCKS" "0 \<le> lh_n s" "lh_n s \<le> int LOGBLOCKS" "length (lh_block s) = LOGBLOCKS"
    using assms(1,5) by (auto simp: log_wf_def)
  have disj: "?P \<inter> log_area ?st = {}" and st: "?st \<in> log_area ?st"
    using assms(1) by (auto simp: log_wf_def log_area_def)
  obtain s1 where s1: "write_log s = Ok () s1" "bio_ok ?P Map.empty s1"
    "view s1 = writes (log_copies ?n s) (view s)" "disk s1 = writes (log_copies ?n s) (disk s)"
    "dlog s1 = dlog s @ log_copies ?n s" "bio_frame s s1"
    using write_log_loop[OF assms(1,2) n(1) order_refl] by (auto simp: write_log_def)
  note f1 = bio_frame_log[OF s1(6)]
  have stv: "view s1 ?st = view s ?st"
    using s1(3) writes_notin log_copies_area[OF _ n(2)] by metis
  define h where "h = put_head (lh_n s) (lh_block s) (view s ?st)"
  obtain s2 where s2: "write_head s1 = Ok () s2" "bio_ok ?P Map.empty s2" "view s2 = (view s1)(?st := h)"
    "disk s2 = (disk s1)(?st := h)" "dlog s2 = dlog s1 @ [(?st, h)]" "bio_frame s1 s2"
    using write_head_law[OF s1(2)] n disj st card_log_pins[OF assms(1)] assms(1) stv
    unfolding f1 h_def by (auto simp: log_wf_def)
  have fr2: "bio_frame s s2" using bio_frame_trans[OF s1(6) s2(6)] .
  note f2 = bio_frame_log[OF fr2]
  have logv: "view s2 (?st + i + 1) = view s (lh_block s ! i)" if "i < ?n" for i
  proof -
    have "view s2 (?st + i + 1) = writes (log_copies ?n s) (view s) (?st + i + 1)" using s2(3) s1(3) by simp
    also have "\<dots> = view s (lh_block s ! i)"
      unfolding log_copies_def using that by (intro writes_map) (auto intro: inj_onI)
    finally show ?thesis .
  qed
  have clean2: "view s2 b = disk s2 b" if "b \<in> log_area ?st" for b
  proof -
    have "b \<notin> ?P" using that disj by auto
    then have eq: "view s b = disk s b" using assms(3) by (simp add: unlogged_clean_def)
    then have "writes (log_copies ?n s) (view s) b = writes (log_copies ?n s) (disk s) b"
      by (rule writes_cong_at)
    then show ?thesis using s1(3,4) s2(3,4) by simp
  qed
  let ?H = "map (\<lambda>i. (lh_block s ! i, view s (lh_block s ! i))) [0..<?n]"
  have hc: "home_copies ?n s2 = ?H" using logv by (simp add: home_copies_def f2)
  have pins: "distinct (take ?n (lh_block s)) \<and> set (take ?n (lh_block s)) \<subseteq> ?P"
    using assms(1) by (simp add: log_wf_def log_pins_def)
  have blks: "\<And>i. i < ?n \<Longrightarrow> lh_block s2 ! i \<notin> log_area (l_start s2)" using nth(5) unfolding f2 .
  have "\<exists>s'. foreach [0..<?n] (install_one False) s2 = Ok () s' \<and>
    bio_ok (?P - set (take ?n (lh_block s2))) Map.empty s' \<and>
    view s' = writes (home_copies ?n s2) (view s2) \<and> disk s' = writes (home_copies ?n s2) (disk s2) \<and>
    dlog s' = dlog s2 @ home_copies ?n s2 \<and> bio_frame s2 s'"
    using n pins disj clean2 card_log_pins[OF assms(1)] assms(1) s2(2) blks
    by (intro install_loop) (simp_all add: f2 log_wf_def)
  then obtain s3 where s3: "install_trans False s2 = Ok () s3" "bio_ok {} Map.empty s3"
    "view s3 = writes ?H (view s2)" "disk s3 = writes ?H (disk s2)" "dlog s3 = dlog s2 @ ?H" "bio_frame s2 s3"
    unfolding hc by (auto simp: install_trans_def f2 log_pins_def)
  have fr3: "bio_frame s s3" using bio_frame_trans[OF fr2 s3(6)] .
  note f3 = bio_frame_log[OF fr3]
  have stv3: "view s3 ?st = h"
  proof -
    have "?st \<notin> fst ` set ?H" using nth(5) st by auto
    then show ?thesis using s3(3) s2(3) writes_notin by simp
  qed
  define h' where "h' = put_head 0 (lh_block s) h"
  obtain s4 where s4: "write_head (s3\<lparr>lh_n := 0\<rparr>) = Ok () s4" "bio_ok {} Map.empty s4" "view s4 = (view s3)(?st := h')"
    "disk s4 = (disk s3)(?st := h')" "dlog s4 = dlog s3 @ [(?st, h')]" "bio_frame (s3\<lparr>lh_n := 0\<rparr>) s4"
    using write_head_law[of "{}" "s3\<lparr>lh_n := 0\<rparr>"] s3(2) f3 stv3 assms(1)
    by (auto simp: log_wf_def h'_def)
  have cw: "commit_writes s = log_copies ?n s @ [(?st, h)] @ ?H @ [(?st, h')]"
    by (simp add: commit_writes_def h_def h'_def Let_def)
  have dl: "dlog s4 = dlog s @ commit_writes s" "disk s4 = writes (commit_writes s) (disk s)"
    using s4(4,5) s3(4,5) s2(4,5) s1(4,5) by (simp_all add: cw)
  have "view s4 = writes (commit_writes s) (view s)"
    using s4(3) s3(3) s2(3) s1(3) by (simp add: cw)
  also have "\<dots> = writes (commit_writes s) (disk s)"
  proof
    fix b
    show "writes (commit_writes s) (view s) b = writes (commit_writes s) (disk s) b"
    proof (cases "b \<in> ?P")
      case False
      then have "view s b = disk s b" using assms(3) by (simp add: unlogged_clean_def)
      then show ?thesis by (rule writes_cong_at)
    next
      case True
      then obtain i where i: "i < ?n" "b = lh_block s ! i"
        using n by (auto simp: log_pins_def in_set_conv_nth)
      have inj: "inj_on (\<lambda>i. lh_block s ! i) {..<?n}"
        using pins n by (auto simp: inj_on_def distinct_conv_nth)
      have "writes ?H d b = view s b" for d
        using writes_map[OF inj i(1), of "\<lambda>i. view s (lh_block s ! i)"] i(2) by simp
      then show ?thesis by (simp add: cw)
    qed
  qed
  finally have vd: "view s4 = disk s4" using dl(2) by simp
  have fr: "log_frame s s4"
    using log_frame_trans[OF bio_log_frame[OF fr3]] bio_log_frame[OF s4(6)] by simp
  have "commit s = Ok () s4" using s1(1) s2(1) s3(1) s4(1) assms(4) by (simp add: commit_def)
  moreover have "lh_n s4 = 0" "l_outstanding s4 = l_outstanding s" "l_committing s4 = l_committing s"
    "lh_block s4 = lh_block s"
    using bio_frame_log(2,3,5,6)[OF s4(6)] f3(2,3,6) by simp_all
  ultimately show ?thesis using s4(2) vd dl fr by (intro exI[of _ s4]) simp
qed

section \<open>Recovery\<close>

text \<open>The disk writes of \<open>recover_from_log\<close> on a disk \<open>d\<close> whose log starts at block \<open>st\<close>.\<close>

definition recover_writes :: "nat \<Rightarrow> (nat \<Rightarrow> byte list) \<Rightarrow> (nat \<times> byte list) list" where
  "recover_writes st d =
     map (\<lambda>i. (head_block i (d st), d (st + i + 1))) [0..<nat (head_n (d st))] @ [(st, put_head 0 [] (d st))]"

definition head_wf :: "nat \<Rightarrow> (nat \<Rightarrow> byte list) \<Rightarrow> bool" where
  "head_wf st d \<longleftrightarrow> 0 \<le> head_n (d st) \<and> head_n (d st) \<le> int LOGBLOCKS \<and>
     (\<forall>i < nat (head_n (d st)). head_block i (d st) \<notin> log_area st)"

lemma read_head_law:
  assumes "bio_ok {} Map.empty s" "l_dev s = ROOTDEV" "view s = disk s" "head_n (disk s (l_start s)) \<le> int LOGBLOCKS"
  shows "\<exists>s' bl. read_head s = Ok () s' \<and> bio_ok {} Map.empty s' \<and> view s' = disk s \<and> disk s' = disk s \<and>
    dlog s' = dlog s \<and> lh_n s' = head_n (disk s (l_start s)) \<and> lh_block s' = bl \<and> length bl = LOGBLOCKS \<and>
    (\<forall>i < nat (lh_n s'). bl ! i = head_block i (disk s (l_start s))) \<and> log_frame s s' \<and>
    l_outstanding s' = l_outstanding s \<and> l_committing s' = l_committing s"
proof -
  let ?b = "l_start s" and ?d = "disk s (l_start s)"
  obtain i s1 where s1: "bread ROOTDEV ?b s = Ok i s1" "bio_ok {} [?b \<mapsto> i] s1" "b_data (bufs s1 i) = ?d"
    "view s1 = disk s" "disk s1 = disk s" "dlog s1 = dlog s" "bio_frame s s1"
    using bread_law[OF assms(1), of ?b] assms(3) by (auto simp: NBUF_numeral)
  let ?bl = "map (\<lambda>i. if i < nat (head_n ?d) then head_block i ?d else lh_block s1 ! i) [0..<LOGBLOCKS]"
  let ?s2 = "s1\<lparr>lh_n := head_n ?d, lh_block := ?bl\<rparr>"
  define H where "H = [?b \<mapsto> i]"
  have H: "H ?b = Some i" "bio_ok {} H ?s2" "H(?b := None) = Map.empty" using s1(2) by (auto simp: H_def)
  obtain s3 where s3: "brelse i ?s2 = Ok () s3" "bio_ok {} (H(?b := None)) s3" "view s3 = disk s"
    "disk s3 = disk s" "dlog s3 = dlog s" "bio_frame ?s2 s3"
    using brelse_law[OF H(2,1)] s1(4-6) by auto
  note f1 = bio_frame_log(2,3)[OF s1(7)] and f3 = bio_frame_log(5,6)[OF s3(6)]
  have "l_outstanding s3 = l_outstanding s" "l_committing s3 = l_committing s"
    using bio_frame_log(2,3)[OF s3(6)] f1 by simp_all
  moreover
  have "read_head s = Ok () s3" using s1(1,3) s3(1) assms(2,4) by (simp add: read_head_def Let_def cong: if_cong)
  moreover have "log_frame s s3"
    using log_frame_trans[OF bio_log_frame[OF s1(7)]] bio_log_frame[OF s3(6)] by simp
  moreover have "lh_n s3 = head_n ?d" "lh_block s3 = ?bl" using f3 by simp_all
  moreover have "\<forall>i < nat (head_n ?d). ?bl ! i = head_block i ?d" using assms(4) by auto
  ultimately show ?thesis using s3(2-5) unfolding H(3) by (intro exI[of _ s3] exI[of _ ?bl]) simp
qed

lemma recover_law:
  assumes "bio_ok {} Map.empty s" "l_dev s = ROOTDEV" "view s = disk s" "head_wf (l_start s) (disk s)"
  shows "\<exists>s'. recover_from_log s = Ok () s' \<and> bio_ok {} Map.empty s' \<and> view s' = disk s' \<and>
    disk s' = writes (recover_writes (l_start s) (disk s)) (disk s) \<and>
    lh_n s' = 0 \<and> length (lh_block s') = LOGBLOCKS \<and> log_frame s s' \<and>
    l_outstanding s' = l_outstanding s \<and> l_committing s' = l_committing s"
proof -
  let ?st = "l_start s" and ?d = "disk s" and ?n = "nat (head_n (disk s (l_start s)))"
  have hn: "0 \<le> head_n (?d ?st)" "head_n (?d ?st) \<le> int LOGBLOCKS" using assms(4) by (auto simp: head_wf_def)
  obtain s1 bl where s1: "read_head s = Ok () s1" "bio_ok {} Map.empty s1" "view s1 = ?d" "disk s1 = ?d"
    "dlog s1 = dlog s" "lh_n s1 = head_n (?d ?st)" "lh_block s1 = bl" "length bl = LOGBLOCKS"
    "\<forall>i < nat (lh_n s1). bl ! i = head_block i (?d ?st)" "log_frame s s1"
    "l_outstanding s1 = l_outstanding s" "l_committing s1 = l_committing s"
    using read_head_law[OF assms(1-3) hn(2)] by blast
  have f1: "l_start s1 = ?st" "l_dev s1 = ROOTDEV" using s1(10) assms(2) by (auto simp: log_frame_def)
  have blks: "\<And>i. i < ?n \<Longrightarrow> lh_block s1 ! i \<notin> log_area (l_start s1)"
    using assms(4) s1(6,7,9) f1(1) by (simp add: head_wf_def)
  have "\<exists>s'. foreach [0..<?n] (install_one True) s1 = Ok () s' \<and>
    bio_ok ({} - set (take ?n (lh_block s1))) Map.empty s' \<and>
    view s' = writes (home_copies ?n s1) (view s1) \<and> disk s' = writes (home_copies ?n s1) (disk s1) \<and>
    dlog s' = dlog s1 @ home_copies ?n s1 \<and> bio_frame s1 s'"
    by (rule install_loop[OF _ _ f1(2) blks s1(2)])
      (use hn s1(3,4,7,8) in \<open>simp_all add: NBUF_numeral nat_le_iff\<close>)
  then obtain s2 where s2: "install_trans True s1 = Ok () s2" "bio_ok {} Map.empty s2"
    "view s2 = writes (home_copies ?n s1) ?d" "disk s2 = writes (home_copies ?n s1) ?d" "bio_frame s1 s2"
    unfolding s1(3,4) install_trans_def s1(6) by auto
  note f2 = bio_frame_log[OF s2(5)]
  have hc: "home_copies ?n s1 = map (\<lambda>i. (head_block i (?d ?st), ?d (?st + i + 1))) [0..<?n]"
    using s1(3,6,7,9) f1(1) by (simp add: home_copies_def)
  have "?st \<in> log_area ?st" by (simp add: log_area_def)
  then have "?st \<notin> fst ` set (home_copies ?n s1)"
    using blks f1(1) unfolding home_copies_def by auto
  then have stv: "view s2 ?st = ?d ?st" using s2(3) writes_notin by simp
  have ph: "put_head 0 bl' = put_head 0 []" for bl' by (simp add: put_head_def fun_eq_iff)
  obtain s3 where s3: "write_head (s2\<lparr>lh_n := 0\<rparr>) = Ok () s3" "bio_ok {} Map.empty s3"
    "view s3 = (view s2)(?st := put_head 0 [] (?d ?st))" "disk s3 = (disk s2)(?st := put_head 0 [] (?d ?st))"
    "bio_frame (s2\<lparr>lh_n := 0\<rparr>) s3"
    using write_head_law[of "{}" "s2\<lparr>lh_n := 0\<rparr>"] s2(2) f2(1,4,6) f1 stv s1(7)
    by (auto simp: NBUF_numeral ph[of bl])
  have "recover_from_log s = Ok () s3" using s1(1) s2(1) s3(1) by (simp add: recover_from_log_def)
  moreover have "disk s3 = writes (recover_writes ?st ?d) ?d" "view s3 = disk s3"
    using s3(3,4) s2(3,4) hc by (simp_all add: recover_writes_def)
  moreover have "log_frame s s3"
    using log_frame_trans[OF log_frame_trans[OF s1(10) bio_log_frame[OF s2(5)]]] bio_log_frame[OF s3(5)] by simp
  moreover have "lh_n s3 = 0" "length (lh_block s3) = LOGBLOCKS" "l_outstanding s3 = l_outstanding s"
    "l_committing s3 = l_committing s"
    using bio_frame_log(2,3,5,6)[OF s3(5)] f2(2,3,6) s1(7,8,11,12) by simp_all
  ultimately show ?thesis using s3(2) by (intro exI[of _ s3]) simp
qed

lemma bio_ok_initlock: "bio_ok P H s \<Longrightarrow> bio_ok P H (initlock l n s)"
  using quiet_initlock[of s l n]
  by (simp add: bio_ok_def) (simp add: initlock_def)

section \<open>Crashes during commit\<close>

definition home_writes :: "'a logging_scheme \<Rightarrow> (nat \<times> byte list) list" where
  "home_writes s = map (\<lambda>i. (lh_block s ! i, view s (lh_block s ! i))) [0..<nat (lh_n s)]"

lemma commit_writes_split:
  fixes s :: "'a logging_scheme"
  defines "n \<equiv> nat (lh_n s)" and "h \<equiv> put_head (lh_n s) (lh_block s) (view s (l_start s))"
  shows "k \<le> n \<Longrightarrow> take k (commit_writes s) = take k (log_copies n s)"
    "n < k \<Longrightarrow> k \<le> 2 * n + 1 \<Longrightarrow>
      take k (commit_writes s) = log_copies n s @ (l_start s, h) # take (k - n - 1) (home_writes s)"
    "2 * n + 1 < k \<Longrightarrow> take k (commit_writes s) =
      log_copies n s @ (l_start s, h) # home_writes s @ [(l_start s, put_head 0 (lh_block s) h)]"
proof -
  have len: "length (log_copies n s) = n" "length (home_writes s) = n"
    by (simp_all add: log_copies_def home_writes_def n_def)
  have cw: "commit_writes s =
      log_copies n s @ (l_start s, h) # home_writes s @ [(l_start s, put_head 0 (lh_block s) h)]"
    by (simp add: commit_writes_def home_writes_def n_def h_def Let_def)
  show "k \<le> n \<Longrightarrow> take k (commit_writes s) = take k (log_copies n s)"
    by (simp add: cw len)
  show "n < k \<Longrightarrow> k \<le> 2 * n + 1 \<Longrightarrow>
      take k (commit_writes s) = log_copies n s @ (l_start s, h) # take (k - n - 1) (home_writes s)"
    by (cases "k - n") (auto simp: cw len)
  show "2 * n + 1 < k \<Longrightarrow> take k (commit_writes s) =
      log_copies n s @ (l_start s, h) # home_writes s @ [(l_start s, put_head 0 (lh_block s) h)]"
    by (simp add: cw len)
qed

lemma home_writes_at:
  assumes "log_wf s"
  shows "b \<in> log_pins s \<Longrightarrow> writes (home_writes s) d b = view s b"
    "b \<notin> log_pins s \<Longrightarrow> writes (take j (home_writes s)) d b = d b"
    "d b = view s b \<Longrightarrow> writes (take j (home_writes s)) d b = view s b"
proof -
  let ?n = "nat (lh_n s)"
  have n: "?n \<le> length (lh_block s)" "distinct (take ?n (lh_block s))" using assms by (auto simp: log_wf_def)
  have inj: "inj_on (\<lambda>i. lh_block s ! i) {..<?n}" using n by (auto simp: inj_on_def distinct_conv_nth)
  show "writes (home_writes s) d b = view s b" if pin: "b \<in> log_pins s"
  proof -
    obtain i where "i < ?n" "b = lh_block s ! i" using pin n by (auto simp: log_pins_def in_set_conv_nth)
    then show ?thesis
      unfolding home_writes_def using writes_map[OF inj, of i "\<lambda>i. view s (lh_block s ! i)"] by simp
  qed
  have mem: "w \<in> set (take j (home_writes s)) \<Longrightarrow> fst w \<in> log_pins s \<and> snd w = view s (fst w)" for w j
    using log_wf_nth(2)[OF assms] by (auto simp: home_writes_def dest!: in_set_takeD)
  show "writes (take j (home_writes s)) d b = d b" if "b \<notin> log_pins s"
    using that mem by (intro writes_notin) auto
  have gen: "d b = view s b \<Longrightarrow> \<forall>w \<in> set ws. snd w = view s (fst w) \<Longrightarrow> writes ws d b = view s b" for ws d
    by (induction ws arbitrary: d) auto
  show "d b = view s b \<Longrightarrow> writes (take j (home_writes s)) d b = view s b"
    using mem by (intro gen) auto
qed

lemma log_copies_at:
  assumes "log_wf s"
  shows "b \<notin> log_area (l_start s) \<Longrightarrow> writes (take k (log_copies (nat (lh_n s)) s)) d b = d b"
    "writes (take k (log_copies (nat (lh_n s)) s)) d (l_start s) = d (l_start s)"
    "i < nat (lh_n s) \<Longrightarrow> writes (log_copies (nat (lh_n s)) s) d (l_start s + i + 1) = view s (lh_block s ! i)"
proof -
  have n: "nat (lh_n s) \<le> LOGBLOCKS" using assms by (auto simp: log_wf_def)
  have sub: "fst ` set (take k (log_copies (nat (lh_n s)) s)) \<subseteq> fst ` set (log_copies (nat (lh_n s)) s)"
    by (intro image_mono set_take_subset)
  show "b \<notin> log_area (l_start s) \<Longrightarrow> writes (take k (log_copies (nat (lh_n s)) s)) d b = d b"
    using log_copies_area[OF _ n] sub by (intro writes_notin) blast
  show "writes (take k (log_copies (nat (lh_n s)) s)) d (l_start s) = d (l_start s)"
    using log_copies_area[OF _ n] sub by (intro writes_notin) blast
  show "i < nat (lh_n s) \<Longrightarrow> writes (log_copies (nat (lh_n s)) s) d (l_start s + i + 1) = view s (lh_block s ! i)"
    unfolding log_copies_def by (intro writes_map) (auto intro: inj_onI)
qed

text \<open>The disk after a crash that let \<open>k\<close> of the writes of \<open>commit\<close> through, and after recovery.\<close>

lemma crash_recover:
  fixes s :: "'a logging_scheme" and k :: nat
  assumes "log_wf s" "unlogged_clean s" "length (view s (l_start s)) = BSIZE" "head_n (disk s (l_start s)) = 0"
  defines "d \<equiv> writes (take k (commit_writes s)) (disk s)"
  shows "head_wf (l_start s) d"
    "b \<notin> log_area (l_start s) \<Longrightarrow> writes (recover_writes (l_start s) d) d b =
       (if k \<le> nat (lh_n s) then disk s b else view s b)"
proof -
  let ?st = "l_start s" and ?n = "nat (lh_n s)"
  let ?h = "put_head (lh_n s) (lh_block s) (view s ?st)"
  have n: "0 \<le> lh_n s" "lh_n s \<le> int LOGBLOCKS" using assms(1) by (auto simp: log_wf_def)
  note nth = log_wf_nth[OF assms(1)] and ph = put_head_read[OF assms(3) n]
  have st: "?st \<in> log_area ?st" by (simp add: log_area_def)
  have stp: "?st \<notin> log_pins s" using st assms(1) by (auto simp: log_wf_def)
  have clean: "b \<notin> log_pins s \<Longrightarrow> view s b = disk s b" for b using assms(2) by (simp add: unlogged_clean_def)
  have keep: "writes (recover_writes ?st d) d b = d b" if "head_n (d ?st) = 0" "b \<noteq> ?st" for b
    using that by (simp add: recover_writes_def)
  have "head_wf ?st d \<and> (b \<notin> log_area ?st \<longrightarrow> writes (recover_writes ?st d) d b =
      (if k \<le> ?n then disk s b else view s b))"
  proof (cases "k \<le> ?n")
    case True
    then have d: "d = writes (take k (log_copies ?n s)) (disk s)" by (simp add: d_def commit_writes_split)
    have "d ?st = disk s ?st" unfolding d by (rule log_copies_at(2)[OF assms(1)])
    then have z: "head_n (d ?st) = 0" using assms(4) by simp
    have "d b = disk s b" if "b \<notin> log_area ?st" unfolding d using that by (rule log_copies_at(1)[OF assms(1)])
    moreover have "b \<noteq> ?st" if "b \<notin> log_area ?st" using that st by auto
    ultimately show ?thesis using True z keep[OF z, of b] by (simp add: head_wf_def)
  next
    case k1: False
    let ?d1 = "(writes (log_copies ?n s) (disk s))(?st := ?h)"
    have d1b: "?d1 b = disk s b" if "b \<notin> log_area ?st" for b
      using log_copies_at(1)[OF assms(1) that, of ?n] that st by (auto simp: log_copies_def)
    show ?thesis
    proof (cases "k \<le> 2 * ?n + 1")
      case True
      then have d: "d = writes (take (k - ?n - 1) (home_writes s)) ?d1"
        using k1 by (simp add: d_def commit_writes_split)
      have dst: "d ?st = ?h" unfolding d using home_writes_at(2)[OF assms(1) stp] by simp
      have hn: "head_n (d ?st) = lh_n s" using dst ph(2) by simp
      have hb: "head_block i (d ?st) = lh_block s ! i" if "i < ?n" for i
        using that ph(3)[of i] nth(6)[OF that] dst by (simp add: zless_nat_eq_int_zless)
      have lb: "d (?st + i + 1) = view s (lh_block s ! i)" if "i < ?n" for i
        unfolding d using home_writes_at(2)[OF assms(1) nth(3)[OF that]] log_copies_at(3)[OF assms(1) that] by simp
      have rw: "recover_writes ?st d = home_writes s @ [(?st, put_head 0 [] ?h)]"
        using hb lb ph(2) by (simp add: recover_writes_def dst home_writes_def)
      have "writes (recover_writes ?st d) d b = view s b" if "b \<notin> log_area ?st"
      proof -
        have "writes (recover_writes ?st d) d b = writes (home_writes s) d b" using that st by (auto simp: rw)
        also have "\<dots> = view s b"
        proof (cases "b \<in> log_pins s")
          case True
          then show ?thesis by (rule home_writes_at(1)[OF assms(1)])
        next
          case False
          have "writes (home_writes s) d b = d b"
            using home_writes_at(2)[OF assms(1) False, of ?n d] by (simp add: home_writes_def)
          also have "\<dots> = ?d1 b" unfolding d by (rule home_writes_at(2)[OF assms(1) False])
          finally show ?thesis using d1b[OF that] clean[OF False] by simp
        qed
        finally show ?thesis .
      qed
      moreover have "head_wf ?st d" using hn n hb nth(5) by (simp add: head_wf_def)
      ultimately show ?thesis using k1 by simp
    next
      case False
      then have d: "d = (writes (home_writes s) ?d1)(?st := put_head 0 (lh_block s) ?h)"
        by (simp add: d_def commit_writes_split)
      have z: "head_n (d ?st) = 0" using put_head_read(2)[OF ph(1), of 0] by (simp add: d)
      have "d b = view s b" if "b \<notin> log_area ?st"
      proof (cases "b \<in> log_pins s")
        case True
        then show ?thesis using that st home_writes_at(1)[OF assms(1)] by (auto simp: d)
      next
        case nb: False
        have "writes (home_writes s) ?d1 b = ?d1 b"
          using home_writes_at(2)[OF assms(1) nb, of ?n ?d1] by (simp add: home_writes_def)
        then show ?thesis using that st d1b[OF that] clean[OF nb] by (auto simp: d)
      qed
      moreover have "b \<noteq> ?st" if "b \<notin> log_area ?st" using that st by auto
      ultimately show ?thesis using k1 z keep[OF z, of b] by (simp add: head_wf_def)
    qed
  qed
  then show "head_wf ?st d" "b \<notin> log_area ?st \<Longrightarrow> writes (recover_writes ?st d) d b =
      (if k \<le> ?n then disk s b else view s b)" by auto
qed

section \<open>Transactions\<close>

lemma absorb_le: "absorb xs bn \<le> length xs"
  by (induction xs) auto

lemma absorb_eq: "absorb xs bn = length xs \<longleftrightarrow> bn \<notin> set xs"
  by (induction xs) (auto simp: absorb_le)

lemma absorb_nth: "bn \<in> set xs \<Longrightarrow> absorb xs bn < length xs \<and> xs ! absorb xs bn = bn"
  by (induction xs) auto

text \<open>
  The state inside a transaction.  \<open>D\<close> is the set of blocks that are held, modified and not yet
  passed to \<open>log_write\<close>; every block that is neither logged nor in \<open>D\<close> is as on disk.
\<close>

definition log_ok :: "nat set \<Rightarrow> (nat \<rightharpoonup> nat) \<Rightarrow> 'a logging_scheme \<Rightarrow> bool" where
  "log_ok D H s \<longleftrightarrow> log_wf s \<and> bio_ok (log_pins s) H s \<and> 1 \<le> l_outstanding s \<and> \<not> l_committing s \<and>
     D \<subseteq> dom H \<and> (\<forall>b. b \<notin> log_pins s \<union> D \<longrightarrow> view s b = disk s b)"

text \<open>Room for \<open>k\<close> more blocks in the log and for three held buffers in the cache.\<close>

definition log_room :: "nat \<Rightarrow> 'a logging_scheme \<Rightarrow> bool" where
  "log_room k s \<longleftrightarrow> lh_n s + int k \<le> int NBUF - 3"

lemma log_okD:
  assumes "log_ok D H s"
  shows "log_wf s" "bio_ok (log_pins s) H s" "1 \<le> l_outstanding s" "\<not> l_committing s" "D \<subseteq> dom H"
    "b \<notin> log_pins s \<union> D \<Longrightarrow> view s b = disk s b"
  using assms by (auto simp: log_ok_def)

text \<open>Inside a transaction nothing is written to disk.\<close>

definition tx_frame :: "'a logging_scheme \<Rightarrow> 'a logging_scheme \<Rightarrow> bool" where
  "tx_frame s t \<longleftrightarrow> log_frame s t \<and> disk t = disk s \<and> dlog t = dlog s \<and> l_outstanding t = l_outstanding s"

lemma tx_frame_refl [simp]: "tx_frame s s"
  by (simp add: tx_frame_def)

lemma tx_frame_trans [trans]: "tx_frame s t \<Longrightarrow> tx_frame t u \<Longrightarrow> tx_frame s u"
  by (auto simp: tx_frame_def intro: log_frame_trans)

lemma bio_tx_frame: "bio_frame s t \<Longrightarrow> disk t = disk s \<Longrightarrow> dlog t = dlog s \<Longrightarrow> tx_frame s t"
  using bio_frame_log(2)[of s t] bio_log_frame[of s t] by (simp add: tx_frame_def)

lemma log_pins_frame: "bio_frame s t \<Longrightarrow> log_pins t = log_pins s \<and> log_wf t = log_wf s"
  using bio_frame_log[of s t] by (simp add: log_pins_def log_wf_def)

lemma held_le:
  assumes "log_ok D H s" "log_room k s" "card (dom H) \<le> 2"
  shows "card (log_pins s \<union> dom H) < NBUF"
proof -
  have "card (log_pins s \<union> dom H) \<le> card (log_pins s) + card (dom H)" by (rule card_Un_le)
  also have "\<dots> < NBUF"
    using assms(2,3) card_log_pins[OF log_okD(1)[OF assms(1)]] log_okD(1)[OF assms(1)]
    by (simp add: log_room_def log_wf_def NBUF_numeral)
  finally show ?thesis .
qed

lemma log_bread:
  assumes "log_ok D H s" "log_room k s" "H bn = None" "card (dom H) \<le> 2"
  shows "\<exists>i s'. bread ROOTDEV bn s = Ok i s' \<and> log_ok D (H(bn \<mapsto> i)) s' \<and> log_room k s' \<and>
    b_data (bufs s' i) = view s bn \<and> view s' = view s \<and> tx_frame s s'"
proof -
  note ok = log_okD[OF assms(1)]
  obtain i s' where s': "bread ROOTDEV bn s = Ok i s'" "bio_ok (log_pins s) (H(bn \<mapsto> i)) s'"
    "b_data (bufs s' i) = view s bn" "view s' = view s" "disk s' = disk s" "bio_frame s s'" "dlog s' = dlog s"
    using bread_law[OF ok(2) assms(3)] held_le[OF assms(1,2,4)] by blast
  note f = bio_frame_log[OF s'(6)] and p = log_pins_frame[OF s'(6)]
  have "log_ok D (H(bn \<mapsto> i)) s'"
    unfolding log_ok_def using p ok s'(2,4,5) f(2,3) by auto
  then show ?thesis using s' f(5) assms(2) bio_tx_frame[OF s'(6,5,7)] by (auto simp: log_room_def)
qed

lemma log_set_bdata:
  assumes "log_ok D H s" "H bn = Some i" "length d = BSIZE"
  shows "log_ok (insert bn D) H (set_bdata i d s)" "view (set_bdata i d s) = (view s)(bn := d)"
    "tx_frame s (set_bdata i d s)" "log_room k s \<Longrightarrow> log_room k (set_bdata i d s)"
proof -
  note ok = log_okD[OF assms(1)]
  note law = set_bdata_law[OF ok(2) assms(2,3)]
  note f = bio_frame_log[OF law(3)] and p = log_pins_frame[OF law(3)]
  show "log_ok (insert bn D) H (set_bdata i d s)"
    unfolding log_ok_def using p ok law(1,2,4) f(2,3) assms(2) by auto
  show "view (set_bdata i d s) = (view s)(bn := d)" by (rule law(2))
  show "tx_frame s (set_bdata i d s)" by (rule bio_tx_frame[OF law(3-5)])
  show "log_room k s \<Longrightarrow> log_room k (set_bdata i d s)" using f(5) by (simp add: log_room_def)
qed

lemma log_brelse:
  assumes "log_ok D H s" "H bn = Some i" "bn \<notin> D"
  shows "\<exists>s'. brelse i s = Ok () s' \<and> log_ok D (H(bn := None)) s' \<and> view s' = view s \<and> tx_frame s s' \<and>
    (\<forall>k. log_room k s \<longrightarrow> log_room k s')"
proof -
  note ok = log_okD[OF assms(1)]
  have "bn \<in> log_pins s \<or> view s bn = disk s bn" using ok(6) assms(3) by blast
  then obtain s' where s': "brelse i s = Ok () s'" "bio_ok (log_pins s) (H(bn := None)) s'" "view s' = view s"
    "disk s' = disk s" "bio_frame s s'" "dlog s' = dlog s"
    using brelse_law[OF ok(2) assms(2)] by blast
  note f = bio_frame_log[OF s'(5)] and p = log_pins_frame[OF s'(5)]
  have "log_ok D (H(bn := None)) s'"
    unfolding log_ok_def using p ok s'(2-4) f(2,3) assms(3) by auto
  then show ?thesis using s' f(5) bio_tx_frame[OF s'(5,4,6)] by (auto simp: log_room_def)
qed

lemma log_write_law:
  assumes "log_ok D H s" "H bn = Some i" "log_room (Suc k) s" "bn \<notin> log_area (l_start s)" "bn < 2 ^ 32"
  shows "\<exists>s'. log_write i s = Ok () s' \<and> log_ok (D - {bn}) H s' \<and> view s' = view s \<and> tx_frame s s' \<and>
    log_room k s' \<and> log_pins s' = insert bn (log_pins s)"
proof -
  note ok = log_okD[OF assms(1)] and h = held_buf[OF log_okD(2)[OF assms(1)] assms(2)]
  let ?n = "nat (lh_n s)" and ?xs = "take (nat (lh_n s)) (lh_block s)"
  have wf: "length (lh_block s) = LOGBLOCKS" "0 \<le> lh_n s" "distinct ?xs" "l_dev s = ROOTDEV"
    "\<forall>b \<in> log_pins s. b \<notin> log_area (l_start s) \<and> b < 2 ^ 32"
    using ok(1) by (auto simp: log_wf_def)
  have n: "?n < LOGBLOCKS" "lh_n s < int LOGBLOCKS" "length ?xs = ?n"
    using assms(3) wf by (auto simp: log_room_def NBUF_numeral LOGBLOCKS_numeral)
  note mk = bio_okD(4,5)[OF ok(2)]
  show ?thesis
  proof (cases "bn \<in> log_pins s")
    case True
    then have a: "absorb ?xs bn < ?n" "lh_block s ! absorb ?xs bn = bn"
      using absorb_nth[of bn ?xs] n(3) by (auto simp: log_pins_def)
    then have upd: "(lh_block s)[absorb ?xs bn := bn] = lh_block s" by (metis list_update_id)
    let ?s' = "s\<lparr>mach := norm (mach s)\<rparr>"
    have "log_write i s = Ok () ?s'"
      using ok(3) n(2) a h(3) upd mk
      by (simp add: log_write_def acquire_free Let_def release_entered)
    moreover have "bio_frame s ?s'" by (simp add: bio_frame_def bio_rest_def)
    moreover have "bio_ok (log_pins s) H ?s'" using ok(2) by (simp add: bio_ok_def) (simp add: myproc_def)
    moreover have "view ?s' = view s" by (simp add: view_def)
    moreover have "log_pins ?s' = log_pins s" "log_wf ?s' = log_wf s" by (simp_all add: log_pins_def log_wf_def)
    ultimately show ?thesis using True ok assms(3) bio_tx_frame[of s ?s']
      by (intro exI[of _ ?s']) (auto simp: log_ok_def log_room_def insert_absorb)
  next
    case False
    then have a: "absorb ?xs bn = ?n" using absorb_eq[of ?xs bn] n(3) by (simp add: log_pins_def)
    let ?x = "(bufs s i)\<lparr>b_refcnt := b_refcnt (bufs s i) + 1\<rparr>"
    let ?t = "s\<lparr>mach := norm (mach s), bufs := (bufs s)(i := ?x), disk := disk s, dlog := dlog s\<rparr>"
    let ?s' = "?t\<lparr>lh_block := (lh_block s)[?n := bn], lh_n := lh_n s + 1\<rparr>"
    have u: "unat (b_refcnt (bufs s i) + 1) = 2" using unat_inc[of "b_refcnt (bufs s i)"] h(6) False by simp
    note inv = cache_okD(1)[OF bio_okD(1)[OF ok(2)]] and fin = cache_okD(2)[OF bio_okD(1)[OF ok(2)]]
    have t: "bio_ok (insert bn (log_pins s)) H ?t \<and> view ?t = (view s)(bn := b_data ?x) \<and> bio_frame s ?t"
      by (intro conjI; rule held_upd[OF ok(2) assms(2), where P' = "insert bn (log_pins s)"];
          simp add: h u bcache_invD(2)[OF inv] fin)
    have vt: "view ?t = view s" using t h(7) by (simp add: fun_upd_idem)
    have tk: "take (Suc ?n) ((lh_block s)[?n := bn]) = ?xs @ [bn]"
      using n wf(1) by (simp add: take_Suc_conv_app_nth)
    have sn: "nat (lh_n s + 1) = Suc ?n" using wf(2) by simp
    have pins: "log_pins ?s' = insert bn (log_pins s)" by (simp add: log_pins_def sn tk)
    have "log_write i s = Ok () ?s'"
      using ok(3) n(2) a h(3) mk
      by (simp add: log_write_def acquire_free Let_def release_entered bpin_def b_upd_def)
    moreover have "log_wf ?s'"
      using wf n False assms(4,5) unfolding log_wf_def pins by (simp add: sn tk log_pins_def)
    moreover have "bio_ok (log_pins ?s') H ?s'" using t unfolding pins by simp
    moreover have "view ?s' = view s" using vt by simp
    moreover have "tx_frame s ?s'" using bio_log_frame[of s ?t] t by (simp add: tx_frame_def)
    moreover have "log_room k ?s'" using assms(3) by (simp add: log_room_def)
    ultimately show ?thesis using ok(3-6) pins
      by (intro exI[of _ ?s']) (auto simp: log_ok_def)
  qed
qed

section \<open>The interface for the file system\<close>

text \<open>
  Blocks are read with \<open>bread\<close>, changed in the buffer, handed to \<open>log_write\<close> and given back with
  \<open>brelse\<close>.  \<open>ok D H k s\<close>: blocks \<open>dom H\<close> are held, those in \<open>D\<close> changed and not yet logged, and there is
  room to log \<open>k\<close> more; \<open>loggable\<close> are the blocks outside the log.
\<close>

locale block_store =
  fixes rd_block :: "nat \<Rightarrow> 's \<Rightarrow> (nat, 's) res"
    and buf_data :: "nat \<Rightarrow> 's \<Rightarrow> byte list"
    and put_data :: "nat \<Rightarrow> byte list \<Rightarrow> 's \<Rightarrow> 's"
    and wr_block rel_block :: "nat \<Rightarrow> 's \<Rightarrow> (unit, 's) res"
    and ok :: "nat set \<Rightarrow> (nat \<rightharpoonup> nat) \<Rightarrow> nat \<Rightarrow> 's \<Rightarrow> bool"
    and contents :: "'s \<Rightarrow> nat \<Rightarrow> byte list"
    and loggable :: "'s \<Rightarrow> nat \<Rightarrow> bool"
    and frame :: "'s \<Rightarrow> 's \<Rightarrow> bool"
  assumes read: "ok D H k s \<Longrightarrow> H bn = None \<Longrightarrow> card (dom H) \<le> 2 \<Longrightarrow>
      \<exists>i s'. rd_block bn s = Ok i s' \<and> ok D (H(bn \<mapsto> i)) k s' \<and> buf_data i s' = contents s bn \<and>
        contents s' = contents s \<and> frame s s'"
    and put: "ok D H k s \<Longrightarrow> H bn = Some i \<Longrightarrow> length d = BSIZE \<Longrightarrow>
      ok (insert bn D) H k (put_data i d s) \<and> contents (put_data i d s) = (contents s)(bn := d) \<and>
      frame s (put_data i d s)"
    and log: "ok D H (Suc k) s \<Longrightarrow> H bn = Some i \<Longrightarrow> loggable s bn \<Longrightarrow>
      \<exists>s'. wr_block i s = Ok () s' \<and> ok (D - {bn}) H k s' \<and> contents s' = contents s \<and> frame s s'"
    and rel: "ok D H k s \<Longrightarrow> H bn = Some i \<Longrightarrow> bn \<notin> D \<Longrightarrow>
      \<exists>s'. rel_block i s = Ok () s' \<and> ok D (H(bn := None)) k s' \<and> contents s' = contents s \<and> frame s s'"
    and frame_trans: "frame s t \<Longrightarrow> frame t u \<Longrightarrow> frame s u"
    and frame_loggable: "frame s t \<Longrightarrow> loggable t = loggable s"
    and len: "ok D H k s \<Longrightarrow> length (contents s bn) = BSIZE"
begin

text \<open>Reading a block and giving it back.\<close>

lemma read_rel:
  assumes "ok D H k s" "H bn = None" "card (dom H) \<le> 2" "bn \<notin> D"
  shows "\<exists>i s1 s2. rd_block bn s = Ok i s1 \<and> buf_data i s1 = contents s bn \<and> contents s1 = contents s \<and>
    frame s s1 \<and> rel_block i s1 = Ok () s2 \<and> ok D H k s2 \<and> contents s2 = contents s \<and> frame s s2"
proof -
  obtain i s1 where s1: "rd_block bn s = Ok i s1" "ok D (H(bn \<mapsto> i)) k s1" "buf_data i s1 = contents s bn"
    "contents s1 = contents s" "frame s s1"
    using read[OF assms(1-3)] by blast
  have h: "(H(bn \<mapsto> i)) bn = Some i" "(H(bn \<mapsto> i))(bn := None) = H" using assms(2) by auto
  obtain s2 where s2: "rel_block i s1 = Ok () s2" "ok D H k s2" "contents s2 = contents s1" "frame s1 s2"
    using rel[OF s1(2) h(1) assms(4)] unfolding h(2) by blast
  then show ?thesis using s1 frame_trans[OF s1(5) s2(4)]
    by (intro exI[of _ i] exI[of _ s1] exI[of _ s2]) simp
qed

text \<open>Replacing the content of a block that is held, logging it and giving it back.\<close>

lemma put_log_rel:
  assumes "ok D H (Suc k) s" "H bn = Some i" "bn \<notin> D" "loggable s bn" "length d = BSIZE"
  shows "\<exists>s1 s2. wr_block i (put_data i d s) = Ok () s1 \<and> rel_block i s1 = Ok () s2 \<and>
    ok D (H(bn := None)) k s2 \<and> contents s1 = (contents s)(bn := d) \<and> contents s2 = (contents s)(bn := d) \<and>
    ok D H k s1 \<and> frame s s1 \<and> frame s s2"
proof -
  let ?t = "put_data i d s"
  have t: "ok (insert bn D) H (Suc k) ?t" "contents ?t = (contents s)(bn := d)" "frame s ?t"
    using put[OF assms(1,2,5)] by auto
  have "loggable ?t bn" using frame_loggable[OF t(3)] assms(4) by simp
  then obtain s1 where s1: "wr_block i ?t = Ok () s1" "ok (insert bn D - {bn}) H k s1" "contents s1 = contents ?t" "frame ?t s1"
    using log[OF t(1) assms(2)] by blast
  have D: "insert bn D - {bn} = D" using assms(3) by auto
  have f1: "frame s s1" using frame_trans[OF t(3) s1(4)] .
  obtain s2 where s2: "rel_block i s1 = Ok () s2" "ok D (H(bn := None)) k s2" "contents s2 = contents s1" "frame s1 s2"
    using rel[OF s1(2)[unfolded D] assms(2,3)] by blast
  then show ?thesis using s1[unfolded D] t(2) f1 frame_trans[OF f1 s2(4)]
    by (intro exI[of _ s1] exI[of _ s2]) simp
qed

text \<open>Read, modify, log, release: the update of one block.\<close>

lemma update_block:
  assumes "ok D H (Suc k) s" "H bn = None" "card (dom H) \<le> 2" "bn \<notin> D" "loggable s bn"
    "length (f (contents s bn)) = BSIZE"
  shows "\<exists>i s1 s2 s3. rd_block bn s = Ok i s1 \<and> buf_data i s1 = contents s bn \<and> contents s1 = contents s \<and>
    frame s s1 \<and> wr_block i (put_data i (f (contents s bn)) s1) = Ok () s2 \<and> frame s s2 \<and>
    rel_block i s2 = Ok () s3 \<and> ok D H k s3 \<and> contents s3 = (contents s)(bn := f (contents s bn)) \<and> frame s s3"
proof -
  obtain i s1 where s1: "rd_block bn s = Ok i s1" "ok D (H(bn \<mapsto> i)) (Suc k) s1" "buf_data i s1 = contents s bn"
    "contents s1 = contents s" "frame s s1"
    using read[OF assms(1-3)] by blast
  have h: "(H(bn \<mapsto> i)) bn = Some i" "(H(bn \<mapsto> i))(bn := None) = H" using assms(2) by auto
  have l: "loggable s1 bn" using frame_loggable[OF s1(5)] assms(5) by simp
  obtain s2 s3 where s3: "wr_block i (put_data i (f (contents s bn)) s1) = Ok () s2" "rel_block i s2 = Ok () s3"
    "ok D H k s3" "contents s3 = (contents s1)(bn := f (contents s bn))" "frame s1 s2" "frame s1 s3"
    using put_log_rel[OF s1(2) h(1) assms(4) l assms(6)] unfolding h(2) by blast
  then show ?thesis using s1 frame_trans[OF s1(5) s3(5)] frame_trans[OF s1(5) s3(6)]
    by (intro exI[of _ i] exI[of _ s1] exI[of _ s2] exI[of _ s3]) simp
qed

end

definition loggable :: "'a logging_scheme \<Rightarrow> nat \<Rightarrow> bool" where
  "loggable s bn \<longleftrightarrow> bn \<notin> log_area (l_start s) \<and> bn < 2 ^ 32"

definition tx_ok :: "nat set \<Rightarrow> (nat \<rightharpoonup> nat) \<Rightarrow> nat \<Rightarrow> 'a logging_scheme \<Rightarrow> bool" where
  "tx_ok D H k s \<longleftrightarrow> log_ok D H s \<and> log_room k s"

definition bdata :: "nat \<Rightarrow> 'a logging_scheme \<Rightarrow> byte list" where
  "bdata i s = b_data (bufs s i)"

interpretation tx: block_store "bread ROOTDEV" bdata set_bdata log_write brelse tx_ok view loggable tx_frame
proof
  fix D H k and s :: "'a logging_scheme" and bn i d
  show "\<exists>i s'. bread ROOTDEV bn s = Ok i s' \<and> tx_ok D (H(bn \<mapsto> i)) k s' \<and> bdata i s' = view s bn \<and>
      view s' = view s \<and> tx_frame s s'" if "tx_ok D H k s" "H bn = None" "card (dom H) \<le> 2"
    using log_bread[of D H s k bn] that unfolding tx_ok_def bdata_def by blast
  show "tx_ok (insert bn D) H k (set_bdata i d s) \<and> view (set_bdata i d s) = (view s)(bn := d) \<and>
      tx_frame s (set_bdata i d s)" if "tx_ok D H k s" "H bn = Some i" "length d = BSIZE"
    using log_set_bdata[of D H s bn i d] that unfolding tx_ok_def by blast
  show "\<exists>s'. log_write i s = Ok () s' \<and> tx_ok (D - {bn}) H k s' \<and> view s' = view s \<and> tx_frame s s'"
    if "tx_ok D H (Suc k) s" "H bn = Some i" "loggable s bn"
    using log_write_law[of D H s bn i k] that unfolding tx_ok_def loggable_def by blast
  show "\<exists>s'. brelse i s = Ok () s' \<and> tx_ok D (H(bn := None)) k s' \<and> view s' = view s \<and> tx_frame s s'"
    if "tx_ok D H k s" "H bn = Some i" "bn \<notin> D"
    using log_brelse[of D H s bn i] that unfolding tx_ok_def by blast
  show "length (view s bn) = BSIZE" if "tx_ok D H k s"
    using length_bview[OF cache_okD(1)[OF bio_okD(1)[OF log_okD(2)]]] that
    unfolding tx_ok_def view_def by blast
  show "loggable t = loggable s" if "tx_frame s t" for t :: "'a logging_scheme"
    using that by (auto simp: tx_frame_def log_frame_def loggable_def fun_eq_iff)
qed (rule tx_frame_trans)

section \<open>Beginning and ending a transaction\<close>

definition log_idle :: "'a logging_scheme \<Rightarrow> bool" where
  "log_idle s \<longleftrightarrow> bio_ok {} Map.empty s \<and> view s = disk s \<and> lh_n s = 0 \<and> l_outstanding s = 0 \<and>
     \<not> l_committing s \<and> length (lh_block s) = LOGBLOCKS \<and> l_dev s = ROOTDEV \<and>
     head_n (disk s (l_start s)) = 0"

lemma begin_op_law:
  assumes "log_idle s"
  shows "\<exists>s'. begin_op s = Ok () s' \<and> tx_ok {} Map.empty 27 s' \<and> view s' = view s \<and> disk s' = disk s \<and>
    dlog s' = dlog s \<and> l_outstanding s' = 1 \<and> log_frame s s'"
proof -
  have i: "bio_ok {} Map.empty s" "view s = disk s" "lh_n s = 0" "l_outstanding s = 0" "\<not> l_committing s"
    "length (lh_block s) = LOGBLOCKS" "l_dev s = ROOTDEV"
    using assms by (auto simp: log_idle_def)
  let ?s' = "s\<lparr>mach := norm (mach s), l_outstanding := 1\<rparr>"
  have "begin_op s = Ok () ?s'"
    using i(3-5) bio_okD(4,5)[OF i(1)]
    by (simp add: begin_op_def acquire_free release_entered LOGBLOCKS_numeral MAXOPBLOCKS_def)
  moreover have "bio_ok {} Map.empty ?s'"
    using i(1) by (simp add: bio_ok_def) (simp add: myproc_def)
  moreover have "view ?s' = view s" by (simp add: view_def)
  moreover have "log_frame s ?s'" by (simp add: log_frame_def)
  ultimately show ?thesis using i
    by (intro exI[of _ ?s']) (simp add: tx_ok_def log_ok_def log_wf_def log_pins_def log_room_def NBUF_numeral)
qed

definition end_writes :: "'a logging_scheme \<Rightarrow> (nat \<times> byte list) list" where
  "end_writes s = (if lh_n s = 0 then [] else commit_writes s)"

lemma bio_ok_mach: "bio_ok P H s \<Longrightarrow> norm m = norm (mach s) \<Longrightarrow> bio_ok P H (s\<lparr>mach := m\<rparr>)"
  using norm_myproc[of "s\<lparr>mach := m\<rparr>" s] norm_quiet[of m "mach s"] by (simp add: bio_ok_def)

lemma bio_ok_woken: "bio_ok P H s \<Longrightarrow> procs_woken (procs s) ps \<Longrightarrow> bio_ok P H (s\<lparr>procs := ps\<rparr>)"
  using procs_woken_fields(1)[of "procs s" ps]
  by (auto simp: bio_ok_def procs_woken_def myproc_def)

lemma commit_or_nothing:
  assumes "log_wf s" "bio_ok (log_pins s) Map.empty s" "unlogged_clean s" "lh_n s < int NBUF"
    "head_n (disk s (l_start s)) = 0"
  shows "\<exists>s'. commit s = Ok () s' \<and> bio_ok {} Map.empty s' \<and> view s' = disk s' \<and>
    disk s' = writes (end_writes s) (disk s) \<and> dlog s' = dlog s @ end_writes s \<and>
    lh_n s' = 0 \<and> l_outstanding s' = l_outstanding s \<and> l_committing s' = l_committing s \<and>
    lh_block s' = lh_block s \<and> log_frame s s' \<and> head_n (disk s' (l_start s)) = 0 \<and>
    (\<forall>b. b \<notin> log_area (l_start s) \<longrightarrow> disk s' b = view s b)"
proof (cases "lh_n s = 0")
  case True
  then have "log_pins s = {}" by (simp add: log_pins_def)
  then have v: "view s = disk s" using assms(3) by (auto simp: unlogged_clean_def fun_eq_iff)
  have "commit s = Ok () s" using True by (simp add: commit_def)
  then show ?thesis using True assms(2,5) v \<open>log_pins s = {}\<close>
    by (intro exI[of _ s]) (simp add: end_writes_def)
next
  case False
  then have pos: "0 < lh_n s" using assms(1) by (simp add: log_wf_def)
  obtain s' where s': "commit s = Ok () s'" "bio_ok {} Map.empty s'" "view s' = disk s'"
    "disk s' = writes (commit_writes s) (disk s)" "dlog s' = dlog s @ commit_writes s" "lh_n s' = 0"
    "l_outstanding s' = l_outstanding s" "l_committing s' = l_committing s" "lh_block s' = lh_block s"
    "log_frame s s'"
    using commit_law[OF assms(1-3) pos assms(4)] by blast
  let ?st = "l_start s" and ?n = "nat (lh_n s)" and ?k = "2 * nat (lh_n s) + 2"
  let ?h = "put_head (lh_n s) (lh_block s) (view s (l_start s))"
  have len: "length (view s ?st) = BSIZE"
    unfolding view_def by (rule length_bview[OF cache_okD(1)[OF bio_okD(1)[OF assms(2)]]])
  have cw: "take ?k (commit_writes s) = commit_writes s"
    by (simp add: commit_writes_def log_copies_def Let_def)
  have "commit_writes s = log_copies ?n s @ (?st, ?h) # home_writes s @ [(?st, put_head 0 (lh_block s) ?h)]"
    using commit_writes_split(3)[of s ?k] cw by simp
  then have dst: "disk s' ?st = put_head 0 (lh_block s) ?h" using s'(4) by simp
  have n: "0 \<le> lh_n s" "lh_n s \<le> int LOGBLOCKS" using assms(1) by (auto simp: log_wf_def)
  have z: "head_n (disk s' ?st) = 0"
    unfolding dst using put_head_read(2)[OF put_head_read(1)[OF len n], of 0] by simp
  have "disk s' b = view s b" if b: "b \<notin> log_area ?st" for b
  proof -
    have d: "writes (take ?k (commit_writes s)) (disk s) = disk s'" using cw s'(4) by simp
    have "writes (recover_writes ?st (disk s')) (disk s') b = disk s' b"
      using z b by (auto simp: recover_writes_def log_area_def)
    then show ?thesis
      using crash_recover(2)[OF assms(1,3) len assms(5) b, of ?k] unfolding d by simp
  qed
  then show ?thesis using s' z False by (intro exI[of _ s']) (simp add: end_writes_def)
qed

lemma end_op_law:
  assumes "log_ok {} Map.empty s" "l_outstanding s = 1" "lh_n s < int NBUF" "head_n (disk s (l_start s)) = 0"
  shows "\<exists>s'. end_op s = Ok () s' \<and> log_idle s' \<and> dlog s' = dlog s @ end_writes s \<and>
    disk s' = writes (end_writes s) (disk s) \<and> log_frame s s' \<and>
    (\<forall>b. b \<notin> log_area (l_start s) \<longrightarrow> disk s' b = view s b)"
proof -
  note ok = log_okD[OF assms(1)] and mk = bio_okD(4,5)[OF log_okD(2)[OF assms(1)]]
  let ?s1 = "s\<lparr>l_outstanding := 0, l_committing := True, mach := norm (mach s)\<rparr>"
  have b1: "bio_ok (log_pins s) Map.empty ?s1" using bio_ok_mach[of "log_pins s" Map.empty "s\<lparr>l_outstanding := 0, l_committing := True\<rparr>"] ok(2) by simp
  have v1: "view ?s1 = view s" by (simp add: view_def)
  have p1: "log_pins ?s1 = log_pins s" "log_wf ?s1 = log_wf s" by (simp_all add: log_pins_def log_wf_def)
  have uc: "unlogged_clean ?s1" unfolding unlogged_clean_def p1 v1 using ok(6) by simp
  have ew: "end_writes ?s1 = end_writes s"
    by (simp add: end_writes_def commit_writes_def log_copies_def v1)
  obtain s2 where s2: "commit ?s1 = Ok () s2" "bio_ok {} Map.empty s2" "view s2 = disk s2"
    "disk s2 = writes (end_writes s) (disk s)" "dlog s2 = dlog s @ end_writes s" "lh_n s2 = 0"
    "l_outstanding s2 = 0" "lh_block s2 = lh_block s" "log_frame ?s1 s2" "head_n (disk s2 (l_start s)) = 0"
    "\<forall>b. b \<notin> log_area (l_start s) \<longrightarrow> disk s2 b = view s b"
    using commit_or_nothing[of ?s1] ok(1) b1 uc assms(3,4) unfolding p1 ew v1 by auto
  note mk2 = bio_okD(3-6)[OF s2(2)]
  let ?s3 = "s2\<lparr>l_committing := False, mach := norm (mach s2), procs := woken ChLog (myproc s2) (procs s2)\<rparr>"
  have e: "end_op s = Ok () ?s3"
    using mk mk2 s2(1) assms(2) ok(4)
    by (simp add: end_op_def acquire_free release_entered Let_def wakeup_eq) (simp add: myproc_def)
  have "bio_ok {} Map.empty ?s3"
    using bio_ok_woken[of "{}" Map.empty "s2\<lparr>l_committing := False, mach := norm (mach s2)\<rparr>"
        "woken ChLog (myproc s2) (procs s2)"]
      bio_ok_mach[of "{}" Map.empty "s2\<lparr>l_committing := False\<rparr>" "norm (mach s2)"] s2(2) by simp
  moreover have "view ?s3 = view s2" by (simp add: view_def)
  moreover have fr: "log_frame s ?s3"
    using s2(9) by (auto simp: log_frame_def intro: procs_woken_trans)
  moreover have "length (lh_block s2) = LOGBLOCKS" "l_dev s2 = ROOTDEV" "l_start s2 = l_start s"
    using ok(1) s2(8,9) by (auto simp: log_wf_def log_frame_def)
  ultimately have "log_idle ?s3" using s2(3,6,7,10) by (simp add: log_idle_def)
  then show ?thesis using e s2(4,5,11) fr by (intro exI[of _ ?s3]) simp
qed

lemma initlog_law:
  assumes "bio_ok {} Map.empty s" "view s = disk s" "head_wf (sb_logstart sb) (disk s)"
  shows "\<exists>s'. initlog ROOTDEV sb s = Ok () s' \<and> bio_ok {} Map.empty s' \<and> view s' = disk s' \<and>
    disk s' = writes (recover_writes (sb_logstart sb) (disk s)) (disk s) \<and> lh_n s' = 0 \<and>
    l_outstanding s' = l_outstanding s \<and> l_committing s' = l_committing s \<and>
    length (lh_block s') = LOGBLOCKS \<and> l_dev s' = ROOTDEV \<and> l_start s' = sb_logstart sb \<and>
    head_n (disk s' (sb_logstart sb)) = 0"
proof -
  let ?s = "(initlock LLog ''log'' s)\<lparr>l_start := sb_logstart sb, l_dev := ROOTDEV\<rparr>"
  have s: "bio_ok {} Map.empty ?s" using bio_ok_initlock[OF assms(1)] by simp
  have d: "view ?s = disk ?s" "disk ?s = disk s" using assms(2) by (simp_all add: view_def initlock_def)
  obtain s' where s': "recover_from_log ?s = Ok () s'" "bio_ok {} Map.empty s'" "view s' = disk s'"
    "disk s' = writes (recover_writes (sb_logstart sb) (disk s)) (disk s)" "lh_n s' = 0"
    "length (lh_block s') = LOGBLOCKS" "log_frame ?s s'" "l_outstanding s' = l_outstanding s"
    "l_committing s' = l_committing s"
    using recover_law[OF s] d assms(3) by (auto simp: initlock_def)
  have len: "length (disk s b) = BSIZE" for b
    using bcache_invD(2)[OF cache_okD(1)[OF bio_okD(1)[OF assms(1)]]] .
  have "disk s' (sb_logstart sb) = put_head 0 [] (disk s (sb_logstart sb))"
    using s'(4) by (simp add: recover_writes_def)
  then have "head_n (disk s' (sb_logstart sb)) = 0" using put_head_read(2)[OF len, of 0] by simp
  moreover have "initlog ROOTDEV sb s = Ok () s'"
    using s'(1) by (simp add: initlog_def Let_def BSIZE_numeral LOGBLOCKS_numeral)
  moreover have "l_start s' = sb_logstart sb" "l_dev s' = ROOTDEV" using s'(7) by (auto simp: log_frame_def)
  ultimately show ?thesis using s' by (intro exI[of _ s']) simp
qed

section \<open>Properties\<close>

text \<open>
  C1: transactions are atomic across crashes.  When the last outstanding operation ends, \<open>end_op\<close>
  returns with every block outside the log on disk as the kernel saw it in the cache.  If power
  fails after any number \<open>k\<close> of the disk writes it makes, a machine booted with that disk initialises
  its cache, recovers the log and clears it, and the disk outside the log is then entirely as before the
  transaction (if the header write had not happened) or entirely as after it.
\<close>

theorem transaction_crash_atomic:
  assumes "log_ok {} Map.empty s" "l_outstanding s = 1" "lh_n s < int NBUF" "head_n (disk s (l_start s)) = 0"
    and "zero_bufs (bufs r)" "quiet (mach r)" "length (procs r) = NPROC" "myproc r = Some p" "p < NPROC"
    and "disk r = writes (take k (end_writes s)) (disk s)" "sb_logstart sb = l_start s"
  shows "\<exists>s' r1 r2. end_op s = Ok () s' \<and> dlog s' = dlog s @ end_writes s \<and>
    disk s' = writes (end_writes s) (disk s) \<and> (\<forall>b. b \<notin> log_area (l_start s) \<longrightarrow> disk s' b = view s b) \<and>
    binit r = Ok () r1 \<and> initlog ROOTDEV sb r1 = Ok () r2 \<and> head_n (disk r2 (l_start s)) = 0 \<and>
    (\<forall>b. b \<notin> log_area (l_start s) \<longrightarrow> disk r2 b = (if k \<le> nat (lh_n s) then disk s b else view s b))"
proof -
  note ok = log_okD[OF assms(1)]
  obtain s' where s': "end_op s = Ok () s'" "dlog s' = dlog s @ end_writes s"
    "disk s' = writes (end_writes s) (disk s)" "\<forall>b. b \<notin> log_area (l_start s) \<longrightarrow> disk s' b = view s b"
    using end_op_law[OF assms(1-4)] by blast
  have inv: "bcache_inv (bufs s) (disk s)" by (rule cache_okD(1)[OF bio_okD(1)[OF ok(2)]])
  have lv: "length (view s b) = BSIZE" for b unfolding view_def by (rule length_bview[OF inv])
  have n: "0 \<le> lh_n s" "lh_n s \<le> int LOGBLOCKS" using ok(1) by (auto simp: log_wf_def)
  have len: "length (writes ws (disk s) b) = BSIZE" if "\<forall>w \<in> set ws. length (snd w) = BSIZE" for ws b
    using that
  proof (induction ws rule: rev_induct)
    case Nil show ?case using bcache_invD(2)[OF inv] by simp
  next
    case (snoc w ws) then show ?case by (cases w) auto
  qed
  have ew: "\<forall>w \<in> set (end_writes s). length (snd w) = BSIZE"
    using lv put_head_read(1)[OF lv n] put_head_read(1)[OF put_head_read(1)[OF lv n], of 0]
    by (auto simp: end_writes_def commit_writes_def log_copies_def Let_def)
  have dr: "length (disk r b) = BSIZE" for b
    unfolding assms(10) using ew by (intro len) (auto dest: in_set_takeD)
  obtain r1 where r1: "binit r = Ok () r1" "bio_ok {} Map.empty r1" "view r1 = disk r" "disk r1 = disk r"
    using binit_ok[OF assms(5-9) dr] by auto
  have uc: "unlogged_clean s" using ok(6) by (simp add: unlogged_clean_def)
  have rec: "head_wf (l_start s) (disk r) \<and> (\<forall>b. b \<notin> log_area (l_start s) \<longrightarrow>
      writes (recover_writes (l_start s) (disk r)) (disk r) b = (if k \<le> nat (lh_n s) then disk s b else view s b))"
  proof (cases "lh_n s = 0")
    case True
    then have "disk r = disk s" "view s = disk s"
      using assms(10) ok(6) by (auto simp: end_writes_def log_pins_def fun_eq_iff)
    then show ?thesis using assms(4) by (auto simp: head_wf_def recover_writes_def log_area_def)
  next
    case False
    then have "disk r = writes (take k (commit_writes s)) (disk s)" using assms(10) by (simp add: end_writes_def)
    then show ?thesis using crash_recover[OF ok(1) uc lv assms(4), where k = k] by auto
  qed
  then obtain r2 where r2: "initlog ROOTDEV sb r1 = Ok () r2"
    "disk r2 = writes (recover_writes (l_start s) (disk r)) (disk r)" "head_n (disk r2 (l_start s)) = 0"
    using initlog_law[OF r1(2), of sb] r1(3,4) assms(11) by auto
  then show ?thesis using s' r1(1) rec by (intro exI[of _ s'] exI[of _ r1] exI[of _ r2]) simp
qed

definition example_sb :: superblock where
  "example_sb = \<lparr>sb_magic = 0x10203040, sb_size = 2000, sb_nblocks = 1953, sb_ninodes = 200, sb_nlog = 31,
     sb_logstart = 2, sb_inodestart = 33, sb_bmapstart = 46\<rparr>"

definition example_log :: logging where
  "example_log = bio.extend (memory.extend (base.extend example_base (memory.fields (\<lambda>_. 0) 0 0))
     (bio.fields (\<lambda>_. zero_buf) (\<lambda>_. replicate BSIZE 0) []))
     (logging.fields 0 0 False 0 0 (replicate LOGBLOCKS 0))"

lemma example_log_fields [simp]:
  "mach example_log = idle_mach" "procs example_log = procs example_base" "bufs example_log = (\<lambda>_. zero_buf)"
  "disk example_log = (\<lambda>_. replicate BSIZE 0)" "dlog example_log = []" "myproc example_log = Some 0"
  "l_outstanding example_log = 0" "\<not> l_committing example_log"
  by (simp_all add: example_log_def base.defs memory.defs bio.defs logging.defs example_base_def myproc_def)

lemma zero_head: "head_n (replicate BSIZE 0) = 0"
  by (simp add: head_n_def get32_def slice_def BSIZE_numeral)

lemma example_log_idle:
  "\<exists>s1 s. binit example_log = Ok () s1 \<and> initlog ROOTDEV example_sb s1 = Ok () s \<and> log_idle s \<and> l_start s = 2 \<and>
    (\<forall>b. b \<noteq> 2 \<longrightarrow> disk s b = replicate BSIZE 0)"
proof -
  have z: "zero_bufs (bufs example_log)" by (simp add: zero_bufs_def zero_buf_def)
  obtain s1 where s1: "binit example_log = Ok () s1" "bio_ok {} Map.empty s1" "view s1 = disk example_log"
    "disk s1 = disk example_log" "bio_rest s1 = bio_rest example_log"
    using binit_ok[OF z, of 0] by auto
  have "l_outstanding s1 = 0" "\<not> l_committing s1"
    using s1(5) by (cases s1, simp add: bio_rest_def example_log_def base.defs memory.defs bio.defs logging.defs)+
  moreover have "head_wf (sb_logstart example_sb) (disk s1)"
    using zero_head by (simp add: head_wf_def s1(4))
  ultimately show ?thesis
    using initlog_law[of s1 example_sb] s1 zero_head
    by (auto simp: log_idle_def example_sb_def recover_writes_def)
qed

theorem transaction_crash_atomic_witness:
  "\<exists>(s :: logging) s' r1 r2. end_op s = Ok () s' \<and> disk s 100 = replicate BSIZE 0 \<and> view s 100 = replicate BSIZE 9 \<and>
     binit (example_log\<lparr>disk := writes (take 3 (end_writes s)) (disk s)\<rparr>) = Ok () r1 \<and>
     initlog ROOTDEV example_sb r1 = Ok () r2 \<and> disk r2 100 = replicate BSIZE 9"
proof -
  obtain s0 :: logging where s0: "log_idle s0" "l_start s0 = 2" "disk s0 100 = replicate BSIZE 0"
    using example_log_idle by fastforce
  obtain s1 where s1: "begin_op s0 = Ok () s1" "tx_ok {} Map.empty 27 s1" "disk s1 = disk s0"
    "l_outstanding s1 = 1" "log_frame s0 s1"
    using begin_op_law[OF s0(1)] by blast
  have st: "l_start s1 = 2" using s1(5) s0(2) by (simp add: log_frame_def)
  obtain i s2 where s2: "bread ROOTDEV 100 s1 = Ok i s2" "tx_ok {} [100 \<mapsto> i] 27 s2" "tx_frame s1 s2"
    using tx.read[OF s1(2), of 100] by auto
  let ?s3 = "set_bdata i (replicate BSIZE 9) s2"
  define H where "H = [100 :: nat \<mapsto> i]"
  have H: "H 100 = Some i" "tx_ok {} H 27 s2" using s2(2) by (simp_all add: H_def)
  have s3: "tx_ok {100} H 27 ?s3" "view ?s3 100 = replicate BSIZE 9" "tx_frame s2 ?s3"
    using tx.put[OF H(2,1)] by auto
  have f3: "tx_frame s1 ?s3" using tx_frame_trans[OF s2(3) s3(3)] .
  have lg: "100 \<notin> log_area (l_start ?s3)" using f3 st by (auto simp: tx_frame_def log_frame_def log_area_def LOGBLOCKS_numeral)
  obtain s4 where s4: "log_write i ?s3 = Ok () s4" "log_ok {} H s4" "view s4 100 = replicate BSIZE 9"
    "tx_frame ?s3 s4" "log_pins s4 = insert 100 (log_pins ?s3)" "log_room 26 s4"
    using log_write_law[of "{100}" H ?s3 100 i 26] s3 H(1) lg by (auto simp: tx_ok_def)
  obtain s5 where s5: "brelse i s4 = Ok () s5" "log_ok {} (H(100 := None)) s5" "view s5 = view s4" "tx_frame s4 s5"
    "log_room 26 s5"
    using log_brelse[OF s4(2) H(1)] s4(6) by blast
  have f5: "tx_frame s1 s5" using tx_frame_trans[OF f3 tx_frame_trans[OF s4(4) s5(4)]] .
  then have d5: "disk s5 = disk s0" "l_outstanding s5 = 1" "l_start s5 = 2"
    using s1(3,4) st by (auto simp: tx_frame_def log_frame_def)
  have n: "nat (lh_n s5) < 3" "lh_n s5 < int NBUF" using s5(5) by (auto simp: log_room_def NBUF_numeral)
  have H5: "H(100 := None) = Map.empty" by (auto simp: H_def)
  let ?r = "example_log\<lparr>disk := writes (take 3 (end_writes s5)) (disk s5)\<rparr>"
  have "zero_bufs (bufs ?r)" by (simp add: zero_bufs_def zero_buf_def)
  moreover have "myproc ?r = Some 0" using example_log_fields(6) by (simp add: myproc_def)
  moreover have "head_n (disk s5 (l_start s5)) = 0" using s0(1,2) d5 by (simp add: log_idle_def)
  moreover have "sb_logstart example_sb = l_start s5" using d5(3) by (simp add: example_sb_def)
  ultimately obtain s' r1 r2 where "end_op s5 = Ok () s'" "binit ?r = Ok () r1" "initlog ROOTDEV example_sb r1 = Ok () r2"
    "\<forall>b. b \<notin> log_area (l_start s5) \<longrightarrow> disk r2 b = (if 3 \<le> nat (lh_n s5) then disk s5 b else view s5 b)"
    using transaction_crash_atomic[of s5 ?r 0 3 example_sb] s5(2) d5 n H5 by auto
  moreover have "100 \<notin> log_area (l_start s5)" by (simp add: d5 log_area_def LOGBLOCKS_numeral)
  ultimately show ?thesis using n s4(3) s5(3) s0(3) d5(1)
    by (intro exI[of _ s5] exI[of _ s'] exI[of _ r1] exI[of _ r2]) simp
qed

text \<open>
  C9: log space is reserved before an operation starts.  \<open>begin_op\<close> returns only when no commit is
  running and the blocks already logged plus \<open>MAXOPBLOCKS\<close> for every outstanding operation, the new one
  included, fit into the log; otherwise it sleeps on the log, with the log unchanged.
\<close>

theorem begin_op_reserves:
  assumes "mach_ok (mach s)" "lock_free LLog (mach s)" "lock_free (LProc p) (mach s)" "myproc s = Some p"
    "noff (mycpu (mach s)) = 0" "p < length (procs s)"
  shows "(\<exists>s'. begin_op s = Ok () s' \<and> l_outstanding s' = l_outstanding s + 1 \<and> \<not> l_committing s' \<and>
      lh_n s' = lh_n s \<and> lh_n s' + l_outstanding s' * int MAXOPBLOCKS \<le> int LOGBLOCKS) \<or>
    (\<exists>s'. begin_op s = Away s' \<and> p_state (procs s' ! p) = SLEEPING \<and> p_chan (procs s' ! p) = ChLog \<and>
      l_outstanding s' = l_outstanding s \<and> lh_n s' = lh_n s \<and> lock_free LLog (mach s') \<and>
      (l_committing s \<or> int LOGBLOCKS < lh_n s + (l_outstanding s + 1) * int MAXOPBLOCKS))"
proof -
  let ?e = "s\<lparr>mach := entered LLog (mach s)\<rparr>"
  have sl: "sleep ChLog LLog ?e = Away (?e\<lparr>mach := entered (LProc p) (mach s),
    procs := (procs s)[p := (procs s ! p)\<lparr>p_chan := ChLog, p_state := SLEEPING\<rparr>]\<rparr>)"
    using sleep_eq[of ?e LLog "mach s" p ChLog] assms by (simp add: myproc_def)
  show ?thesis
    using assms sl by (auto simp: begin_op_def acquire_free release_entered algebra_simps)
qed

theorem begin_op_reserves_witness:
  "\<exists>s'. begin_op example_log = Ok () s' \<and> l_outstanding s' = 1 \<and>
     lh_n s' + l_outstanding s' * int MAXOPBLOCKS \<le> int LOGBLOCKS"
proof -
  have "lh_n example_log = 0"
    by (simp add: example_log_def base.defs memory.defs bio.defs logging.defs example_base_def)
  then show ?thesis
    using begin_op_reserves[of example_log 0]
    by (auto simp: MAXOPBLOCKS_def LOGBLOCKS_numeral)
qed

lemma all_pinned:
  assumes "cache_ok P Map.empty B d" "card P = NBUF" "i < NBUF"
  shows "b_dev (B i) = ROOTDEV" "b_blockno (B i) \<in> P" "b_refcnt (B i) \<noteq> 0"
proof -
  note D = cache_okD[OF assms(1)]
  define f where "f bn = (SOME i. cached B bn i)" for bn
  have f: "cached B bn (f bn)" if "bn \<in> P" for bn
    unfolding f_def using D(4)[OF that] by (rule someI_ex)
  have "inj_on f P" using f by (intro inj_onI) (metis cached_def)
  moreover have "f ` P \<subseteq> {..<NBUF}" using f by (auto simp: cached_def)
  ultimately have "f ` P = {..<NBUF}" using assms(2) by (intro card_subset_eq) (auto simp: card_image)
  then obtain bn where bn: "bn \<in> P" "f bn = i" using assms(3) by (metis imageE lessThan_iff)
  then show d: "b_dev (B i) = ROOTDEV" "b_blockno (B i) \<in> P" using f[OF bn(1)] by (auto simp: cached_def)
  show "b_refcnt (B i) \<noteq> 0" using D(3)[OF assms(3)] d by (auto simp: refs_def)
qed

text \<open>
  C10: a full log cannot be committed.  \<open>LOGBLOCKS\<close> logged blocks pin \<open>LOGBLOCKS\<close> buffers, and the cache
  has \<open>NBUF = LOGBLOCKS\<close> of them, so the first \<open>bread\<close> of a log block in \<open>write_log\<close> finds no buffer and
  panics, although \<open>begin_op\<close> admits operations up to \<open>LOGBLOCKS\<close> blocks in all.
\<close>

theorem commit_of_full_log_panics:
  assumes "log_wf s" "bio_ok (log_pins s) Map.empty s" "lh_n s = int LOGBLOCKS"
  shows "commit s = Panic ''bget: no buffers''"
proof -
  let ?lb = "l_start s + 0 + 1" and ?B = "bufs s"
  have zero: "0 < nat (lh_n s)" using assms(3) by (simp add: LOGBLOCKS_numeral)
  have card: "card (log_pins s) = NBUF"
    using card_log_pins[OF assms(1)] assms(3) by (simp add: NBUF_numeral LOGBLOCKS_numeral)
  note ok = bio_okD(1)[OF assms(2)] and pinned = all_pinned[OF bio_okD(1)[OF assms(2)] card]
  obtain xs where ring: "ring ?B xs" using bcache_invD(1)[OF cache_okD(1)[OF ok]] by blast
  have "find (\<lambda>i. b_dev (?B i) = ROOTDEV \<and> b_blockno (?B i) = ?lb) xs = None"
    using pinned(2) log_wf_nth(3)[OF assms(1) zero] ring
    by (auto simp: find_None_iff ring_def) metis
  then have s1: "scan_next (Suc NBUF) ?B (b_next (?B NBUF)) (\<lambda>b. b_dev b = ROOTDEV \<and> b_blockno b = Suc (l_start s)) = Some None"
    using scan_next_ring[OF ring] by simp
  have "find (\<lambda>i. b_refcnt (?B i) = 0) (rev xs) = None"
    using pinned(3) ring by (auto simp: find_None_iff ring_def)
  then have s2: "scan_prev (Suc NBUF) ?B (b_prev (?B NBUF)) (\<lambda>b. b_refcnt b = 0) = Some None"
    using scan_prev_ring[OF ring] by simp
  have "bget ROOTDEV (Suc (l_start s)) s = Panic ''bget: no buffers''"
    using bio_okD(5)[OF assms(2)] by (simp add: bget_def acquire_free s1 s2)
  then have "write_log_one 0 s = Panic ''bget: no buffers''"
    using assms(1) log_wf_nth(1)[OF assms(1) zero] by (simp add: write_log_one_def bread_def log_wf_def)
  moreover have "[0..<nat (lh_n s)] = 0 # [1..<nat (lh_n s)]" using zero by (simp add: upt_conv_Cons)
  ultimately show ?thesis using zero by (simp add: commit_def write_log_def)
qed

theorem commit_of_full_log_panics_witness:
  "\<exists>s :: logging. lh_n s = int LOGBLOCKS \<and> commit s = Panic ''bget: no buffers''"
proof -
  have z: "zero_bufs (bufs example_log)" by (simp add: zero_bufs_def zero_buf_def)
  obtain s0 :: logging where s0: "bio_ok {} Map.empty s0" "ring (bufs s0) (rev [0..<NBUF])" "disk s0 = disk example_log"
    using binit_ok[OF z, of 0] by auto
  define B where "B i = (if i < NBUF then (bufs s0 i)\<lparr>b_valid := True, b_dev := ROOTDEV, b_blockno := 100 + i, b_refcnt := 1\<rparr>
    else bufs s0 i)" for i
  let ?bl = "map (\<lambda>i. 100 + i) [0..<LOGBLOCKS]"
  define s where "s = s0\<lparr>bufs := B, l_start := 2, l_dev := ROOTDEV, lh_n := int LOGBLOCKS, lh_block := ?bl\<rparr>"
  have pins: "log_pins s = {100..<100 + LOGBLOCKS}" by (auto simp: s_def log_pins_def image_iff Bex_def)
  have wf: "log_wf s"
    unfolding log_wf_def pins by (auto simp: s_def log_area_def LOGBLOCKS_numeral distinct_map inj_on_def)
  have c: "cached B bn i \<longleftrightarrow> i < NBUF \<and> bn = 100 + i" for bn i by (auto simp: cached_def B_def)
  have inv0: "bcache_inv (bufs s0) (disk s0)" by (rule cache_okD(1)[OF bio_okD(1)[OF s0(1)]])
  have ring: "ring B (rev [0..<NBUF])" using s0(2) ring_cong[of B "bufs s0"] by (simp add: B_def)
  have "bcache_inv B (disk s0)"
    unfolding bcache_inv_def using ring bcache_invD(2,3)[OF inv0] c by (auto simp: B_def)
  then have "cache_ok (log_pins s) Map.empty B (disk s0)"
    unfolding cache_ok_def pins c by (auto simp: B_def refs_def NBUF_numeral LOGBLOCKS_numeral) presburger
  then have "bio_ok (log_pins s) Map.empty s"
    using s0(1) unfolding bio_ok_def s_def by (simp add: myproc_def)
  then have "commit s = Panic ''bget: no buffers''"
    using commit_of_full_log_panics[OF wf] by (simp add: s_def)
  then show ?thesis by (intro exI[of _ s]) (simp add: s_def)
qed

end
