(* ===== verification/Vm.thy ===== *)
theory Vm
  imports Kalloc
begin

text \<open>
  Sv39 page tables, \<open>kernel/vm.c\<close>, and the two copy helpers \<open>either_copyout\<close>, \<open>either_copyin\<close> and
  \<open>proc_mapstacks\<close> of \<open>kernel/proc.c\<close>.  A page table is the address of a page of \<open>ram\<close>, an entry the
  64-bit little-endian word at \<open>pagetable + 8 * index\<close>; \<open>walk\<close> returns the address of the entry, 0
  when there is none.  Reading or writing an entry through a null pointer is \<open>Undef\<close>.

  The kernel-side buffer of a copy is passed by value: \<open>copyout\<close> takes the bytes at \<open>src\<close>,
  \<open>copyin\<close> and \<open>copyinstr\<close> return, next to the C result, the bytes they stored at \<open>dst\<close> before
  returning, so that the caller can store them where its buffer lives also when the copy fails
  half-way.

  The loops over virtual addresses end because \<open>walk\<close> panics at \<open>MAXVA\<close>; \<open>freewalk\<close> recurses through the
  three levels of a page table, and a deeper recursion is \<open>Undef\<close>.
\<close>

definition UART0 :: uint64 where [params]: "UART0 = 0x10000000"
definition VIRTIO0 :: uint64 where [params]: "VIRTIO0 = 0x10001000"
definition PLIC :: uint64 where [params]: "PLIC = 0x0c000000"

section \<open>Walking a page table\<close>

fun walk_levels :: "nat list \<Rightarrow> uint64 \<Rightarrow> uint64 \<Rightarrow> bool \<Rightarrow> 'a memory_scheme \<Rightarrow> (uint64, 'a memory_scheme) res" where
  "walk_levels [] pagetable va alloc s = Ok (pagetable + 8 * PX 0 va) s"
| "walk_levels (level # ls) pagetable va alloc s =
     (let pte = pagetable + 8 * PX level va; v = ld64 (ram s) pte in
      if v AND PTE_V \<noteq> 0 then walk_levels ls (PTE2PA v) va alloc s
      else if \<not> alloc then Ok 0 s
      else seq (kalloc s) (\<lambda>p s.
        if p = 0 then Ok 0 s
        else let s = s\<lparr>ram := memset p 0 4096 (ram s)\<rparr>;
                 s = s\<lparr>ram := st64 pte (PA2PTE p OR PTE_V) (ram s)\<rparr>
             in walk_levels ls p va alloc s))"

definition walk :: "uint64 \<Rightarrow> uint64 \<Rightarrow> bool \<Rightarrow> 'a memory_scheme \<Rightarrow> (uint64, 'a memory_scheme) res" where
  "walk pagetable va alloc s =
     (if MAXVA \<le> va then Panic ''walk'' else walk_levels [2, 1] pagetable va alloc s)"

lemma walk_Ok_below: "walk pt va alloc s = Ok p s' \<Longrightarrow> va < MAXVA"
  by (auto simp: walk_def split: if_splits)

definition walkaddr :: "uint64 \<Rightarrow> uint64 \<Rightarrow> 'a memory_scheme \<Rightarrow> (uint64, 'a memory_scheme) res" where
  "walkaddr pagetable va s =
     (if MAXVA \<le> va then Ok 0 s
      else seq (walk pagetable va False s) (\<lambda>pte s.
        if pte = 0 then Ok 0 s
        else let v = ld64 (ram s) pte in
          if v AND PTE_V = 0 then Ok 0 s
          else if v AND PTE_U = 0 then Ok 0 s
          else Ok (PTE2PA v) s))"

definition ismapped :: "uint64 \<Rightarrow> uint64 \<Rightarrow> 'a memory_scheme \<Rightarrow> (bool, 'a memory_scheme) res" where
  "ismapped pagetable va s =
     seq (walk pagetable va False s) (\<lambda>pte s.
     if pte = 0 then Ok False s else Ok (ld64 (ram s) pte AND PTE_V \<noteq> 0) s)"

text \<open>The next page is a larger address, so loops over \<open>a += PGSIZE\<close> below \<open>MAXVA\<close> end.\<close>

lemma page_step_measure:
  assumes "a < MAXVA"
  shows "unat MAXVA + 4096 - unat (a + PGSIZE) < unat MAXVA + 4096 - unat a"
proof -
  have a: "unat a < 2 ^ 38" using assms by (simp add: params word_less_nat_alt)
  then have "unat (a + PGSIZE) = unat a + unat PGSIZE" by (intro unat_add_small) (simp add: params)
  then show ?thesis using a by (simp add: params)
qed

section \<open>Installing and removing mappings\<close>

function mappages_loop ::
  "uint64 \<Rightarrow> uint64 \<Rightarrow> uint64 \<Rightarrow> uint64 \<Rightarrow> uint64 \<Rightarrow> 'a memory_scheme \<Rightarrow> (int, 'a memory_scheme) res" where
  "mappages_loop pagetable a lst pa perm s =
     seq (walk pagetable a True s) (\<lambda>pte s.
     if pte = 0 then Ok (-1) s
     else if ld64 (ram s) pte AND PTE_V \<noteq> 0 then Panic ''mappages: remap''
     else let s = s\<lparr>ram := st64 pte (PA2PTE pa OR perm OR PTE_V) (ram s)\<rparr> in
       if a = lst then Ok 0 s
       else mappages_loop pagetable (a + PGSIZE) lst (pa + PGSIZE) perm s)"
  by pat_completeness auto
termination
  by (relation "measure (\<lambda>(_, a, _). unat MAXVA + 4096 - unat a)")
    (auto dest!: walk_Ok_below intro: page_step_measure)

declare mappages_loop.simps [simp del]

definition mappages ::
  "uint64 \<Rightarrow> uint64 \<Rightarrow> uint64 \<Rightarrow> uint64 \<Rightarrow> uint64 \<Rightarrow> 'a memory_scheme \<Rightarrow> (int, 'a memory_scheme) res" where
  "mappages pagetable va sz pa perm s =
     (if va mod PGSIZE \<noteq> 0 then Panic ''mappages: va not aligned''
      else if sz mod PGSIZE \<noteq> 0 then Panic ''mappages: size not aligned''
      else if sz = 0 then Panic ''mappages: size''
      else mappages_loop pagetable va (va + sz - PGSIZE) pa perm s)"

lemma mappages_Ok_below: "mappages pt va sz pa perm s = Ok r s' \<Longrightarrow> va < MAXVA"
  by (auto simp: mappages_def mappages_loop.simps[of pt va] seq_Ok_iff dest!: walk_Ok_below split: if_splits)

definition uvmcreate :: "'a memory_scheme \<Rightarrow> (uint64, 'a memory_scheme) res" where
  "uvmcreate s =
     seq (kalloc s) (\<lambda>p s.
     if p = 0 then Ok 0 s else Ok p (s\<lparr>ram := memset p 0 4096 (ram s)\<rparr>))"

function uvmunmap_loop ::
  "uint64 \<Rightarrow> uint64 \<Rightarrow> uint64 \<Rightarrow> bool \<Rightarrow> 'a memory_scheme \<Rightarrow> (unit, 'a memory_scheme) res" where
  "uvmunmap_loop pagetable a stop do_free s =
     (if a < stop then
        seq (walk pagetable a False s) (\<lambda>pte s.
        if pte = 0 then uvmunmap_loop pagetable (a + PGSIZE) stop do_free s
        else if ld64 (ram s) pte AND PTE_V = 0 then uvmunmap_loop pagetable (a + PGSIZE) stop do_free s
        else seq (if do_free then kfree (PTE2PA (ld64 (ram s) pte)) s else Ok () s) (\<lambda>_ s.
          uvmunmap_loop pagetable (a + PGSIZE) stop do_free (s\<lparr>ram := st64 pte 0 (ram s)\<rparr>)))
      else Ok () s)"
  by pat_completeness auto
termination
  by (relation "measure (\<lambda>(_, a, _). unat MAXVA + 4096 - unat a)")
    (auto dest!: walk_Ok_below intro: page_step_measure)

declare uvmunmap_loop.simps [simp del]

definition uvmunmap ::
  "uint64 \<Rightarrow> uint64 \<Rightarrow> uint64 \<Rightarrow> bool \<Rightarrow> 'a memory_scheme \<Rightarrow> (unit, 'a memory_scheme) res" where
  "uvmunmap pagetable va npages do_free s =
     (if va mod PGSIZE \<noteq> 0 then Panic ''uvmunmap: not aligned''
      else uvmunmap_loop pagetable va (va + npages * PGSIZE) do_free s)"

text \<open>\<open>int npages\<close> is the quotient truncated to 32 bits and sign-extended again.\<close>

definition uvmdealloc ::
  "uint64 \<Rightarrow> uint64 \<Rightarrow> uint64 \<Rightarrow> 'a memory_scheme \<Rightarrow> (uint64, 'a memory_scheme) res" where
  "uvmdealloc pagetable oldsz newsz s =
     (if oldsz \<le> newsz then Ok oldsz s
      else if PGROUNDUP newsz < PGROUNDUP oldsz then
        let npages = scast (ucast ((PGROUNDUP oldsz - PGROUNDUP newsz) div PGSIZE) :: uint) in
        seq (uvmunmap pagetable (PGROUNDUP newsz) npages True s) (\<lambda>_ s. Ok newsz s)
      else Ok newsz s)"

function uvmalloc_loop ::
  "uint64 \<Rightarrow> uint64 \<Rightarrow> uint64 \<Rightarrow> uint64 \<Rightarrow> uint64 \<Rightarrow> 'a memory_scheme \<Rightarrow> (uint64, 'a memory_scheme) res" where
  "uvmalloc_loop pagetable a oldsz newsz xperm s =
     (if a < newsz then
        seq (kalloc s) (\<lambda>p s.
        if p = 0 then seq (uvmdealloc pagetable a oldsz s) (\<lambda>_ s. Ok 0 s)
        else let s = s\<lparr>ram := memset p 0 4096 (ram s)\<rparr> in
          seq (mappages pagetable a PGSIZE p (PTE_R OR PTE_U OR xperm) s) (\<lambda>r s.
          if r \<noteq> 0 then
            seq (kfree p s) (\<lambda>_ s. seq (uvmdealloc pagetable a oldsz s) (\<lambda>_ s. Ok 0 s))
          else uvmalloc_loop pagetable (a + PGSIZE) oldsz newsz xperm s))
      else Ok newsz s)"
  by pat_completeness auto
termination
  by (relation "measure (\<lambda>(_, a, _). unat MAXVA + 4096 - unat a)")
    (auto dest!: mappages_Ok_below intro: page_step_measure)

declare uvmalloc_loop.simps [simp del]

definition uvmalloc ::
  "uint64 \<Rightarrow> uint64 \<Rightarrow> uint64 \<Rightarrow> uint64 \<Rightarrow> 'a memory_scheme \<Rightarrow> (uint64, 'a memory_scheme) res" where
  "uvmalloc pagetable oldsz newsz xperm s =
     (if newsz < oldsz then Ok oldsz s
      else let oldsz = PGROUNDUP oldsz in uvmalloc_loop pagetable oldsz oldsz newsz xperm s)"

text \<open>\<open>freewalk\<close> at depth \<open>n\<close> of the recursion, then over the 512 entries of one table.\<close>

fun freewalk_n :: "nat \<Rightarrow> uint64 \<Rightarrow> 'a memory_scheme \<Rightarrow> (unit, 'a memory_scheme) res" where
  "freewalk_n 0 pagetable s = Undef"
| "freewalk_n (Suc n) pagetable s =
     seq (foreach [0..<512] (\<lambda>i s.
       let a = pagetable + 8 * of_nat i; pte = ld64 (ram s) a in
       if pte AND PTE_V \<noteq> 0 \<and> pte AND (PTE_R OR PTE_W OR PTE_X) = 0 then
         seq (freewalk_n n (PTE2PA pte) s) (\<lambda>_ s. Ok () (s\<lparr>ram := st64 a 0 (ram s)\<rparr>))
       else if pte AND PTE_V \<noteq> 0 then Panic ''freewalk: leaf''
       else Ok () s) s) (\<lambda>_ s.
     kfree pagetable s)"

definition freewalk :: "uint64 \<Rightarrow> 'a memory_scheme \<Rightarrow> (unit, 'a memory_scheme) res" where
  "freewalk pagetable s = freewalk_n 3 pagetable s"

definition uvmfree :: "uint64 \<Rightarrow> uint64 \<Rightarrow> 'a memory_scheme \<Rightarrow> (unit, 'a memory_scheme) res" where
  "uvmfree pagetable sz s =
     seq (if 0 < sz then uvmunmap pagetable 0 (PGROUNDUP sz div PGSIZE) True s else Ok () s) (\<lambda>_ s.
     freewalk pagetable s)"

function uvmcopy_loop ::
  "uint64 \<Rightarrow> uint64 \<Rightarrow> uint64 \<Rightarrow> uint64 \<Rightarrow> 'a memory_scheme \<Rightarrow> (int, 'a memory_scheme) res" where
  "uvmcopy_loop old new i sz s =
     (if i < sz then
        seq (walk old i False s) (\<lambda>pte s.
        if pte = 0 then uvmcopy_loop old new (i + PGSIZE) sz s
        else let v = ld64 (ram s) pte in
          if v AND PTE_V = 0 then uvmcopy_loop old new (i + PGSIZE) sz s
          else seq (kalloc s) (\<lambda>p s.
            if p = 0 then seq (uvmunmap new 0 (i div PGSIZE) True s) (\<lambda>_ s. Ok (-1) s)
            else let s = s\<lparr>ram := memmove p (PTE2PA v) 4096 (ram s)\<rparr> in
              seq (mappages new i PGSIZE p (PTE_FLAGS v) s) (\<lambda>r s.
              if r \<noteq> 0 then
                seq (kfree p s) (\<lambda>_ s. seq (uvmunmap new 0 (i div PGSIZE) True s) (\<lambda>_ s. Ok (-1) s))
              else uvmcopy_loop old new (i + PGSIZE) sz s)))
      else Ok 0 s)"
  by pat_completeness auto
termination
  by (relation "measure (\<lambda>(_, _, i, _). unat MAXVA + 4096 - unat i)")
    (auto dest!: walk_Ok_below intro: page_step_measure)

declare uvmcopy_loop.simps [simp del]

definition uvmcopy :: "uint64 \<Rightarrow> uint64 \<Rightarrow> uint64 \<Rightarrow> 'a memory_scheme \<Rightarrow> (int, 'a memory_scheme) res" where
  "uvmcopy old new sz s = uvmcopy_loop old new 0 sz s"

definition uvmclear :: "uint64 \<Rightarrow> uint64 \<Rightarrow> 'a memory_scheme \<Rightarrow> (unit, 'a memory_scheme) res" where
  "uvmclear pagetable va s =
     seq (walk pagetable va False s) (\<lambda>pte s.
     if pte = 0 then Panic ''uvmclear''
     else Ok () (s\<lparr>ram := st64 pte (ld64 (ram s) pte AND NOT PTE_U) (ram s)\<rparr>))"

section \<open>The kernel page table\<close>

definition kvmmap ::
  "uint64 \<Rightarrow> uint64 \<Rightarrow> uint64 \<Rightarrow> uint64 \<Rightarrow> uint64 \<Rightarrow> 'a memory_scheme \<Rightarrow> (unit, 'a memory_scheme) res" where
  "kvmmap kpgtbl va pa sz perm s =
     seq (mappages kpgtbl va sz pa perm s) (\<lambda>r s. if r \<noteq> 0 then Panic ''kvmmap'' else Ok () s)"

definition proc_mapstacks :: "uint64 \<Rightarrow> 'a memory_scheme \<Rightarrow> (unit, 'a memory_scheme) res" where
  "proc_mapstacks kpgtbl s =
     foreach [0..<NPROC] (\<lambda>p s.
       seq (kalloc s) (\<lambda>pa s.
       if pa = 0 then Panic ''kalloc''
       else kvmmap kpgtbl (KSTACK p) pa PGSIZE (PTE_R OR PTE_W) s)) s"

definition kvmmake :: "'a memory_scheme \<Rightarrow> (uint64, 'a memory_scheme) res" where
  "kvmmake s =
     seq (kalloc s) (\<lambda>kpgtbl s.
     let s = s\<lparr>ram := memset kpgtbl 0 4096 (ram s)\<rparr> in
     seq (kvmmap kpgtbl UART0 UART0 PGSIZE (PTE_R OR PTE_W) s) (\<lambda>_ s.
     seq (kvmmap kpgtbl VIRTIO0 VIRTIO0 PGSIZE (PTE_R OR PTE_W) s) (\<lambda>_ s.
     seq (kvmmap kpgtbl PLIC PLIC 0x4000000 (PTE_R OR PTE_W) s) (\<lambda>_ s.
     seq (kvmmap kpgtbl KERNBASE KERNBASE (etext s - KERNBASE) (PTE_R OR PTE_X) s) (\<lambda>_ s.
     seq (kvmmap kpgtbl (etext s) (etext s) (PHYSTOP - etext s) (PTE_R OR PTE_W) s) (\<lambda>_ s.
     seq (kvmmap kpgtbl TRAMPOLINE (trampoline s) PGSIZE (PTE_R OR PTE_X) s) (\<lambda>_ s.
     seq (proc_mapstacks kpgtbl s) (\<lambda>_ s.
     Ok kpgtbl s))))))))"

definition kvminit :: "'a memory_scheme \<Rightarrow> (unit, 'a memory_scheme) res" where
  "kvminit s = seq (kvmmake s) (\<lambda>kpgtbl s. Ok () (s\<lparr>kernel_pagetable := kpgtbl\<rparr>))"

section \<open>Lazily allocated pages and copies between kernel and user memory\<close>

definition vmfault :: "uint64 \<Rightarrow> uint64 \<Rightarrow> bool \<Rightarrow> 'a memory_scheme \<Rightarrow> (uint64, 'a memory_scheme) res" where
  "vmfault pagetable va read s =
     (case myproc s of None \<Rightarrow> Undef | Some pi \<Rightarrow>
        if p_sz (procs s ! pi) \<le> va then Ok 0 s
        else let va = PGROUNDDOWN va in
          seq (ismapped pagetable va s) (\<lambda>m s.
          if m then Ok 0 s
          else seq (kalloc s) (\<lambda>p s.
            if p = 0 then Ok 0 s
            else let s = s\<lparr>ram := memset p 0 4096 (ram s)\<rparr> in
              seq (mappages (p_pagetable (procs s ! pi)) va PGSIZE p (PTE_W OR PTE_U OR PTE_R) s) (\<lambda>r s.
              if r \<noteq> 0 then seq (kfree p s) (\<lambda>_ s. Ok 0 s)
              else Ok p s))))"

text \<open>The bytes from \<open>va\<close> to the end of its page.\<close>

definition page_left :: "uint64 \<Rightarrow> nat" where
  "page_left va = unat (PGSIZE - (va - PGROUNDDOWN va))"

lemma unat_page_off: "unat (va - PGROUNDDOWN va) = unat va mod 4096"
proof -
  have "PGROUNDDOWN va \<le> va" by (simp add: word_le_nat_alt unat_PGROUNDDOWN)
  then show ?thesis by (simp add: unat_sub unat_PGROUNDDOWN minus_div_mult_eq_mod)
qed

lemma page_left_eq: "page_left va = 4096 - unat va mod 4096"
proof -
  have "va - PGROUNDDOWN va \<le> PGSIZE"
    using mod_less_divisor[of 4096 "unat va"] by (simp add: word_le_nat_alt unat_page_off params)
  then show ?thesis by (simp add: page_left_def unat_sub unat_page_off) (simp add: params)
qed

lemma page_left_pos [simp]: "0 < page_left va" "page_left va \<noteq> 0"
  by (simp_all add: page_left_eq)

function copyout :: "uint64 \<Rightarrow> uint64 \<Rightarrow> byte list \<Rightarrow> 'a memory_scheme \<Rightarrow> (int, 'a memory_scheme) res" where
  "copyout pagetable dstva src s =
     (if src = [] then Ok 0 s
      else let va0 = PGROUNDDOWN dstva in
        if MAXVA \<le> va0 then Ok (-1) s
        else seq (walkaddr pagetable va0 s) (\<lambda>pa0 s.
             seq (if pa0 = 0 then vmfault pagetable va0 False s else Ok pa0 s) (\<lambda>pa0 s.
             if pa0 = 0 then Ok (-1) s
             else seq (walk pagetable va0 False s) (\<lambda>pte s.
               if pte = 0 then Undef
               else if ld64 (ram s) pte AND PTE_W = 0 then Ok (-1) s
               else let n = min (page_left dstva) (length src) in
                 copyout pagetable (va0 + PGSIZE) (drop n src)
                   (s\<lparr>ram := wr (ram s) (pa0 + (dstva - va0)) (take n src)\<rparr>)))))"
  by pat_completeness auto
termination
  by (relation "measure (\<lambda>(_, _, src, _). length src)") auto

declare copyout.simps [simp del]

function copyin :: "uint64 \<Rightarrow> uint64 \<Rightarrow> nat \<Rightarrow> 'a memory_scheme \<Rightarrow> (int \<times> byte list, 'a memory_scheme) res" where
  "copyin pagetable srcva len s =
     (if len = 0 then Ok (0, []) s
      else let va0 = PGROUNDDOWN srcva in
        seq (walkaddr pagetable va0 s) (\<lambda>pa0 s.
        seq (if pa0 = 0 then vmfault pagetable va0 False s else Ok pa0 s) (\<lambda>pa0 s.
        if pa0 = 0 then Ok (-1, []) s
        else let n = min (page_left srcva) len; bs = rd (ram s) (pa0 + (srcva - va0)) n in
          seq (copyin pagetable (va0 + PGSIZE) (len - n) s) (\<lambda>(r, rest) s. Ok (r, bs @ rest) s))))"
  by pat_completeness auto
termination
  by (relation "measure (\<lambda>(_, _, len, _). len)") auto

declare copyin.simps [simp del]

fun copyinstr_page :: "mem \<Rightarrow> uint64 \<Rightarrow> nat \<Rightarrow> byte list \<times> bool" where
  "copyinstr_page m p 0 = ([], False)"
| "copyinstr_page m p (Suc n) =
     (if m p = 0 then ([0], True)
      else let (bs, got_null) = copyinstr_page m (p + 1) n in (m p # bs, got_null))"

function copyinstr :: "uint64 \<Rightarrow> uint64 \<Rightarrow> nat \<Rightarrow> 'a memory_scheme \<Rightarrow> (int \<times> byte list, 'a memory_scheme) res" where
  "copyinstr pagetable srcva mx s =
     (if mx = 0 then Ok (-1, []) s
      else let va0 = PGROUNDDOWN srcva in
        seq (walkaddr pagetable va0 s) (\<lambda>pa0 s.
        if pa0 = 0 then Ok (-1, []) s
        else let n = min (page_left srcva) mx;
                 (bs, got_null) = copyinstr_page (ram s) (pa0 + (srcva - va0)) n in
          if got_null then Ok (0, bs) s
          else seq (copyinstr pagetable (va0 + PGSIZE) (mx - n) s) (\<lambda>(r, rest) s. Ok (r, bs @ rest) s)))"
  by pat_completeness auto
termination
  by (relation "measure (\<lambda>(_, _, mx, _). mx)") auto

declare copyinstr.simps [simp del]

text \<open>\<open>kernel/proc.c\<close>: the address is a user or a kernel address.\<close>

definition either_copyout :: "bool \<Rightarrow> uint64 \<Rightarrow> byte list \<Rightarrow> 'a memory_scheme \<Rightarrow> (int, 'a memory_scheme) res" where
  "either_copyout user_dst dst src s =
     (if user_dst then
        (case myproc s of None \<Rightarrow> Undef | Some pi \<Rightarrow> copyout (p_pagetable (procs s ! pi)) dst src s)
      else Ok 0 (s\<lparr>ram := wr (ram s) dst src\<rparr>))"

definition either_copyin :: "bool \<Rightarrow> uint64 \<Rightarrow> nat \<Rightarrow> 'a memory_scheme \<Rightarrow> (int \<times> byte list, 'a memory_scheme) res" where
  "either_copyin user_src src len s =
     (if user_src then
        (case myproc s of None \<Rightarrow> Undef | Some pi \<Rightarrow> copyin (p_pagetable (procs s ! pi)) src len s)
      else Ok (0, rd (ram s) src len) s)"

section \<open>The memory a user page table describes\<close>

text \<open>
  \<open>pte_at m pt va\<close> is the address of the level-0 entry of \<open>va\<close> (0: none), \<open>tables m pt va\<close> the three
  tables it is found through, \<open>upage m pt va\<close> the page a user access to \<open>va\<close> goes to.
\<close>

definition pte_at :: "mem \<Rightarrow> uint64 \<Rightarrow> uint64 \<Rightarrow> uint64" where
  "pte_at m pt va =
     (let v2 = ld64 m (pt + 8 * PX 2 va) in
      if v2 AND PTE_V = 0 then 0
      else let v1 = ld64 m (PTE2PA v2 + 8 * PX 1 va) in
        if v1 AND PTE_V = 0 then 0 else PTE2PA v1 + 8 * PX 0 va)"

definition tables :: "mem \<Rightarrow> uint64 \<Rightarrow> uint64 \<Rightarrow> uint64 list" where
  "tables m pt va =
     (let p1 = PTE2PA (ld64 m (pt + 8 * PX 2 va)); p0 = PTE2PA (ld64 m (p1 + 8 * PX 1 va)) in [pt, p1, p0])"

definition upage :: "mem \<Rightarrow> uint64 \<Rightarrow> uint64 \<Rightarrow> uint64" where
  "upage m pt va =
     (let pte = pte_at m pt va; v = ld64 m pte in
      if va < MAXVA \<and> pte \<noteq> 0 \<and> v AND PTE_V \<noteq> 0 \<and> v AND PTE_U \<noteq> 0 then PTE2PA v else 0)"

definition uaddr :: "mem \<Rightarrow> uint64 \<Rightarrow> uint64 \<Rightarrow> uint64" where
  "uaddr m pt va = upage m pt (PGROUNDDOWN va) + (va - PGROUNDDOWN va)"

definition writable :: "mem \<Rightarrow> uint64 \<Rightarrow> uint64 \<Rightarrow> bool" where
  "writable m pt va \<longleftrightarrow> upage m pt va \<noteq> 0 \<and> ld64 m (pte_at m pt va) AND PTE_W \<noteq> 0"

text \<open>
  \<open>user_ok m pt A\<close>: the pages \<open>A\<close> of the address space are writable, are different pages of memory,
  and none of them is one of the tables.
\<close>

definition user_ok :: "mem \<Rightarrow> uint64 \<Rightarrow> uint64 set \<Rightarrow> bool" where
  "user_ok m pt A \<longleftrightarrow> aligned pt \<and> inj_on (upage m pt) A \<and>
     (\<forall>v\<in>A. writable m pt v \<and> (\<forall>w\<in>A. upage m pt w \<notin> set (tables m pt v)))"

lemma walk_lookup: "va < MAXVA \<Longrightarrow> walk pt va False s = Ok (pte_at (ram s) pt va) s"
  by (simp add: walk_def pte_at_def Let_def not_le)

lemma walkaddr_eq: "walkaddr pt va s = Ok (upage (ram s) pt va) s"
  using walk_lookup[of va pt s] by (cases "MAXVA \<le> va") (auto simp: walkaddr_def upage_def Let_def)

lemma ismapped_eq:
  "va < MAXVA \<Longrightarrow> ismapped pt va s =
     Ok (pte_at (ram s) pt va \<noteq> 0 \<and> ld64 (ram s) (pte_at (ram s) pt va) AND PTE_V \<noteq> 0) s"
  by (simp add: ismapped_def walk_lookup)

lemma aligned_PTE2PA [simp]: "aligned (PTE2PA v)"
proof -
  have m: "(PGSIZE - 1 :: uint64) = mask 12" by (simp add: params mask_eq_exp_minus_1)
  have "PTE2PA v = PGROUNDDOWN (PTE2PA v)"
    unfolding PTE2PA_def PGROUNDDOWN_def m by (rule bit_word_eqI) (auto simp: bit_simps not_less)
  then show ?thesis by (metis aligned_PGROUNDDOWN)
qed

lemma in_page_cell:
  assumes "i < 8"
  shows "in_page t (t + 8 * PX l va + of_nat i)"
proof -
  have "PX l va = take_bit 9 (drop_bit (12 + 9 * l) va)"
    using take_bit_eq_mask[of 9 "drop_bit (12 + 9 * l) va"] by (simp add: PX_def mask_eq_exp_minus_1)
  then have px: "unat (PX l va) < 512"
    using take_bit_nat_less_exp[of 9 "unat (drop_bit (12 + 9 * l) va)"] by (simp add: unsigned_take_bit_eq)
  have "unat (8 * PX l va) = 8 * unat (PX l va)" using px unat_mult_lem[of 8 "PX l va"] by simp
  then have "unat (8 * PX l va + of_nat i) = 8 * unat (PX l va) + i"
    using px assms unat_add_lem[of "8 * PX l va" "of_nat i"] by (simp add: unat_of_nat_64)
  then show ?thesis using px assms by (simp add: in_page_def add.assoc)
qed

lemma ld64_cell:
  assumes "aligned p" "aligned t" "p \<noteq> t" "\<And>a. \<not> in_page p a \<Longrightarrow> m' a = m a"
  shows "ld64 m' (t + 8 * PX l va) = ld64 m (t + 8 * PX l va)"
proof -
  have "m' (t + 8 * PX l va + of_nat i) = m (t + 8 * PX l va + of_nat i)" if "i < 8" for i
    using assms(4) pages_disjoint[OF assms(1,2) _ in_page_cell[OF that]] assms(3) by blast
  then show ?thesis unfolding ld64_def by (intro arg_cong[of _ _ le_word] rd_cong)
qed

lemma tables_frame:
  assumes "aligned pt" "aligned p" "p \<notin> set (tables m pt v)" "\<And>a. \<not> in_page p a \<Longrightarrow> m' a = m a"
  shows "tables m' pt v = tables m pt v" "pte_at m' pt v = pte_at m pt v"
    "pte_at m pt v \<noteq> 0 \<Longrightarrow> ld64 m' (pte_at m pt v) = ld64 m (pte_at m pt v)"
proof -
  define v2 where "v2 = ld64 m (pt + 8 * PX 2 v)"
  define v1 where "v1 = ld64 m (PTE2PA v2 + 8 * PX 1 v)"
  have n: "p \<noteq> pt" "p \<noteq> PTE2PA v2" "p \<noteq> PTE2PA v1" using assms(3) by (auto simp: tables_def v2_def v1_def Let_def)
  note c = ld64_cell[OF assms(2) _ _ assms(4)]
  have v2: "ld64 m' (pt + 8 * PX 2 v) = v2" using c[OF assms(1) n(1)] by (simp add: v2_def)
  have v1: "ld64 m' (PTE2PA v2 + 8 * PX 1 v) = v1" using c[OF _ n(2)] by (simp add: v1_def)
  show "tables m' pt v = tables m pt v" "pte_at m' pt v = pte_at m pt v"
    using v2 v1 by (simp_all add: tables_def pte_at_def Let_def del: One_nat_def flip: v2_def v1_def)
  show "ld64 m' (pte_at m pt v) = ld64 m (pte_at m pt v)" if "pte_at m pt v \<noteq> 0"
    using that c[OF _ n(3)] by (auto simp: pte_at_def Let_def simp del: One_nat_def simp flip: v2_def v1_def split: if_splits)
qed

lemma upage_nonzero: "upage m pt v \<noteq> 0 \<Longrightarrow> pte_at m pt v \<noteq> 0 \<and> v < MAXVA"
  by (auto simp: upage_def Let_def split: if_splits)

lemma aligned_upage [simp]: "aligned (upage m pt v)"
  by (simp add: upage_def Let_def) (simp add: aligned_def)

text \<open>A write to one of the pages leaves the translation of all of them as it was.\<close>

lemma user_ok_frame:
  assumes "user_ok m pt A" "w \<in> A" "\<And>a. \<not> in_page (upage m pt w) a \<Longrightarrow> m' a = m a"
  shows "user_ok m' pt A" "v \<in> A \<Longrightarrow> upage m' pt v = upage m pt v"
proof -
  have t: "tables m' pt v = tables m pt v" "pte_at m' pt v = pte_at m pt v"
    "ld64 m' (pte_at m pt v) = ld64 m (pte_at m pt v)" if "v \<in> A" for v
  proof -
    have a: "aligned pt" "upage m pt w \<notin> set (tables m pt v)" "upage m pt v \<noteq> 0"
      using assms(1,2) that by (auto simp: user_ok_def writable_def)
    show "tables m' pt v = tables m pt v" "pte_at m' pt v = pte_at m pt v"
      "ld64 m' (pte_at m pt v) = ld64 m (pte_at m pt v)"
      using tables_frame[OF a(1) aligned_upage a(2) assms(3)] upage_nonzero[OF a(3)] by simp_all
  qed
  have u: "upage m' pt v = upage m pt v" if "v \<in> A" for v
    using t[OF that] by (simp add: upage_def Let_def)
  show "v \<in> A \<Longrightarrow> upage m' pt v = upage m pt v" using u .
  have "inj_on (upage m' pt) A \<longleftrightarrow> inj_on (upage m pt) A" using u by (simp cong: inj_on_cong)
  then show "user_ok m' pt A" using assms(1) u t by (simp add: user_ok_def writable_def)
qed

text \<open>\<open>urange va n A\<close>: the \<open>n\<close> bytes at \<open>va\<close> are below \<open>MAXVA\<close> and in the pages \<open>A\<close>.\<close>

definition urange :: "uint64 \<Rightarrow> nat \<Rightarrow> uint64 set \<Rightarrow> bool" where
  "urange va n A \<longleftrightarrow> unat va + n \<le> unat MAXVA \<and> (\<forall>i<n. PGROUNDDOWN (va + of_nat i) \<in> A)"

lemma urange_unat:
  assumes "urange va n A" "i \<le> n"
  shows "unat (va + of_nat i) = unat va + i"
proof -
  have "unat va + i < 2 ^ 64" using assms by (simp add: urange_def params)
  then show ?thesis using unat_add_lem[of va "of_nat i"] by (simp add: unat_of_nat_64)
qed

lemma add_div_same: "0 < b \<Longrightarrow> (x + i) div b = x div b + (x mod b + i) div (b :: nat)"
  using div_mult_self3[of b "x div b" "x mod b + i"] by (simp flip: add.assoc)

lemma urange_start: "urange va n A \<Longrightarrow> 0 < n \<Longrightarrow> PGROUNDDOWN va \<in> A"
  unfolding urange_def by (elim conjE allE[of _ 0]) simp

lemma word_eq_unat: "a = b \<longleftrightarrow> unat a = unat (b :: uint64)"
  using unsigned_word_eqI by blast

lemma urange_page:
  assumes "urange va n A" "i < n"
  shows "PGROUNDDOWN (va + of_nat i) = PGROUNDDOWN va \<longleftrightarrow> i < page_left va"
proof -
  have "PGROUNDDOWN (va + of_nat i) = PGROUNDDOWN va \<longleftrightarrow> (unat va + i) div 4096 = unat va div 4096"
    using urange_unat[of va n A i] assms unat_PGROUNDDOWN[of va] unat_PGROUNDDOWN[of "va + of_nat i"]
    by (simp add: word_eq_unat)
  also have "\<dots> \<longleftrightarrow> i < 4096 - unat va mod 4096"
    using add_div_same[of 4096 "unat va" i] by (auto simp: div_eq_0_iff)
  finally show ?thesis by (simp add: page_left_eq)
qed

lemma urange_next:
  assumes "urange va n A" "page_left va < n"
  shows "PGROUNDDOWN va + PGSIZE = va + of_nat (page_left va)" "urange (va + of_nat (page_left va)) (n - page_left va) A"
proof -
  show "PGROUNDDOWN va + PGSIZE = va + of_nat (page_left va)"
    by (simp add: page_left_def)
  have "unat (va + of_nat (page_left va)) = unat va + page_left va"
    using urange_unat[OF assms(1)] assms(2) by simp
  then show "urange (va + of_nat (page_left va)) (n - page_left va) A"
    using assms unfolding urange_def by (auto simp: less_diff_conv add.assoc simp flip: of_nat_add)
qed

lemma uaddr_in_page: "in_page (upage m pt (PGROUNDDOWN va)) (uaddr m pt va)"
  by (simp add: uaddr_def in_page_def unat_page_off)

lemma uaddr_first:
  assumes "urange va n A" "i < n" "i < page_left va"
  shows "uaddr m pt (va + of_nat i) = upage m pt (PGROUNDDOWN va) + (va - PGROUNDDOWN va) + of_nat i"
  using urange_page[OF assms(1,2)] assms(3) by (simp add: uaddr_def)

lemma uaddr_later:
  assumes "user_ok m pt A" "urange va n A" "i < n" "page_left va \<le> i"
  shows "\<not> in_page (upage m pt (PGROUNDDOWN va)) (uaddr m pt (va + of_nat i))"
proof
  let ?w = "PGROUNDDOWN (va + of_nat i)"
  assume "in_page (upage m pt (PGROUNDDOWN va)) (uaddr m pt (va + of_nat i))"
  then have "upage m pt (PGROUNDDOWN va) = upage m pt ?w"
    using pages_disjoint[OF aligned_upage aligned_upage _ uaddr_in_page] by blast
  moreover have "PGROUNDDOWN va \<in> A" "?w \<in> A"
    using assms(2,3) urange_start[OF assms(2)] by (simp_all add: urange_def)
  ultimately have "?w = PGROUNDDOWN va" using assms(1) unfolding user_ok_def inj_on_def by metis
  then show False using urange_page[OF assms(2,3)] assms(4) by simp
qed

lemma uaddr_inj:
  assumes "user_ok m pt A" "PGROUNDDOWN x \<in> A" "PGROUNDDOWN y \<in> A" "uaddr m pt x = uaddr m pt y"
  shows "x = y"
proof -
  have "upage m pt (PGROUNDDOWN x) = upage m pt (PGROUNDDOWN y)"
    using pages_disjoint[OF aligned_upage aligned_upage uaddr_in_page] uaddr_in_page[of m pt y] assms(4) by metis
  moreover from this have "PGROUNDDOWN x = PGROUNDDOWN y"
    using assms(1,2,3) unfolding user_ok_def inj_on_def by metis
  ultimately show ?thesis using assms(4) by (simp add: uaddr_def)
qed

lemma copyin_law:
  "user_ok (ram s) pt A \<Longrightarrow> urange va n A \<Longrightarrow>
   copyin pt va n s = Ok (0, map (\<lambda>i. ram s (uaddr (ram s) pt (va + of_nat i))) [0..<n]) s"
proof (induction n arbitrary: va rule: less_induct)
  case (less n)
  let ?m = "ram s" and ?k = "min (page_left va) n" and ?p = "PGROUNDDOWN va"
  show ?case
  proof (cases "n = 0")
    case False
    then have "?p \<in> A" using urange_start[OF less.prems(2)] by simp
    then have u: "upage ?m pt ?p \<noteq> 0" using less.prems(1) by (auto simp: user_ok_def writable_def)
    have first: "rd ?m (upage ?m pt ?p + (va - ?p)) ?k = map (\<lambda>i. ?m (uaddr ?m pt (va + of_nat i))) [0..<?k]"
      using uaddr_first[OF less.prems(2)] by (auto simp: rd_def)
    have rest: "copyin pt (?p + PGSIZE) (n - ?k) s =
      Ok (0, map (\<lambda>i. ?m (uaddr ?m pt (va + of_nat (?k + i)))) [0..<n - ?k]) s"
    proof (cases "page_left va < n")
      case True
      have "n - page_left va < n" using False by simp
      then show ?thesis
        using less.IH[OF _ less.prems(1) urange_next(2)[OF less.prems(2) True]] urange_next(1)[OF less.prems(2) True] True
        by (simp add: add.assoc)
    qed (simp add: copyin.simps)
    have "map f [0..<?k] @ map (\<lambda>i. f (?k + i)) [0..<n - ?k] = map f [0..<n]" for f :: "nat \<Rightarrow> byte"
      by (intro nth_equalityI) (auto simp: nth_append)
    from this[of "\<lambda>i. ?m (uaddr ?m pt (va + of_nat i))"] show ?thesis using False u first rest
      by (subst copyin.simps) (simp add: Let_def walkaddr_eq del: of_nat_add)
  qed (simp add: copyin.simps)
qed

lemma copyout_law:
  "user_ok (ram s) pt A \<Longrightarrow> urange va (length bs) A \<Longrightarrow>
   \<exists>m'. copyout pt va bs s = Ok 0 (s\<lparr>ram := m'\<rparr>) \<and> user_ok m' pt A \<and>
     (\<forall>v\<in>A. upage m' pt v = upage (ram s) pt v) \<and>
     (\<forall>i<length bs. m' (uaddr (ram s) pt (va + of_nat i)) = bs ! i) \<and>
     (\<forall>a. (\<forall>i<length bs. a \<noteq> uaddr (ram s) pt (va + of_nat i)) \<longrightarrow> m' a = ram s a)"
proof (induction bs arbitrary: va s rule: length_induct)
  case (1 bs)
  let ?m = "ram s" and ?k = "min (page_left va) (length bs)" and ?p = "PGROUNDDOWN va"
  show ?case
  proof (cases "bs = []")
    case True
    then show ?thesis using 1 by (intro exI[of _ ?m]) (simp add: copyout.simps)
  next
    case False
    note rng = "1.prems"(2)
    have p: "?p \<in> A" using urange_start[OF rng] False by simp
    then have u: "upage ?m pt ?p \<noteq> 0" "ld64 ?m (pte_at ?m pt ?p) AND PTE_W \<noteq> 0"
      using "1.prems"(1) by (auto simp: user_ok_def writable_def)
    let ?a = "upage ?m pt ?p + (va - ?p)"
    define m1 where "m1 = wr ?m ?a (take ?k bs)"
    have first: "uaddr ?m pt (va + of_nat i) = ?a + of_nat i" if "i < ?k" for i
      using uaddr_first[OF rng] that by simp
    have m1: "m1 (uaddr ?m pt (va + of_nat i)) = bs ! i" if "i < ?k" for i
      using that first[OF that] by (simp add: m1_def page_left_eq)
    have out: "m1 a = ?m a" if "\<forall>i<?k. a \<noteq> uaddr ?m pt (va + of_nat i)" for a
    proof -
      have "\<not> unat (a - ?a) < ?k" using that first word_offset[of a ?a] by metis
      then show ?thesis by (auto simp: m1_def wr_def)
    qed
    have pg: "PGROUNDDOWN (va + of_nat i) = ?p" if "i < ?k" for i using urange_page[OF rng] that by simp
    have page: "m1 a = ?m a" if "\<not> in_page (upage ?m pt ?p) a" for a
    proof (rule out, intro allI impI notI)
      fix i assume "i < ?k" "a = uaddr ?m pt (va + of_nat i)"
      then show False using that uaddr_in_page[of ?m pt "va + of_nat i"] pg by simp
    qed
    note ok1 = user_ok_frame[OF "1.prems"(1) p page]
    have ua: "uaddr m1 pt (va + of_nat i) = uaddr ?m pt (va + of_nat i)" if "i < length bs" for i
      using ok1(2)[of "PGROUNDDOWN (va + of_nat i)"] rng that by (simp add: uaddr_def urange_def)
    have step: "copyout pt va bs s = copyout pt (?p + PGSIZE) (drop ?k bs) (s\<lparr>ram := m1\<rparr>)"
      using False u upage_nonzero[OF u(1)] linorder_not_less[of ?p MAXVA]
      by (subst copyout.simps) (simp add: Let_def walkaddr_eq walk_lookup m1_def)
    show ?thesis
    proof (cases "page_left va < length bs")
      case False
      then have "?k = length bs" by simp
      then show ?thesis using step ok1 m1 out
        by (intro exI[of _ m1]) (simp add: copyout.simps)
    next
      case True
      then have k: "?k = page_left va" by simp
      have len2: "length (drop ?k bs) = length bs - page_left va" by simp
      have len: "length (drop ?k bs) < length bs"
        unfolding len2 by (rule diff_less) (use True in \<open>auto intro: Nat.gr0I\<close>)
      have r': "urange (va + of_nat (page_left va)) (length (drop ?k bs)) A"
        using urange_next(2)[OF rng True] len2 by simp
      have "user_ok (ram (s\<lparr>ram := m1\<rparr>)) pt A" using ok1(1) by simp
      from "1.IH"[rule_format, OF len this r'] obtain m' where m':
        "copyout pt (va + of_nat (page_left va)) (drop ?k bs) (s\<lparr>ram := m1\<rparr>) = Ok 0 (s\<lparr>ram := m'\<rparr>)"
        "user_ok m' pt A" "\<forall>v\<in>A. upage m' pt v = upage m1 pt v"
        "\<forall>i<length bs - ?k. m' (uaddr m1 pt (va + of_nat (?k + i))) = bs ! (?k + i)"
        "\<forall>a. (\<forall>i<length bs - ?k. a \<noteq> uaddr m1 pt (va + of_nat (?k + i))) \<longrightarrow> m' a = m1 a"
        unfolding k by (elim exE conjE) (simp add: add.assoc)
      have late: "m' (uaddr ?m pt (va + of_nat i)) = bs ! i" if "i < length bs" "?k \<le> i" for i
        using m'(4)[rule_format, of "i - ?k"] that ua by (simp del: of_nat_add)
      have early: "m' (uaddr ?m pt (va + of_nat i)) = bs ! i" if le: "i < ?k" for i
      proof -
        have "uaddr ?m pt (va + of_nat i) \<noteq> uaddr m1 pt (va + of_nat (?k + j))" if "j < length bs - ?k" for j
          using uaddr_later[OF "1.prems"(1) rng, of "?k + j"] uaddr_in_page[of ?m pt "va + of_nat i"] pg[OF le] that k ua[of "?k + j"]
          by (auto simp del: of_nat_add)
        then have "m' (uaddr ?m pt (va + of_nat i)) = m1 (uaddr ?m pt (va + of_nat i))"
          using m'(5)[rule_format, of "uaddr ?m pt (va + of_nat i)"] by blast
        then show ?thesis using m1[OF le] by simp
      qed
      have outs: "m' a = ?m a" if out': "\<forall>i<length bs. a \<noteq> uaddr ?m pt (va + of_nat i)" for a
      proof -
        have "a \<noteq> uaddr m1 pt (va + of_nat (?k + i))" if "i < length bs - ?k" for i
          using that out' ua[of "?k + i"] by (simp add: less_diff_conv add.commute del: of_nat_add)
        then have "m' a = m1 a" using m'(5)[rule_format, of a] by blast
        then show ?thesis using out[of a] out' by simp
      qed
      have "copyout pt va bs s = Ok 0 (s\<lparr>ram := m'\<rparr>)"
        using step m'(1) urange_next(1)[OF rng True] k by simp
      moreover have "m' (uaddr ?m pt (va + of_nat i)) = bs ! i" if "i < length bs" for i
        using early[of i] late[of i] that by (cases "i < ?k") (simp_all add: not_less)
      ultimately show ?thesis using m'(2,3) ok1(2) outs by (intro exI[of _ m']) simp
    qed
  qed
qed

lemma ld64_st64_other:
  assumes "8 \<le> unat (b - a)" "8 \<le> unat (a - b)"
  shows "ld64 (st64 a v m) b = ld64 m b"
proof -
  have "\<not> unat (b + of_nat i - a) < 8" if i: "i < 8" for i
  proof (cases "unat (b - a) + i < 2 ^ 64")
    case True
    then have "unat (b - a + of_nat i) = unat (b - a) + i"
      using unat_add_lem[of "b - a" "of_nat i"] i by (simp add: unat_of_nat_64)
    then show ?thesis using assms(1) by (simp add: algebra_simps)
  next
    case False
    let ?d = "2 ^ 64 - unat (b - a)"
    have le: "unat (b - a) \<le> 2 ^ 64" using unsigned_less[of "b - a", where ?'a = nat] by simp
    have "of_nat ?d = - (b - a)" by (simp only: of_nat_diff[OF le]) simp
    then have "a - b = of_nat ?d" by simp
    then have "unat (a - b) = ?d" using False i by (simp add: unat_of_nat_64)
    then show ?thesis using False i assms(2) by simp
  qed
  then show ?thesis unfolding ld64_def st64_def
    by (intro arg_cong[of _ _ le_word] rd_cong) (simp add: wr_def)
qed

text \<open>A two-page address space: the tables at 0x80022000 to 0x80024000, the pages after them.\<close>

definition example_user :: memory where
  "example_user = example_memory\<lparr>ram :=
     st64 0x80024008 0x20009817 (st64 0x80024000 0x20009417
       (st64 0x80023000 0x20009001 (st64 0x80022000 0x20008C01 (\<lambda>_. 0))))\<rparr>"

lemma example_user_pages:
  "upage (ram example_user) 0x80022000 0 = 0x80025000" "upage (ram example_user) 0x80022000 0x1000 = 0x80026000"
  "user_ok (ram example_user) 0x80022000 {0, 0x1000}"
proof -
  let ?m = "ram example_user"
  have ld: "ld64 ?m 0x80022000 = 0x20008C01" "ld64 ?m 0x80023000 = 0x20009001"
    "ld64 ?m 0x80024000 = 0x20009417" "ld64 ?m 0x80024008 = 0x20009817"
    by (simp_all add: example_user_def ld64_st64_other)
  have px: "PX l 0 = 0" "PX 0 0x1000 = 1" "PX (Suc 0) 0x1000 = 0" "PX 2 0x1000 = 0" for l
    by (simp_all add: PX_def drop_bit_eq_div)
  have pa: "PTE2PA 0x20008C01 = 0x80023000" "PTE2PA 0x20009001 = 0x80024000" "PTE2PA 0x20009417 = 0x80025000"
    "PTE2PA 0x20009817 = 0x80026000"
    by (simp_all add: PTE2PA_def drop_bit_eq_div push_bit_eq_mult)
  have pte: "pte_at ?m 0x80022000 0 = 0x80024000" "pte_at ?m 0x80022000 0x1000 = 0x80024008"
    "tables ?m 0x80022000 0 = [0x80022000, 0x80023000, 0x80024000]"
    "tables ?m 0x80022000 0x1000 = [0x80022000, 0x80023000, 0x80024000]"
    by (simp_all add: pte_at_def tables_def Let_def ld px pa params)
  show u: "upage ?m 0x80022000 0 = 0x80025000" "upage ?m 0x80022000 0x1000 = 0x80026000"
    by (simp_all add: upage_def pte ld pa params)
  show "user_ok ?m 0x80022000 {0, 0x1000}"
    by (simp add: user_ok_def writable_def u pte ld unat_mod_PGSIZE) (simp add: params)
qed

text \<open>
  C6: what the kernel copies out to user memory is what it copies back in.  Let the range of
  \<open>length bs\<close> bytes at \<open>va\<close> lie in pages \<open>A\<close> of the page table that are mapped with \<open>PTE_V\<close>,
  \<open>PTE_U\<close> and \<open>PTE_W\<close>, to different pages of memory none of which is one of its tables.  Then
  \<open>copyout\<close> of \<open>bs\<close> succeeds whatever page boundaries the range crosses, \<open>copyin\<close> of the same range
  returns \<open>bs\<close>, every other user byte of \<open>A\<close> keeps its value, and the translation of the pages of \<open>A\<close>
  has not changed.
\<close>

theorem copyout_copyin_roundtrip:
  assumes "user_ok (ram s) pt A" "urange va (length bs) A"
  shows "\<exists>m. copyout pt va bs s = Ok 0 (s\<lparr>ram := m\<rparr>) \<and>
    copyin pt va (length bs) (s\<lparr>ram := m\<rparr>) = Ok (0, bs) (s\<lparr>ram := m\<rparr>) \<and>
    (\<forall>v\<in>A. upage m pt v = upage (ram s) pt v) \<and>
    (\<forall>x. PGROUNDDOWN x \<in> A \<longrightarrow> (\<forall>i<length bs. x \<noteq> va + of_nat i) \<longrightarrow>
       m (uaddr (ram s) pt x) = ram s (uaddr (ram s) pt x))"
proof -
  obtain m where m: "copyout pt va bs s = Ok 0 (s\<lparr>ram := m\<rparr>)" "user_ok m pt A"
    "\<forall>v\<in>A. upage m pt v = upage (ram s) pt v"
    "\<forall>i<length bs. m (uaddr (ram s) pt (va + of_nat i)) = bs ! i"
    "\<forall>a. (\<forall>i<length bs. a \<noteq> uaddr (ram s) pt (va + of_nat i)) \<longrightarrow> m a = ram s a"
    using copyout_law[OF assms] by metis
  have ua: "uaddr m pt (va + of_nat i) = uaddr (ram s) pt (va + of_nat i)" if "i < length bs" for i
    using that assms(2) m(3) by (simp add: uaddr_def urange_def)
  have "map (\<lambda>i. m (uaddr m pt (va + of_nat i))) [0..<length bs] = bs"
    by (rule nth_equalityI) (simp_all add: ua m(4))
  then have "copyin pt va (length bs) (s\<lparr>ram := m\<rparr>) = Ok (0, bs) (s\<lparr>ram := m\<rparr>)"
    using copyin_law[of "s\<lparr>ram := m\<rparr>" pt A va "length bs"] m(2) assms(2) by simp
  moreover have "m (uaddr (ram s) pt x) = ram s (uaddr (ram s) pt x)"
    if "PGROUNDDOWN x \<in> A" "\<forall>i<length bs. x \<noteq> va + of_nat i" for x
    using m(5) uaddr_inj[OF assms(1) that(1)] assms(2) that(2) unfolding urange_def by blast
  ultimately show ?thesis using m(1,3) by blast
qed

theorem copyout_copyin_roundtrip_witness:
  "\<exists>m. copyout 0x80022000 0xFFE [1, 2, 3, 4] example_user = Ok 0 (example_user\<lparr>ram := m\<rparr>) \<and>
    copyin 0x80022000 0xFFE 4 (example_user\<lparr>ram := m\<rparr>) = Ok (0, [1, 2, 3, 4]) (example_user\<lparr>ram := m\<rparr>)"
proof -
  have e: "{i. i < 4} = {0, 1, 2, 3 :: nat}" by auto
  have "PGROUNDDOWN 0xFFE = 0" "PGROUNDDOWN 0xFFF = 0" "PGROUNDDOWN 0x1000 = 0x1000" "PGROUNDDOWN 0x1001 = 0x1000"
    by (simp_all add: PGROUNDDOWN_def params)
  then have "\<forall>i \<in> {i. i < 4}. PGROUNDDOWN (0xFFE + of_nat i) \<in> {0, 0x1000}" unfolding e by simp
  then have "urange 0xFFE (length [1, 2, 3, 4 :: byte]) {0, 0x1000}" by (simp add: urange_def params)
  moreover have "length [1, 2, 3, 4 :: byte] = 4" by simp
  ultimately show ?thesis using copyout_copyin_roundtrip[OF example_user_pages(3)] by metis
qed

end
