(* ===== verification/Fs.thy ===== *)
theory Fs
  imports Log Vm
begin

text \<open>
  The file system below system calls, \<open>kernel/fs.c\<close> with \<open>struct inode\<close> of \<open>kernel/file.h\<close> and the
  on-disk structures of \<open>kernel/fs.h\<close>: the block allocator, the inode table, file contents,
  directories and path names.  A pointer to an in-memory inode is its index in \<open>itable.inode[]\<close>;
  where the code tests it against 0 it is an \<open>option\<close>.  \<open>struct dinode\<close> and \<open>struct dirent\<close> are read
  from and written to the bytes of a block, little endian.

  \<open>readi\<close> and \<open>writei\<close> copy to and from an address.  The callers inside the file system pass the
  address of a local \<open>struct dirent\<close>; \<open>readi_local\<close> and \<open>writei_local\<close> are the same loops with that
  local passed by value.  A path is the list of bytes up to its terminating NUL.  Messages printed
  with \<open>printf\<close> are left out.
\<close>

record inode =
  i_dev :: nat
  i_inum :: nat
  i_ref :: int
  i_valid :: bool
  i_type :: ushort
  i_major :: ushort
  i_minor :: ushort
  i_nlink :: ushort
  i_size :: uint
  i_addrs :: "nat list"

record fs = logging +
  sb :: superblock
  itable :: "inode list"

section \<open>On-disk structures\<close>

text \<open>\<open>struct superblock\<close>: eight 32-bit fields.\<close>

definition superblock_of :: "byte list \<Rightarrow> superblock" where
  "superblock_of d =
     \<lparr>sb_magic = get32 0 d, sb_size = unat (get32 4 d), sb_nblocks = unat (get32 8 d),
      sb_ninodes = unat (get32 12 d), sb_nlog = unat (get32 16 d), sb_logstart = unat (get32 20 d),
      sb_inodestart = unat (get32 24 d), sb_bmapstart = unat (get32 28 d)\<rparr>"

text \<open>\<open>struct dinode\<close> at byte \<open>o\<close> of a block: four shorts, the size, and 13 block addresses.\<close>

definition dinode_type :: "nat \<Rightarrow> byte list \<Rightarrow> ushort" where
  "dinode_type off d = get16 off d"

definition dinode_nlink :: "nat \<Rightarrow> byte list \<Rightarrow> ushort" where
  "dinode_nlink off d = get16 (off + 6) d"

definition load_dinode :: "nat \<Rightarrow> byte list \<Rightarrow> inode \<Rightarrow> inode" where
  "load_dinode off d ip = ip\<lparr>
     i_type := dinode_type off d, i_major := get16 (off + 2) d, i_minor := get16 (off + 4) d,
     i_nlink := dinode_nlink off d, i_size := get32 (off + 8) d,
     i_addrs := map (\<lambda>i. unat (get32 (off + 12 + 4 * i) d)) [0..<NDIRECT + 1]\<rparr>"

definition dinode_bytes :: "inode \<Rightarrow> byte list" where
  "dinode_bytes ip = le_bytes (i_type ip) @ le_bytes (i_major ip) @ le_bytes (i_minor ip) @
     le_bytes (i_nlink ip) @ le_bytes (i_size ip) @
     concat (map (\<lambda>a. le_bytes (of_nat a :: uint)) (i_addrs ip))"

definition store_dinode :: "nat \<Rightarrow> inode \<Rightarrow> byte list \<Rightarrow> byte list" where
  "store_dinode off ip d = splice off (dinode_bytes ip) d"

definition dinode_off :: "nat \<Rightarrow> nat" where
  "dinode_off inum = inum mod IPB * DINODE_SIZE"

text \<open>\<open>struct dirent\<close>: \<open>inum\<close>, then \<open>DIRSIZ\<close> bytes of name as \<open>strncpy\<close> stores them.\<close>

definition de_inum :: "byte list \<Rightarrow> nat" where
  "de_inum de = unat (get16 0 de)"

definition de_name :: "byte list \<Rightarrow> byte list" where
  "de_name de = drop 2 de"

definition dir_name :: "byte list \<Rightarrow> byte list" where
  "dir_name name = take DIRSIZ (takeWhile (\<lambda>c. c \<noteq> 0) name @ replicate DIRSIZ 0)"

definition dirent :: "nat \<Rightarrow> byte list \<Rightarrow> byte list" where
  "dirent inum name = le_bytes (of_nat inum :: ushort) @ dir_name name"

section \<open>Super block and block allocator\<close>

definition readsb :: "nat \<Rightarrow> 'a fs_scheme \<Rightarrow> (unit, 'a fs_scheme) res" where
  "readsb dev s =
     seq (bread dev 1 s) (\<lambda>bp s.
     brelse bp (s\<lparr>sb := superblock_of (b_data (bufs s bp))\<rparr>))"

definition bzero :: "nat \<Rightarrow> nat \<Rightarrow> 'a fs_scheme \<Rightarrow> (unit, 'a fs_scheme) res" where
  "bzero dev bno s =
     seq (bread dev bno s) (\<lambda>bp s.
     let s = set_bdata bp (replicate BSIZE 0) s in
     seq (log_write bp s) (\<lambda>_ s. brelse bp s))"

definition bmask :: "nat \<Rightarrow> byte" where
  "bmask bi = push_bit (bi mod 8) 1"

definition bit_used :: "byte list \<Rightarrow> nat \<Rightarrow> bool" where
  "bit_used d bi \<longleftrightarrow> d ! (bi div 8) AND bmask bi \<noteq> 0"

definition mark_used :: "byte list \<Rightarrow> nat \<Rightarrow> byte list" where
  "mark_used d bi = d[bi div 8 := d ! (bi div 8) OR bmask bi]"

definition mark_free :: "byte list \<Rightarrow> nat \<Rightarrow> byte list" where
  "mark_free d bi = d[bi div 8 := d ! (bi div 8) AND NOT (bmask bi)]"

text \<open>\<open>balloc\<close> looks at the bitmap blocks in turn; the list holds the remaining values of \<open>b\<close>.\<close>

fun balloc_from :: "nat \<Rightarrow> nat list \<Rightarrow> 'a fs_scheme \<Rightarrow> (nat, 'a fs_scheme) res" where
  "balloc_from dev [] s = Ok 0 s"
| "balloc_from dev (b # bs) s =
     seq (bread dev (BBLOCK b (sb s)) s) (\<lambda>bp s.
     case find (\<lambda>bi. \<not> bit_used (b_data (bufs s bp)) bi) [0..<min BPB (sb_size (sb s) - b)] of
       Some bi \<Rightarrow>
         let s = set_bdata bp (mark_used (b_data (bufs s bp)) bi) s in
         seq (log_write bp s) (\<lambda>_ s.
         seq (brelse bp s) (\<lambda>_ s.
         seq (bzero dev (b + bi) s) (\<lambda>_ s. Ok (b + bi) s)))
     | None \<Rightarrow> seq (brelse bp s) (\<lambda>_ s. balloc_from dev bs s))"

definition bitmap_starts :: "superblock \<Rightarrow> nat list" where
  "bitmap_starts b = map (\<lambda>k. k * BPB) [0..<(sb_size b + BPB - 1) div BPB]"

definition balloc :: "nat \<Rightarrow> 'a fs_scheme \<Rightarrow> (nat, 'a fs_scheme) res" where
  "balloc dev s = balloc_from dev (bitmap_starts (sb s)) s"

definition bfree :: "nat \<Rightarrow> nat \<Rightarrow> 'a fs_scheme \<Rightarrow> (unit, 'a fs_scheme) res" where
  "bfree dev b s =
     seq (bread dev (BBLOCK b (sb s)) s) (\<lambda>bp s.
     let bi = b mod BPB in
     if \<not> bit_used (b_data (bufs s bp)) bi then Panic ''freeing free block''
     else let s = set_bdata bp (mark_free (b_data (bufs s bp)) bi) s in
       seq (log_write bp s) (\<lambda>_ s. brelse bp s))"

section \<open>The inode table\<close>

definition ino :: "nat \<Rightarrow> 'a fs_scheme \<Rightarrow> inode" where
  "ino ip s = itable s ! ip"

definition upd_ino :: "nat \<Rightarrow> (inode \<Rightarrow> inode) \<Rightarrow> 'a fs_scheme \<Rightarrow> 'a fs_scheme" where
  "upd_ino ip f s = s\<lparr>itable := (itable s)[ip := f (itable s ! ip)]\<rparr>"

definition iinit :: "'a fs_scheme \<Rightarrow> (unit, 'a fs_scheme) res" where
  "iinit s = foreach [0..<NINODE] (\<lambda>i s. Ok () (initsleeplock (SInode i) ''inode'' s)) (initlock LItable ''itable'' s)"

definition iget :: "nat \<Rightarrow> nat \<Rightarrow> 'a fs_scheme \<Rightarrow> (nat, 'a fs_scheme) res" where
  "iget dev inum s =
     seq (acquire LItable s) (\<lambda>_ s.
     case find (\<lambda>i. 0 < i_ref (ino i s) \<and> i_dev (ino i s) = dev \<and> i_inum (ino i s) = inum) [0..<NINODE] of
       Some ip \<Rightarrow>
         let s = upd_ino ip (\<lambda>i. i\<lparr>i_ref := i_ref i + 1\<rparr>) s in
         seq (release LItable s) (\<lambda>_ s. Ok ip s)
     | None \<Rightarrow>
         (case find (\<lambda>i. i_ref (ino i s) = 0) [0..<NINODE] of
            None \<Rightarrow> Panic ''iget: no inodes''
          | Some ip \<Rightarrow>
              let s = upd_ino ip (\<lambda>i. i\<lparr>i_dev := dev, i_inum := inum, i_ref := 1, i_valid := False\<rparr>) s in
              seq (release LItable s) (\<lambda>_ s. Ok ip s)))"

fun ialloc_from :: "nat \<Rightarrow> ushort \<Rightarrow> nat list \<Rightarrow> 'a fs_scheme \<Rightarrow> (nat option, 'a fs_scheme) res" where
  "ialloc_from dev type [] s = Ok None s"
| "ialloc_from dev type (inum # inums) s =
     seq (bread dev (IBLOCK inum (sb s)) s) (\<lambda>bp s.
     let off = dinode_off inum; d = b_data (bufs s bp) in
     if dinode_type off d = 0 then
       let s = set_bdata bp (put16 off type (splice off (replicate DINODE_SIZE 0) d)) s in
       seq (log_write bp s) (\<lambda>_ s.
       seq (brelse bp s) (\<lambda>_ s.
       seq (iget dev inum s) (\<lambda>ip s. Ok (Some ip) s)))
     else seq (brelse bp s) (\<lambda>_ s. ialloc_from dev type inums s))"

definition ialloc :: "nat \<Rightarrow> ushort \<Rightarrow> 'a fs_scheme \<Rightarrow> (nat option, 'a fs_scheme) res" where
  "ialloc dev type s = ialloc_from dev type [1..<sb_ninodes (sb s)] s"

definition iupdate :: "nat \<Rightarrow> 'a fs_scheme \<Rightarrow> (unit, 'a fs_scheme) res" where
  "iupdate ip s =
     seq (bread (i_dev (ino ip s)) (IBLOCK (i_inum (ino ip s)) (sb s)) s) (\<lambda>bp s.
     let s = set_bdata bp (store_dinode (dinode_off (i_inum (ino ip s))) (ino ip s) (b_data (bufs s bp))) s in
     seq (log_write bp s) (\<lambda>_ s. brelse bp s))"

definition idup :: "nat \<Rightarrow> 'a fs_scheme \<Rightarrow> (nat, 'a fs_scheme) res" where
  "idup ip s =
     seq (acquire LItable s) (\<lambda>_ s.
     let s = upd_ino ip (\<lambda>i. i\<lparr>i_ref := i_ref i + 1\<rparr>) s in
     seq (release LItable s) (\<lambda>_ s. Ok ip s))"

definition ilock :: "nat option \<Rightarrow> 'a fs_scheme \<Rightarrow> (unit, 'a fs_scheme) res" where
  "ilock ipp s =
     (case ipp of None \<Rightarrow> Panic ''ilock'' | Some ip \<Rightarrow>
        if i_ref (ino ip s) < 1 then Panic ''ilock''
        else seq (acquiresleep (SInode ip) s) (\<lambda>_ s.
          if \<not> i_valid (ino ip s) then
            seq (bread (i_dev (ino ip s)) (IBLOCK (i_inum (ino ip s)) (sb s)) s) (\<lambda>bp s.
            let s = upd_ino ip (load_dinode (dinode_off (i_inum (ino ip s))) (b_data (bufs s bp))) s in
            seq (brelse bp s) (\<lambda>_ s.
            let s = upd_ino ip (\<lambda>i. i\<lparr>i_valid := True\<rparr>) s in
            if i_type (ino ip s) = 0 then Panic ''ilock: no type'' else Ok () s))
          else Ok () s))"

definition iunlock :: "nat option \<Rightarrow> 'a fs_scheme \<Rightarrow> (unit, 'a fs_scheme) res" where
  "iunlock ipp s =
     (case ipp of None \<Rightarrow> Panic ''iunlock'' | Some ip \<Rightarrow>
        seq (holdingsleep (SInode ip) s) (\<lambda>h s.
        if \<not> h \<or> i_ref (ino ip s) < 1 then Panic ''iunlock'' else releasesleep (SInode ip) s))"

section \<open>Inode content\<close>

definition bmap_slot :: "nat \<Rightarrow> nat \<Rightarrow> 'a fs_scheme \<Rightarrow> (nat, 'a fs_scheme) res" where
  "bmap_slot ip k s =
     (let addr = i_addrs (ino ip s) ! k in
      if addr = 0 then
        seq (balloc (i_dev (ino ip s)) s) (\<lambda>addr s.
        if addr = 0 then Ok 0 s
        else Ok addr (upd_ino ip (\<lambda>i. i\<lparr>i_addrs := (i_addrs i)[k := addr]\<rparr>) s))
      else Ok addr s)"

text \<open>Entry \<open>bn\<close> of the indirect block \<open>addr\<close>.\<close>

definition bmap_entry :: "nat \<Rightarrow> nat \<Rightarrow> nat \<Rightarrow> 'a fs_scheme \<Rightarrow> (nat, 'a fs_scheme) res" where
  "bmap_entry ip addr bn s =
     seq (bread (i_dev (ino ip s)) addr s) (\<lambda>bp s.
     let addr = unat (get32 (4 * bn) (b_data (bufs s bp))) in
     seq (if addr = 0 then
            seq (balloc (i_dev (ino ip s)) s) (\<lambda>addr s.
            if addr \<noteq> 0 then
              let s = set_bdata bp (put32 (4 * bn) (of_nat addr) (b_data (bufs s bp))) s in
              seq (log_write bp s) (\<lambda>_ s. Ok addr s)
            else Ok addr s)
          else Ok addr s) (\<lambda>addr s.
     seq (brelse bp s) (\<lambda>_ s. Ok addr s)))"

definition bmap :: "nat \<Rightarrow> nat \<Rightarrow> 'a fs_scheme \<Rightarrow> (nat, 'a fs_scheme) res" where
  "bmap ip bn s =
     (if bn < NDIRECT then bmap_slot ip bn s
      else let bn = bn - NDIRECT in
        if bn < NINDIRECT then
          seq (bmap_slot ip NDIRECT s) (\<lambda>addr s.
          if addr = 0 then Ok 0 s else bmap_entry ip addr bn s)
        else Panic ''bmap: out of range'')"

definition itrunc :: "nat \<Rightarrow> 'a fs_scheme \<Rightarrow> (unit, 'a fs_scheme) res" where
  "itrunc ip s =
     seq (foreach [0..<NDIRECT] (\<lambda>i s.
       if i_addrs (ino ip s) ! i \<noteq> 0 then
         seq (bfree (i_dev (ino ip s)) (i_addrs (ino ip s) ! i) s) (\<lambda>_ s.
         Ok () (upd_ino ip (\<lambda>x. x\<lparr>i_addrs := (i_addrs x)[i := 0]\<rparr>) s))
       else Ok () s) s) (\<lambda>_ s.
     seq (if i_addrs (ino ip s) ! NDIRECT \<noteq> 0 then
            seq (bread (i_dev (ino ip s)) (i_addrs (ino ip s) ! NDIRECT) s) (\<lambda>bp s.
            seq (foreach [0..<NINDIRECT] (\<lambda>j s.
              let a = unat (get32 (4 * j) (b_data (bufs s bp))) in
              if a \<noteq> 0 then bfree (i_dev (ino ip s)) a s else Ok () s) s) (\<lambda>_ s.
            seq (brelse bp s) (\<lambda>_ s.
            seq (bfree (i_dev (ino ip s)) (i_addrs (ino ip s) ! NDIRECT) s) (\<lambda>_ s.
            Ok () (upd_ino ip (\<lambda>x. x\<lparr>i_addrs := (i_addrs x)[NDIRECT := 0]\<rparr>) s)))))
          else Ok () s) (\<lambda>_ s.
     iupdate ip (upd_ino ip (\<lambda>x. x\<lparr>i_size := 0\<rparr>) s)))"

definition iput :: "nat \<Rightarrow> 'a fs_scheme \<Rightarrow> (unit, 'a fs_scheme) res" where
  "iput ip s =
     seq (acquire LItable s) (\<lambda>_ s.
     seq (if i_ref (ino ip s) = 1 \<and> i_valid (ino ip s) \<and> i_nlink (ino ip s) = 0 then
            seq (acquiresleep (SInode ip) s) (\<lambda>_ s.
            seq (release LItable s) (\<lambda>_ s.
            seq (itrunc ip s) (\<lambda>_ s.
            seq (iupdate ip (upd_ino ip (\<lambda>i. i\<lparr>i_type := 0\<rparr>) s)) (\<lambda>_ s.
            seq (releasesleep (SInode ip) (upd_ino ip (\<lambda>i. i\<lparr>i_valid := False\<rparr>) s)) (\<lambda>_ s.
            acquire LItable s)))))
          else Ok () s) (\<lambda>_ s.
     release LItable (upd_ino ip (\<lambda>i. i\<lparr>i_ref := i_ref i - 1\<rparr>) s)))"

definition iunlockput :: "nat option \<Rightarrow> 'a fs_scheme \<Rightarrow> (unit, 'a fs_scheme) res" where
  "iunlockput ipp s = seq (iunlock ipp s) (\<lambda>_ s. case ipp of None \<Rightarrow> Undef | Some ip \<Rightarrow> iput ip s)"

definition ireclaim_one :: "nat \<Rightarrow> nat \<Rightarrow> 'a fs_scheme \<Rightarrow> (unit, 'a fs_scheme) res" where
  "ireclaim_one dev inum s =
     seq (bread dev (IBLOCK inum (sb s)) s) (\<lambda>bp s.
     let off = dinode_off inum; d = b_data (bufs s bp) in
     seq (if dinode_type off d \<noteq> 0 \<and> dinode_nlink off d = 0
          then seq (iget dev inum s) (\<lambda>ip s. Ok (Some ip) s) else Ok None s) (\<lambda>ip s.
     seq (brelse bp s) (\<lambda>_ s.
     case ip of None \<Rightarrow> Ok () s
     | Some ip \<Rightarrow>
         seq (begin_op s) (\<lambda>_ s.
         seq (ilock (Some ip) s) (\<lambda>_ s.
         seq (iunlock (Some ip) s) (\<lambda>_ s.
         seq (iput ip s) (\<lambda>_ s.
         end_op s)))))))"

definition ireclaim :: "nat \<Rightarrow> 'a fs_scheme \<Rightarrow> (unit, 'a fs_scheme) res" where
  "ireclaim dev s = foreach [1..<sb_ninodes (sb s)] (ireclaim_one dev) s"

definition fsinit :: "nat \<Rightarrow> 'a fs_scheme \<Rightarrow> (unit, 'a fs_scheme) res" where
  "fsinit dev s =
     seq (readsb dev s) (\<lambda>_ s.
     if sb_magic (sb s) \<noteq> FSMAGIC then Panic ''invalid file system''
     else seq (initlog dev (sb s) s) (\<lambda>_ s. ireclaim dev s))"

text \<open>\<open>struct stat\<close> of \<open>kernel/stat.h\<close>.\<close>

record stat =
  st_dev :: nat
  st_ino :: nat
  st_type :: ushort
  st_nlink :: ushort
  st_size :: uint64

definition stati :: "nat \<Rightarrow> 'a fs_scheme \<Rightarrow> stat" where
  "stati ip s = (let i = ino ip s in
     \<lparr>st_dev = i_dev i, st_ino = i_inum i, st_type = i_type i, st_nlink = i_nlink i,
      st_size = ucast (i_size i)\<rparr>)"

text \<open>
  The loop of \<open>readi\<close>: \<open>out tot bs\<close> copies \<open>bs\<close> to the destination plus \<open>tot\<close>.  Next to the result it
  returns the bytes that were copied.  After the range checks \<open>off + n\<close> does not overflow, so
  offsets are naturals.
\<close>

function readi_loop ::
  "(nat \<Rightarrow> byte list \<Rightarrow> 'a fs_scheme \<Rightarrow> (int, 'a fs_scheme) res) \<Rightarrow> nat \<Rightarrow> nat \<Rightarrow> nat \<Rightarrow> nat \<Rightarrow> 'a fs_scheme \<Rightarrow>
   (int \<times> byte list, 'a fs_scheme) res" where
  "readi_loop out ip tot off n s =
     (if tot < n then
        seq (bmap ip (off div BSIZE) s) (\<lambda>addr s.
        if addr = 0 then Ok (int tot, []) s
        else seq (bread (i_dev (ino ip s)) addr s) (\<lambda>bp s.
          let m = min (n - tot) (BSIZE - off mod BSIZE);
              bs = slice (off mod BSIZE) m (b_data (bufs s bp)) in
          seq (out tot bs s) (\<lambda>r s.
          if r = -1 then seq (brelse bp s) (\<lambda>_ s. Ok (-1, []) s)
          else seq (brelse bp s) (\<lambda>_ s.
            seq (readi_loop out ip (tot + m) (off + m) n s) (\<lambda>(r, rest) s. Ok (r, bs @ rest) s)))))
      else Ok (int tot, []) s)"
  by pat_completeness auto
termination
  by (relation "measure (\<lambda>(_, _, tot, _, n, _). n - tot)") (auto simp: params)

declare readi_loop.simps [simp del]

definition readi_gen ::
  "(nat \<Rightarrow> byte list \<Rightarrow> 'a fs_scheme \<Rightarrow> (int, 'a fs_scheme) res) \<Rightarrow> nat \<Rightarrow> uint \<Rightarrow> uint \<Rightarrow> 'a fs_scheme \<Rightarrow>
   (int \<times> byte list, 'a fs_scheme) res" where
  "readi_gen out ip off n s =
     (if i_size (ino ip s) < off \<or> off + n < off then Ok (0, []) s
      else let n = (if i_size (ino ip s) < off + n then i_size (ino ip s) - off else n)
           in readi_loop out ip 0 (unat off) (unat n) s)"

definition readi :: "nat \<Rightarrow> bool \<Rightarrow> uint64 \<Rightarrow> uint \<Rightarrow> uint \<Rightarrow> 'a fs_scheme \<Rightarrow> (int, 'a fs_scheme) res" where
  "readi ip user_dst dst off n s =
     seq (readi_gen (\<lambda>tot bs. either_copyout user_dst (dst + of_nat tot) bs) ip off n s) (\<lambda>(r, _) s. Ok r s)"

definition readi_local :: "nat \<Rightarrow> uint \<Rightarrow> uint \<Rightarrow> 'a fs_scheme \<Rightarrow> (int \<times> byte list, 'a fs_scheme) res" where
  "readi_local ip off n s = readi_gen (\<lambda>_ _ s. Ok 0 s) ip off n s"

text \<open>
  The loop of \<open>writei\<close>: \<open>src tot m\<close> fetches \<open>m\<close> bytes from the source plus \<open>tot\<close>.  A failing copy may
  have stored a part of them into the buffer, which is then released without \<open>log_write\<close>.  The
  result is \<open>tot\<close> and the final \<open>off\<close>.
\<close>

function writei_loop ::
  "(nat \<Rightarrow> nat \<Rightarrow> 'a fs_scheme \<Rightarrow> (int \<times> byte list, 'a fs_scheme) res) \<Rightarrow> nat \<Rightarrow> nat \<Rightarrow> nat \<Rightarrow> nat \<Rightarrow> 'a fs_scheme \<Rightarrow>
   (nat \<times> nat, 'a fs_scheme) res" where
  "writei_loop src ip tot off n s =
     (if tot < n then
        seq (bmap ip (off div BSIZE) s) (\<lambda>addr s.
        if addr = 0 then Ok (tot, off) s
        else seq (bread (i_dev (ino ip s)) addr s) (\<lambda>bp s.
          let m = min (n - tot) (BSIZE - off mod BSIZE) in
          seq (src tot m s) (\<lambda>(r, bs) s.
          let s = set_bdata bp (splice (off mod BSIZE) bs (b_data (bufs s bp))) s in
          if r = -1 then seq (brelse bp s) (\<lambda>_ s. Ok (tot, off) s)
          else seq (log_write bp s) (\<lambda>_ s.
            seq (brelse bp s) (\<lambda>_ s.
            writei_loop src ip (tot + m) (off + m) n s)))))
      else Ok (tot, off) s)"
  by pat_completeness auto
termination
  by (relation "measure (\<lambda>(_, _, tot, _, n, _). n - tot)") (auto simp: params)

declare writei_loop.simps [simp del]

definition writei_gen ::
  "(nat \<Rightarrow> nat \<Rightarrow> 'a fs_scheme \<Rightarrow> (int \<times> byte list, 'a fs_scheme) res) \<Rightarrow> nat \<Rightarrow> uint \<Rightarrow> uint \<Rightarrow> 'a fs_scheme \<Rightarrow>
   (int, 'a fs_scheme) res" where
  "writei_gen src ip off n s =
     (if i_size (ino ip s) < off \<or> off + n < off then Ok (-1) s
      else if MAXFILE * BSIZE < unat (off + n) then Ok (-1) s
      else seq (writei_loop src ip 0 (unat off) (unat n) s) (\<lambda>(tot, off) s.
        let s = (if unat (i_size (ino ip s)) < off then upd_ino ip (\<lambda>i. i\<lparr>i_size := of_nat off\<rparr>) s else s) in
        seq (iupdate ip s) (\<lambda>_ s. Ok (int tot) s)))"

definition writei :: "nat \<Rightarrow> bool \<Rightarrow> uint64 \<Rightarrow> uint \<Rightarrow> uint \<Rightarrow> 'a fs_scheme \<Rightarrow> (int, 'a fs_scheme) res" where
  "writei ip user_src src off n s =
     writei_gen (\<lambda>tot m. either_copyin user_src (src + of_nat tot) m) ip off n s"

definition writei_local :: "nat \<Rightarrow> byte list \<Rightarrow> uint \<Rightarrow> 'a fs_scheme \<Rightarrow> (int, 'a fs_scheme) res" where
  "writei_local ip bs off s = writei_gen (\<lambda>tot m s. Ok (0, slice tot m bs) s) ip off (of_nat (length bs)) s"

section \<open>Directories\<close>

definition namecmp :: "byte list \<Rightarrow> byte list \<Rightarrow> int" where
  "namecmp x y = strncmp (arr x) (arr y) DIRSIZ"

text \<open>The offsets \<open>0, sizeof(de), ...\<close> below the directory's size.\<close>

definition dir_offs :: "uint \<Rightarrow> nat list" where
  "dir_offs sz = map (\<lambda>k. k * DIRENT_SIZE) [0..<(unat sz + DIRENT_SIZE - 1) div DIRENT_SIZE]"

fun dirlookup_from :: "nat \<Rightarrow> byte list \<Rightarrow> nat list \<Rightarrow> 'a fs_scheme \<Rightarrow> ((nat \<times> nat) option, 'a fs_scheme) res" where
  "dirlookup_from dp name [] s = Ok None s"
| "dirlookup_from dp name (off # offs) s =
     seq (readi_local dp (of_nat off) (of_nat DIRENT_SIZE) s) (\<lambda>(r, de) s.
     if r \<noteq> int DIRENT_SIZE then Panic ''dirlookup read''
     else if de_inum de = 0 then dirlookup_from dp name offs s
     else if namecmp name (de_name de) = 0 then
       seq (iget (i_dev (ino dp s)) (de_inum de) s) (\<lambda>ip s. Ok (Some (ip, off)) s)
     else dirlookup_from dp name offs s)"

definition dirlookup :: "nat \<Rightarrow> byte list \<Rightarrow> 'a fs_scheme \<Rightarrow> ((nat \<times> nat) option, 'a fs_scheme) res" where
  "dirlookup dp name s =
     (if i_type (ino dp s) \<noteq> T_DIR then Panic ''dirlookup not DIR''
      else dirlookup_from dp name (dir_offs (i_size (ino dp s))) s)"

text \<open>The search for an empty entry: the offset of the first one, or the end of the directory.\<close>

fun dirlink_slot :: "nat \<Rightarrow> nat \<Rightarrow> nat list \<Rightarrow> 'a fs_scheme \<Rightarrow> (nat, 'a fs_scheme) res" where
  "dirlink_slot dp stop [] s = Ok stop s"
| "dirlink_slot dp stop (off # offs) s =
     seq (readi_local dp (of_nat off) (of_nat DIRENT_SIZE) s) (\<lambda>(r, de) s.
     if r \<noteq> int DIRENT_SIZE then Panic ''dirlink read''
     else if de_inum de = 0 then Ok off s
     else dirlink_slot dp stop offs s)"

definition dirlink :: "nat \<Rightarrow> byte list \<Rightarrow> nat \<Rightarrow> 'a fs_scheme \<Rightarrow> (int, 'a fs_scheme) res" where
  "dirlink dp name inum s =
     seq (dirlookup dp name s) (\<lambda>found s.
     case found of
       Some (ip, _) \<Rightarrow> seq (iput ip s) (\<lambda>_ s. Ok (-1) s)
     | None \<Rightarrow>
         let offs = dir_offs (i_size (ino dp s)) in
         seq (dirlink_slot dp (length offs * DIRENT_SIZE) offs s) (\<lambda>off s.
         seq (writei_local dp (dirent inum name) (of_nat off) s) (\<lambda>r s.
         if r \<noteq> int DIRENT_SIZE then Ok (-1) s else Ok 0 s)))"

section \<open>Path names\<close>

definition slash :: byte where "slash = 47"

definition skipelem :: "byte list \<Rightarrow> byte list \<Rightarrow> (byte list \<times> byte list) option" where
  "skipelem path name =
     (let path = dropWhile (\<lambda>c. c = slash) path in
      if path = [] \<or> hd path = 0 then None
      else let s = takeWhile (\<lambda>c. c \<noteq> slash \<and> c \<noteq> 0) path;
               path = dropWhile (\<lambda>c. c \<noteq> slash \<and> c \<noteq> 0) path;
               len = length s;
               name = (if DIRSIZ \<le> len then take DIRSIZ s @ drop DIRSIZ name
                       else s @ [0] @ drop (len + 1) name)
           in Some (dropWhile (\<lambda>c. c = slash) path, name))"

lemma skipelem_shorter:
  assumes "skipelem path name = Some (path', name')"
  shows "length path' < length path"
proof -
  define p where "p = dropWhile (\<lambda>c. c = slash) path"
  have p: "p \<noteq> []" "hd p \<noteq> 0" "path' = dropWhile (\<lambda>c. c = slash) (dropWhile (\<lambda>c. c \<noteq> slash \<and> c \<noteq> 0) p)"
    using assms by (auto simp: skipelem_def Let_def p_def split: if_splits)
  then have "hd p \<noteq> slash" using hd_dropWhile[of "\<lambda>c. c = slash" path] by (simp add: p_def)
  then have "takeWhile (\<lambda>c. c \<noteq> slash \<and> c \<noteq> 0) p \<noteq> []" using p by (cases p) auto
  then have "0 < length (takeWhile (\<lambda>c. c \<noteq> slash \<and> c \<noteq> 0) p)" by simp
  then have "length (dropWhile (\<lambda>c. c \<noteq> slash \<and> c \<noteq> 0) p) < length p"
    using arg_cong[OF takeWhile_dropWhile_id[of "\<lambda>c. c \<noteq> slash \<and> c \<noteq> 0" p], of length] unfolding length_append by linarith
  then show ?thesis
    using p(3) length_dropWhile_le[of "\<lambda>c. c = slash" path] length_dropWhile_le[of "\<lambda>c. c = slash" "dropWhile (\<lambda>c. c \<noteq> slash \<and> c \<noteq> 0) p"]
    by (simp add: p_def)
qed

function namex_loop ::
  "nat \<Rightarrow> byte list \<Rightarrow> bool \<Rightarrow> byte list \<Rightarrow> 'a fs_scheme \<Rightarrow> (nat option \<times> byte list, 'a fs_scheme) res" where
  "namex_loop ip path parent name s =
     (case skipelem path name of
        None \<Rightarrow>
          if parent then seq (iput ip s) (\<lambda>_ s. Ok (None, name) s) else Ok (Some ip, name) s
      | Some (path, name) \<Rightarrow>
          seq (ilock (Some ip) s) (\<lambda>_ s.
          if i_type (ino ip s) \<noteq> T_DIR then seq (iunlockput (Some ip) s) (\<lambda>_ s. Ok (None, name) s)
          else if parent \<and> (path = [] \<or> hd path = 0) then
            seq (iunlock (Some ip) s) (\<lambda>_ s. Ok (Some ip, name) s)
          else seq (dirlookup ip name s) (\<lambda>found s.
            case found of
              None \<Rightarrow> seq (iunlockput (Some ip) s) (\<lambda>_ s. Ok (None, name) s)
            | Some (next, _) \<Rightarrow>
                seq (iunlockput (Some ip) s) (\<lambda>_ s. namex_loop next path parent name s))))"
  by pat_completeness auto
termination
  by (relation "measure (\<lambda>(_, path, _). length path)") (auto dest: skipelem_shorter)

declare namex_loop.simps [simp del]

definition namex ::
  "byte list \<Rightarrow> bool \<Rightarrow> byte list \<Rightarrow> 'a fs_scheme \<Rightarrow> (nat option \<times> byte list, 'a fs_scheme) res" where
  "namex path parent name s =
     seq (if path \<noteq> [] \<and> hd path = slash then iget ROOTDEV ROOTINO s
          else case myproc s of None \<Rightarrow> Undef
               | Some p \<Rightarrow> (case p_cwd (procs s ! p) of None \<Rightarrow> Undef | Some ip \<Rightarrow> idup ip s)) (\<lambda>ip s.
     namex_loop ip path parent name s)"

definition namei :: "byte list \<Rightarrow> 'a fs_scheme \<Rightarrow> (nat option, 'a fs_scheme) res" where
  "namei path s = seq (namex path False (replicate DIRSIZ 0) s) (\<lambda>(ip, _) s. Ok ip s)"

definition nameiparent ::
  "byte list \<Rightarrow> byte list \<Rightarrow> 'a fs_scheme \<Rightarrow> (nat option \<times> byte list, 'a fs_scheme) res" where
  "nameiparent path name s = namex path True name s"

section \<open>An example state\<close>

definition empty_inode :: inode where
  "empty_inode = \<lparr>i_dev = 0, i_inum = 0, i_ref = 0, i_valid = False, i_type = 0, i_major = 0, i_minor = 0,
     i_nlink = 0, i_size = 0, i_addrs = replicate 13 0\<rparr>"

definition example_fs :: fs where
  "example_fs = logging.extend example_log (fs.fields example_sb (replicate NINODE empty_inode))"

lemma example_fs [simp]:
  "mach example_fs = idle_mach" "procs example_fs = procs example_base" "sb example_fs = example_sb"
  "itable example_fs = replicate NINODE empty_inode" "myproc example_fs = Some 0"
  by (simp_all add: example_fs_def logging.defs fs.defs example_log_def base.defs memory.defs bio.defs
      example_base_def myproc_def)

end
