(* ===== verification/Format.thy ===== *)
theory Format
  imports Prelude
begin

text \<open>
  Formatted output: \<open>printint\<close>, \<open>printptr\<close> and the format loops of \<open>kernel/printf.c\<close> and
  \<open>user/printf.c\<close>, as functions from the format and the arguments to the characters they emit in
  order.  The kernel emits characters as \<open>int\<close> (\<open>consputc\<close> takes the value \<open>0x100\<close> for a backspace),
  the user library as bytes.  Each file has its own table of digits, lower case in the kernel and
  upper case in the user library, its own \<open>printint\<close> and \<open>printptr\<close> and its own \<open>%\<close> switch; only the
  \<open>do ... while\<close> loop that both have word for word is one definition over the table.  \<open>x = -xx\<close> for the
  smallest \<open>long long\<close>, which C leaves undefined, is the wrap-around the compiler gives it.

  A \<open>va_list\<close> is a list of \<open>arg\<close>; fetching an argument of another type than the one passed, or one
  that is not there, is undefined in C and \<open>None\<close> here.  A string is the list of its bytes up to the
  terminating NUL.
\<close>

definition ch :: "char \<Rightarrow> byte" where
  "ch c = of_char c"

definition str :: "string \<Rightarrow> byte list" where
  "str cs = map ch cs"

datatype arg = AInt uint | ALong uint64 | AStr "byte list option"

definition kdigits :: "byte list" where "kdigits = str ''0123456789abcdef''"
definition udigits :: "byte list" where "udigits = str ''0123456789ABCDEF''"

section \<open>Numbers\<close>

text \<open>The \<open>do ... while\<close> loop that fills \<open>buf\<close>, lowest digit first.  The base is 10 or 16.\<close>

function digit_buf :: "byte list \<Rightarrow> nat \<Rightarrow> nat \<Rightarrow> byte list" where
  "digit_buf D base x =
     D ! (x mod base) # (if base \<le> 1 \<or> x div base = 0 then [] else digit_buf D base (x div base))"
  by pat_completeness auto
termination
  by (relation "measure (\<lambda>(_, _, x). x)") (auto intro!: div_less_dividend gr0I)

declare digit_buf.simps [simp del]

definition printint_buf :: "byte list \<Rightarrow> uint64 \<Rightarrow> nat \<Rightarrow> bool \<Rightarrow> byte list" where
  "printint_buf D xx base sign =
     (let neg = (sign \<and> sint xx < 0);
          x = (if neg then - xx else xx);
          buf = digit_buf D base (unat x)
      in if neg then buf @ [ch CHR ''-''] else buf)"

definition printint :: "byte list \<Rightarrow> uint64 \<Rightarrow> nat \<Rightarrow> bool \<Rightarrow> byte list" where
  "printint D xx base sign = rev (printint_buf D xx base sign)"

definition printptr :: "byte list \<Rightarrow> uint64 \<Rightarrow> byte list" where
  "printptr D x =
     [ch CHR ''0'', ch CHR ''x''] @ map (\<lambda>i. D ! unat (drop_bit 60 (push_bit (4 * i) x))) [0..<16]"

text \<open>The user library's \<open>printint\<close> and \<open>printptr\<close>.\<close>

definition uprintint_buf :: "uint64 \<Rightarrow> nat \<Rightarrow> bool \<Rightarrow> byte list" where
  "uprintint_buf xx base sign =
     (let (neg, x) = (if sign \<and> sint xx < 0 then (True, - xx) else (False, xx))
      in digit_buf udigits base (unat x) @ (if neg then [ch CHR ''-''] else []))"

definition uprintint :: "uint64 \<Rightarrow> nat \<Rightarrow> bool \<Rightarrow> byte list" where
  "uprintint xx base sign = rev (uprintint_buf xx base sign)"

definition uprintptr :: "uint64 \<Rightarrow> byte list" where
  "uprintptr x =
     ch CHR ''0'' # ch CHR ''x'' # map (\<lambda>i. udigits ! unat (drop_bit 60 (push_bit (4 * i) x))) [0..<16]"

section \<open>The conversions\<close>

fun arg_int :: "arg list \<Rightarrow> (uint \<times> arg list) option" where
  "arg_int (AInt v # ap) = Some (v, ap)"
| "arg_int _ = None"

fun arg_long :: "arg list \<Rightarrow> (uint64 \<times> arg list) option" where
  "arg_long (ALong v # ap) = Some (v, ap)"
| "arg_long _ = None"

fun arg_str :: "arg list \<Rightarrow> (byte list option \<times> arg list) option" where
  "arg_str (AStr v # ap) = Some (v, ap)"
| "arg_str _ = None"

definition chars :: "byte list \<Rightarrow> int list" where
  "chars bs = map uint bs"

text \<open>
  One \<open>%\<close> sequence with following characters \<open>c0\<close>, \<open>c1\<close>, \<open>c2\<close>: what is printed, how far \<open>i\<close> is moved
  beyond \<open>c0\<close>, and the remaining arguments.  The kernel's switch.
\<close>

definition conversion :: "byte \<Rightarrow> byte \<Rightarrow> byte \<Rightarrow> arg list \<Rightarrow> (int list \<times> nat \<times> arg list) option" where
  "conversion c0 c1 c2 ap =
     (let l = ch CHR ''l''; int_arg = (\<lambda>f. map_option (\<lambda>(v, ap). (chars (f v), 0, ap)) (arg_int ap));
          long_arg = (\<lambda>f k. map_option (\<lambda>(v, ap). (chars (f v), k, ap)) (arg_long ap))
      in
      if c0 = ch CHR ''d'' then int_arg (\<lambda>v. printint kdigits (scast v) 10 True)
      else if c0 = l \<and> c1 = ch CHR ''d'' then long_arg (\<lambda>v. printint kdigits v 10 True) 1
      else if c0 = l \<and> c1 = l \<and> c2 = ch CHR ''d'' then long_arg (\<lambda>v. printint kdigits v 10 True) 2
      else if c0 = ch CHR ''u'' then int_arg (\<lambda>v. printint kdigits (ucast v) 10 False)
      else if c0 = l \<and> c1 = ch CHR ''u'' then long_arg (\<lambda>v. printint kdigits v 10 False) 1
      else if c0 = l \<and> c1 = l \<and> c2 = ch CHR ''u'' then long_arg (\<lambda>v. printint kdigits v 10 False) 2
      else if c0 = ch CHR ''x'' then int_arg (\<lambda>v. printint kdigits (ucast v) 16 False)
      else if c0 = l \<and> c1 = ch CHR ''x'' then long_arg (\<lambda>v. printint kdigits v 16 False) 1
      else if c0 = l \<and> c1 = l \<and> c2 = ch CHR ''x'' then long_arg (\<lambda>v. printint kdigits v 16 False) 2
      else if c0 = ch CHR ''p'' then long_arg (printptr kdigits) 0
      else if c0 = ch CHR ''c'' then map_option (\<lambda>(v, ap). ([sint v], 0, ap)) (arg_int ap)
      else if c0 = ch CHR ''s'' then
        map_option (\<lambda>(s, ap). (chars (case s of None \<Rightarrow> str ''(null)'' | Some s \<Rightarrow> takeWhile (\<lambda>c. c \<noteq> 0) s), 0, ap))
          (arg_str ap)
      else if c0 = ch CHR ''%'' then Some (chars [c0], 0, ap)
      else Some (chars [ch CHR ''%'', c0], 0, ap))"

text \<open>The user library's switch.  \<open>putc\<close> takes a \<open>char\<close>, so \<open>%c\<close> is cut to a byte.\<close>

definition uconversion :: "byte \<Rightarrow> byte \<Rightarrow> byte \<Rightarrow> arg list \<Rightarrow> (byte list \<times> nat \<times> arg list) option" where
  "uconversion c0 c1 c2 ap =
     (if c0 = ch CHR ''d'' then map_option (\<lambda>(v, ap). (uprintint (scast v) 10 True, 0, ap)) (arg_int ap)
      else if c0 = ch CHR ''l'' \<and> c1 = ch CHR ''d'' then map_option (\<lambda>(v, ap). (uprintint v 10 True, 1, ap)) (arg_long ap)
      else if c0 = ch CHR ''l'' \<and> c1 = ch CHR ''l'' \<and> c2 = ch CHR ''d'' then
        map_option (\<lambda>(v, ap). (uprintint v 10 True, 2, ap)) (arg_long ap)
      else if c0 = ch CHR ''u'' then map_option (\<lambda>(v, ap). (uprintint (ucast v) 10 False, 0, ap)) (arg_int ap)
      else if c0 = ch CHR ''l'' \<and> c1 = ch CHR ''u'' then map_option (\<lambda>(v, ap). (uprintint v 10 False, 1, ap)) (arg_long ap)
      else if c0 = ch CHR ''l'' \<and> c1 = ch CHR ''l'' \<and> c2 = ch CHR ''u'' then
        map_option (\<lambda>(v, ap). (uprintint v 10 False, 2, ap)) (arg_long ap)
      else if c0 = ch CHR ''x'' then map_option (\<lambda>(v, ap). (uprintint (ucast v) 16 False, 0, ap)) (arg_int ap)
      else if c0 = ch CHR ''l'' \<and> c1 = ch CHR ''x'' then map_option (\<lambda>(v, ap). (uprintint v 16 False, 1, ap)) (arg_long ap)
      else if c0 = ch CHR ''l'' \<and> c1 = ch CHR ''l'' \<and> c2 = ch CHR ''x'' then
        map_option (\<lambda>(v, ap). (uprintint v 16 False, 2, ap)) (arg_long ap)
      else if c0 = ch CHR ''p'' then map_option (\<lambda>(v, ap). (uprintptr v, 0, ap)) (arg_long ap)
      else if c0 = ch CHR ''c'' then map_option (\<lambda>(v, ap). ([ucast v], 0, ap)) (arg_int ap)
      else if c0 = ch CHR ''s'' then
        map_option (\<lambda>(s, ap). (takeWhile (\<lambda>c. c \<noteq> 0) (case s of None \<Rightarrow> str ''(null)'' | Some s \<Rightarrow> s), 0, ap)) (arg_str ap)
      else if c0 = ch CHR ''%'' then Some ([ch CHR ''%''], 0, ap)
      else Some ([ch CHR ''%'', c0], 0, ap))"

section \<open>The loop of the kernel's printf\<close>

definition fmt_at :: "byte list \<Rightarrow> nat \<Rightarrow> byte" where
  "fmt_at fmt i = (if i < length fmt then fmt ! i else 0)"

lemma fmt_at_nonzero: "fmt_at fmt i \<noteq> 0 \<Longrightarrow> i < length fmt"
  by (auto simp: fmt_at_def split: if_splits)

function kformat :: "byte list \<Rightarrow> arg list \<Rightarrow> int list option" where
  "kformat fmt ap =
     (let cx = fmt_at fmt 0 in
      if cx = 0 then Some []
      else if cx \<noteq> ch CHR ''%'' then map_option ((@) (chars [cx])) (kformat (drop 1 fmt) ap)
      else
        let c0 = fmt_at fmt 1;
            c1 = (if c0 \<noteq> 0 then fmt_at fmt 2 else 0);
            c2 = (if c1 \<noteq> 0 then fmt_at fmt 3 else 0)
        in if c0 = 0 then Some []
           else case conversion c0 c1 c2 ap of
             None \<Rightarrow> None
           | Some (out, k, ap) \<Rightarrow> map_option ((@) out) (kformat (drop (2 + k) fmt) ap))"
  by pat_completeness auto
termination
  by (relation "measure (\<lambda>(fmt, _). length fmt)") (auto dest!: fmt_at_nonzero)

declare kformat.simps [simp del]

section \<open>The state machine of the user library's vprintf\<close>

text \<open>\<open>percent\<close> is \<open>state == '%'\<close>.\<close>

function uformat :: "bool \<Rightarrow> byte list \<Rightarrow> arg list \<Rightarrow> byte list option" where
  "uformat percent fmt ap =
     (let c0 = fmt_at fmt 0 in
      if c0 = 0 then Some []
      else if \<not> percent then
        if c0 = ch CHR ''%'' then uformat True (drop 1 fmt) ap
        else map_option (Cons c0) (uformat False (drop 1 fmt) ap)
      else
        let c1 = (if c0 \<noteq> 0 then fmt_at fmt 1 else 0);
            c2 = (if c1 \<noteq> 0 then fmt_at fmt 2 else 0)
        in case uconversion c0 c1 c2 ap of
             None \<Rightarrow> None
           | Some (out, k, ap) \<Rightarrow>
               map_option ((@) out) (uformat False (drop (1 + k) fmt) ap))"
  by pat_completeness auto
termination
  by (relation "measure (\<lambda>(_, fmt, _). length fmt)") (auto dest!: fmt_at_nonzero)

declare uformat.simps [simp del]

section \<open>The two loops print the same\<close>

lemma of_int_chars [simp]: "map of_int (chars bs) = bs"
  by (simp add: chars_def comp_def)

lemma fmt_at_drop: "fmt_at (drop 1 fmt) 0 = fmt_at fmt 1" "fmt_at (drop 1 fmt) 1 = fmt_at fmt 2"
    "fmt_at (drop 1 fmt) 2 = fmt_at fmt 3"
  by (auto simp: fmt_at_def eval_nat_numeral)

lemma fmt_at_in: "fmt_at fmt i \<in> insert 0 (set fmt)"
  by (simp add: fmt_at_def)

text \<open>Two outcomes of a \<open>%\<close> switch that differ at most by \<open>R\<close> in the characters printed.\<close>

definition conv_rel :: "(byte \<Rightarrow> byte \<Rightarrow> bool) \<Rightarrow> byte list \<times> nat \<times> arg list \<Rightarrow> int list \<times> nat \<times> arg list \<Rightarrow> bool" where
  "conv_rel R u k \<longleftrightarrow> list_all2 R (fst u) (map of_int (fst k)) \<and> snd u = snd k"

text \<open>If the switches agree up to \<open>R\<close> on the characters of the format, the loops agree up to \<open>R\<close>.\<close>

lemma format_rel:
  assumes "\<And>c. R c c"
    and "\<And>c0 c1 c2 ap. {c0, c1, c2} \<subseteq> insert 0 S \<Longrightarrow> rel_option (conv_rel R) (uconversion c0 c1 c2 ap) (conversion c0 c1 c2 ap)"
  shows "set fmt \<subseteq> S \<Longrightarrow> rel_option (list_all2 R) (uformat False fmt ap) (map_option (map of_int) (kformat fmt ap))"
proof (induction fmt ap rule: kformat.induct)
  case (1 fmt ap)
  show ?case
  proof (cases "fmt_at fmt 0 = ch CHR ''%'' \<and> fmt_at fmt 0 \<noteq> 0")
    case False
    have "set (drop 1 fmt) \<subseteq> S" using 1(3) set_drop_subset[of 1 fmt] by blast
    then have "fmt_at fmt 0 \<noteq> 0 \<Longrightarrow> rel_option (list_all2 R) (uformat False (drop 1 fmt) ap)
        (map_option (map of_int) (kformat (drop 1 fmt) ap))"
      using 1(1)[OF refl] False by auto
    then show ?thesis using False assms(1)
      by (auto simp: kformat.simps[of fmt] uformat.simps[of False fmt] Let_def option.rel_map chars_def elim: option.rel_mono_strong)
  next
    case True
    let ?c0 = "fmt_at fmt 1" and ?c1 = "if fmt_at fmt 1 \<noteq> 0 then fmt_at fmt 2 else 0"
    let ?c2 = "if ?c1 \<noteq> 0 then fmt_at fmt 3 else 0"
    have u: "uformat False fmt ap = uformat True (drop 1 fmt) ap"
      using True by (simp add: uformat.simps[of False fmt] Let_def ch_def)
    have "{?c0, ?c1, ?c2} \<subseteq> insert 0 S" using fmt_at_in[of fmt] 1(3) by auto
    from assms(2)[OF this] have c: "rel_option (conv_rel R) (uconversion ?c0 ?c1 ?c2 ap) (conversion ?c0 ?c1 ?c2 ap)" .
    show ?thesis
    proof (cases "?c0 = 0 \<or> conversion ?c0 ?c1 ?c2 ap = None")
      case stop: True
      then have "?c0 = 0 \<or> uconversion ?c0 ?c1 ?c2 ap = None" using c by (cases "uconversion ?c0 ?c1 ?c2 ap") auto
      then show ?thesis unfolding u using True stop
        by (auto simp: kformat.simps[of fmt] uformat.simps[of True "drop 1 fmt"] Let_def fmt_at_drop simp del: One_nat_def)
    next
      case False
      then obtain ko k ap' where k: "?c0 \<noteq> 0" "conversion ?c0 ?c1 ?c2 ap = Some (ko, k, ap')"
        by (metis option.exhaust prod_cases3)
      then obtain uo where uo: "uconversion ?c0 ?c1 ?c2 ap = Some (uo, k, ap')" "list_all2 R uo (map of_int ko)"
        using c by (cases "uconversion ?c0 ?c1 ?c2 ap") (auto simp: conv_rel_def)
      have "set (drop (2 + k) fmt) \<subseteq> S" using 1(3) set_drop_subset[of "2 + k" fmt] by blast
      then have IH: "rel_option (list_all2 R) (uformat False (drop (2 + k) fmt) ap')
          (map_option (map of_int) (kformat (drop (2 + k) fmt) ap'))"
        using 1(2)[OF refl _ _ refl refl refl] True k by auto
      have ue: "uformat True (drop 1 fmt) ap = map_option ((@) uo) (uformat False (drop (2 + k) fmt) ap')"
      proof -
        have e: "1 + k + 1 = Suc (Suc k)" by simp
        show ?thesis using k(1) uo(1)
          by (cases "fmt_at fmt 2 = 0") (simp_all add: uformat.simps[of True "drop 1 fmt"] Let_def fmt_at_drop e del: One_nat_def)
      qed
      have ke: "kformat fmt ap = map_option ((@) ko) (kformat (drop (2 + k) fmt) ap')"
        using True k by (simp add: kformat.simps[of fmt] Let_def ch_def)
      show ?thesis unfolding u ue ke using IH uo(2)
        by (auto simp: option.rel_map intro: list_all2_appendI elim!: option.rel_mono_strong)
    qed
  qed
qed

text \<open>A digit of the kernel's table, or the one at its place in the user library's.\<close>

definition same_char :: "byte \<Rightarrow> byte \<Rightarrow> bool" where
  "same_char u k \<longleftrightarrow> u = k \<or> ch CHR ''a'' \<le> k \<and> k \<le> ch CHR ''f'' \<and> u = k - 32"

lemma same_digit: "d < 16 \<Longrightarrow> same_char (udigits ! d) (kdigits ! d)"
proof -
  have "list_all2 same_char udigits kdigits" "length udigits = 16"
    by (simp_all add: same_char_def udigits_def kdigits_def str_def ch_def)
  then show "d < 16 \<Longrightarrow> same_char (udigits ! d) (kdigits ! d)" by (simp add: list_all2_nthD)
qed

lemma digit_buf_same: "1 < base \<Longrightarrow> base \<le> 16 \<Longrightarrow> list_all2 same_char (digit_buf udigits base x) (digit_buf kdigits base x)"
proof (induction x rule: less_induct)
  case (less x)
  have "same_char (udigits ! (x mod base)) (kdigits ! (x mod base))"
    using less.prems mod_less_divisor[of base x] by (intro same_digit) linarith
  moreover have "0 < x div base \<Longrightarrow> x div base < x"
    using less.prems by (intro div_less_dividend) (auto intro: gr0I)
  ultimately show ?case using less by (simp add: digit_buf.simps[of _ base x])
qed

lemma digits_decimal: "d < 10 \<Longrightarrow> udigits ! d = kdigits ! d"
  by (auto simp: udigits_def kdigits_def str_def ch_def less_Suc_eq numeral_eq_Suc)

lemma digit_buf_decimal: "digit_buf udigits 10 x = digit_buf kdigits 10 x"
proof (induction x rule: less_induct)
  case (less x)
  then show ?case by (simp add: digit_buf.simps[of _ 10 x] digits_decimal)
qed

lemma printint_same:
  "1 < base \<Longrightarrow> base \<le> 16 \<Longrightarrow> list_all2 same_char (uprintint xx base sign) (printint kdigits xx base sign)"
  "uprintint xx 10 sign = printint kdigits xx 10 sign"
proof -
  have "same_char c c" for c by (simp add: same_char_def)
  then show "1 < base \<Longrightarrow> base \<le> 16 \<Longrightarrow> list_all2 same_char (uprintint xx base sign) (printint kdigits xx base sign)"
    by (auto simp: uprintint_def uprintint_buf_def printint_def printint_buf_def Let_def digit_buf_same intro: list_all2_appendI)
  show "uprintint xx 10 sign = printint kdigits xx 10 sign"
    by (auto simp: uprintint_def uprintint_buf_def printint_def printint_buf_def digit_buf_decimal Let_def)
qed

lemma printptr_same: "list_all2 same_char (uprintptr x) (printptr kdigits x)"
proof -
  have "unat (drop_bit 60 y) < 16" for y :: uint64
  proof -
    have "unat (drop_bit 60 y) = unat y div 2 ^ 60" by (simp add: drop_bit_eq_div unat_div_distrib)
    then show ?thesis using unsigned_less[of y, where ?'a = nat] by (simp add: div_less_iff_less_mult)
  qed
  then have "same_char (udigits ! unat (drop_bit 60 y)) (kdigits ! unat (drop_bit 60 y))" for y :: uint64
    by (rule same_digit)
  moreover have "same_char c c" for c by (simp add: same_char_def)
  ultimately show ?thesis by (simp add: uprintptr_def printptr_def list_all2_conv_all_nth nth_Cons split: nat.splits)
qed

lemma scast_byte: "scast (v :: uint) = (ucast v :: byte)"
  by (rule bit_word_eqI) (simp add: bit_simps)

lemma rel_if: "(b \<Longrightarrow> R x x') \<Longrightarrow> (\<not> b \<Longrightarrow> R y y') \<Longrightarrow> R (if b then x else y) (if b then x' else y')"
  by simp

lemma conv_rel_map:
  "(\<And>v. list_all2 R (f v) (map of_int (g v))) \<Longrightarrow>
   rel_option (conv_rel R) (map_option (\<lambda>(v, ap). (f v, n, ap)) x) (map_option (\<lambda>(v, ap). (g v, n, ap)) x)"
  by (cases x) (auto simp: conv_rel_def)

lemma conversions_same: "rel_option (conv_rel same_char) (uconversion c0 c1 c2 ap) (conversion c0 c1 c2 ap)"
proof -
  have refl: "same_char c c" "list_all2 same_char cs cs" for c cs by (simp_all add: same_char_def list_all2_refl)
  have null: "takeWhile (\<lambda>c. c \<noteq> 0) (str ''(null)'') = str ''(null)''" by (simp add: str_def ch_def)
  show ?thesis
    unfolding uconversion_def conversion_def Let_def
    by (intro rel_if[of _ "rel_option (conv_rel same_char)"] conv_rel_map)
      (simp_all add: conv_rel_def printint_same printptr_same refl null scast_byte split: option.splits)
qed

lemma conversions_equal:
  assumes "ch CHR ''x'' \<notin> {c0, c1, c2}" "ch CHR ''p'' \<noteq> c0"
  shows "rel_option (conv_rel (=)) (uconversion c0 c1 c2 ap) (conversion c0 c1 c2 ap)"
proof -
  have null: "takeWhile (\<lambda>c. c \<noteq> 0) (str ''(null)'') = str ''(null)''" by (simp add: str_def ch_def)
  show ?thesis
    using assms unfolding uconversion_def conversion_def Let_def
    by (intro rel_if[of _ "rel_option (conv_rel (=))"] conv_rel_map)
      (simp_all add: conv_rel_def printint_same list.rel_eq null scast_byte split: option.splits)
qed



section \<open>The buffer of printint\<close>

lemma length_digit_buf:
  "1 < base \<Longrightarrow> x < base ^ Suc k \<Longrightarrow> length (digit_buf D base x) \<le> Suc k"
proof (induction k arbitrary: x)
  case 0
  then show ?case by (subst digit_buf.simps) simp
next
  case (Suc k)
  have "x div base < base ^ Suc k" using Suc.prems by (simp add: div_less_iff_less_mult mult.commute)
  then show ?case using Suc.IH[of "x div base"] Suc.prems(1) by (subst digit_buf.simps) simp
qed

lemma unat_uminus_neg:
  assumes "sint (xx :: uint64) < 0"
  shows "int (unat (- xx)) = - sint xx" "unat (- xx) \<le> 2 ^ 63"
proof -
  have r: "- (2 ^ 63) \<le> sint xx" using sint_greater_eq[of xx] by simp
  have "- xx = of_int (- sint xx)" by simp
  then have "uint (- xx) = (- sint xx) mod 2 ^ 64" by (simp only: unsigned_of_int take_bit_eq_mod) simp
  then have "uint (- xx) = - sint xx" using r assms by simp
  then show "int (unat (- xx)) = - sint xx" "unat (- xx) \<le> 2 ^ 63"
    using r assms by (simp_all add: nat_le_iff flip: nat_uint_eq)
qed

text \<open>
  C12: the 20 bytes of \<open>char buf[20]\<close> are enough: for every value and for the combinations of base and
  sign the format loops use, \<open>printint\<close> (the kernel's, and the user library's) stores at most 20 characters, and 20 is reached
  (the smallest \<open>long\<close>, and the largest \<open>unsigned long\<close>).
\<close>

theorem printint_buf_fits:
  "length (printint_buf D xx 10 sign) \<le> 20 \<and> length (printint_buf D xx 16 False) \<le> 16 \<and>
   length (printint_buf D (2 ^ 63) 10 True) = 20 \<and> length (printint_buf D (- 1) 10 False) = 20 \<and>
   length (uprintint_buf xx 10 sign) \<le> 20 \<and> length (uprintint_buf xx 16 False) \<le> 16 \<and>
   length (uprintint_buf (2 ^ 63) 10 True) = 20 \<and> length (uprintint_buf (- 1) 10 False) = 20"
proof -
  have buf: "uprintint_buf xx base sign = printint_buf udigits xx base sign" for xx base sign
    by (simp add: uprintint_buf_def printint_buf_def Let_def)
  have u: "unat xx < 2 ^ 64" using unsigned_less[of xx, where ?'a = nat] by simp
  have "length (printint_buf D xx 10 sign) \<le> 20" for D
  proof (cases "sign \<and> sint xx < 0")
    case True
    then have "unat (- xx) < 10 ^ Suc 18" using unat_uminus_neg(2)[of xx] by simp
    then show ?thesis using True length_digit_buf[of 10 "unat (- xx)" 18 D] by (simp add: printint_buf_def)
  next
    case False
    have "unat xx < 10 ^ Suc 19" using u by simp
    then show ?thesis using False length_digit_buf[of 10 "unat xx" 19 D] by (auto simp: printint_buf_def Let_def)
  qed
  moreover have "length (printint_buf D xx 16 False) \<le> 16" for D
    using length_digit_buf[of 16 "unat xx" 15 D] u by (simp add: printint_buf_def)
  moreover have "length (printint_buf D (2 ^ 63) 10 True) = 20" "length (printint_buf D (- 1) 10 False) = 20" for D
    by (simp_all add: printint_buf_def digit_buf.simps Let_def unsigned_minus_1_eq_mask mask_eq_exp_minus_1)
  ultimately show ?thesis unfolding buf by blast
qed

end
