(* ===== verification/RingBuf.thy ===== *)
theory RingBuf
  imports Prelude
begin

text \<open>
  Circular byte buffers with free-running 32-bit indices, as in \<open>struct pipe\<close> of \<open>kernel/pipe.c\<close> and
  \<open>cons\<close> of \<open>kernel/console.c\<close>: the index of a byte is taken modulo the buffer size, the indices
  themselves wrap at \<open>2 ^ 32\<close>.  \<open>ring_items n buf r w\<close> is the queue such a buffer stands for.  The locale
  is the contract: the size divides \<open>2 ^ 32\<close>, without which the queue breaks when an index wraps.
\<close>

definition ring_items :: "nat \<Rightarrow> byte list \<Rightarrow> uint \<Rightarrow> uint \<Rightarrow> byte list" where
  "ring_items n buf r w = map (\<lambda>i. buf ! (unat (r + of_nat i) mod n)) [0..<unat (w - r)]"

lemma length_ring_items [simp]: "length (ring_items n buf r w) = unat (w - r)"
  by (simp add: ring_items_def)

lemma ring_items_empty [simp]: "ring_items n buf r r = []"
  by (simp add: ring_items_def)

lemma ring_items_eq_Nil [simp]: "ring_items n buf r w = [] \<longleftrightarrow> r = w"
  by (metis length_0_conv length_ring_items ring_items_empty unat_eq_zero eq_iff_diff_eq_0)

lemma ring_inc: "unat a < 2 ^ 32 - 1 \<Longrightarrow> unat (a + 1 :: uint) = Suc (unat a)"
  using unat_add_lem[of a 1] by simp

lemma mod_offset_eq:
  assumes "i < n" "j < n" "(a + i) mod n = (a + j) mod (n :: nat)"
  shows "i = j"
proof -
  have "i' = j'" if "i' \<le> j'" "j' < n" "(a + i') mod n = (a + j') mod n" for i' j'
  proof -
    have "n dvd j' - i'" using that mod_eq_dvd_iff_nat[of "a + i'" "a + j'" n] by simp
    then show ?thesis using that by (auto dest: dvd_imp_le)
  qed
  from this[of i j] this[of j i] show ?thesis using assms by (cases "i \<le> j") auto
qed

lemma unat_eqD: "unat (x :: uint) = k \<Longrightarrow> x = of_nat k"
  by (metis of_nat_unat ucast_id)

locale ring_buffer =
  fixes n :: nat
  assumes n_pos: "0 < n" and n_dvd: "n dvd 2 ^ 32" and n_less: "n < 2 ^ 32"
begin

lemma index_mod: "unat (a + of_nat i :: uint) mod n = (unat a + i) mod n"
proof -
  have "unat (a + of_nat i) = (unat a + i) mod 2 ^ 32"
    by (simp add: unat_word_ariths unat_of_nat mod_simps)
  then show ?thesis using n_dvd by (simp add: mod_mod_cancel)
qed

lemma ring_push:
  assumes "length buf = n" "unat (w - r) < n"
  shows "ring_items n (buf[unat w mod n := c]) r (w + 1) = ring_items n buf r w @ [c]"
proof -
  let ?k = "unat (w - r)"
  have k: "unat (w + 1 - r) = Suc ?k" using ring_inc[of "w - r"] assms(2) n_less by (simp add: algebra_simps)
  have w: "unat w mod n = (unat r + ?k) mod n" using index_mod[of r ?k] by simp
  have "(unat r + i) mod n \<noteq> unat w mod n" if "i < ?k" for i
    using mod_offset_eq[of i n ?k "unat r"] that assms(2) w by auto
  then have "map (\<lambda>i. buf[unat w mod n := c] ! (unat (r + of_nat i) mod n)) [0..<?k] = ring_items n buf r w"
    unfolding ring_items_def by (intro map_cong refl) (metis atLeastLessThan_iff atLeast_upt index_mod lessThan_iff nth_list_update_neq)
  moreover have "buf[unat w mod n := c] ! (unat (r + of_nat ?k) mod n) = c" using assms(1) n_pos by simp
  ultimately show ?thesis by (simp add: ring_items_def k)
qed

lemma ring_pop:
  assumes "r \<noteq> w"
  shows "ring_items n buf r w = buf ! (unat r mod n) # ring_items n buf (r + 1) w"
proof -
  have "0 < unat (w - r)" using assms by (simp add: unat_gt_0)
  moreover have "unat (w - (r + 1)) = unat (w - r) - 1"
    using unat_minus_one[of "w - r"] assms by (simp add: algebra_simps)
  ultimately obtain k where k: "unat (w - r) = Suc k" "unat (w - (r + 1)) = k" by (cases "unat (w - r)") auto
  have "[0..<Suc k] = 0 # map Suc [0..<k]" by (simp add: upt_conv_Cons map_Suc_upt)
  then show ?thesis by (simp add: ring_items_def k add.assoc)
qed

lemma ring_unpush:
  assumes "r \<noteq> e"
  shows "ring_items n buf r e = ring_items n buf r (e - 1) @ [buf ! (unat (e - 1) mod n)]"
proof -
  have "unat (e - 1 - r) = unat (e - r) - 1"
    using unat_minus_one[of "e - r"] assms by (simp add: algebra_simps)
  moreover have "0 < unat (e - r)" using assms by (simp add: unat_gt_0)
  ultimately obtain k where k: "unat (e - r) = Suc k" "unat (e - 1 - r) = k" by (cases "unat (e - r)") auto
  then have "e - 1 = r + of_nat k" using unat_eqD[of "e - 1 - r" k] by (simp add: algebra_simps)
  then show ?thesis unfolding ring_items_def k by simp
qed

lemma ring_append:
  assumes "unat (w - r) \<le> unat (e - r)"
  shows "ring_items n buf r e = ring_items n buf r w @ ring_items n buf w e"
proof -
  let ?k = "unat (w - r)"
  have "unat (e - w) = unat (e - r) - ?k"
    using unat_sub[of "w - r" "e - r"] assms by (simp add: word_le_nat_alt)
  moreover have "[0..<unat (e - r)] = [0..<?k] @ map ((+) ?k) [0..<unat (e - r) - ?k]"
    using assms by (intro nth_equalityI) (auto simp: nth_append)
  moreover have "w = r + of_nat ?k" by simp
  ultimately show ?thesis by (simp add: ring_items_def add.assoc)
qed

lemma ring_full: "unat (w - r :: uint) = n \<longleftrightarrow> w = r + of_nat n"
proof
  assume "unat (w - r) = n"
  then show "w = r + of_nat n" using unat_eqD[of "w - r" n] by (simp add: algebra_simps)
qed (use n_less in \<open>simp add: unat_of_nat\<close>)

end

end
