(* ===== verification/Console.thy ===== *)
theory Console
  imports Fs Format RingBuf
begin

text \<open>
  The console: the UART driver \<open>kernel/uart.c\<close>, the output half of \<open>kernel/printf.c\<close>, the line
  discipline \<open>kernel/console.c\<close>, and \<open>procdump\<close> of \<open>kernel/proc.c\<close>.

  The UART is seen through its registers: \<open>u_trace\<close> is the sequence of register writes, \<open>u_rx\<close> the
  input bytes waiting in the receiver, \<open>u_tx_idle\<close> the bit \<open>LSR_TX_IDLE\<close> as the hardware reports it.  A
  busy wait for the transmitter ends when the hardware is idle, so \<open>uartputc_sync\<close> goes on to the
  write.  A call that sleeps ends in \<open>Away\<close>; what it does when it is resumed is its loop
  (\<open>uartwrite_loop\<close>, \<open>consoleread_loop\<close>) on the state the process then finds.

  \<open>cons.buf\<close> with the indices \<open>r\<close>, \<open>w\<close>, \<open>e\<close> holds the input lines ready to be read (\<open>cons_ready\<close>) and
  the line being edited (\<open>cons_line\<close>); the last section shows that the interrupt handler implements
  a line editor on these two lists.
\<close>

datatype driver = ConsoleDriver

record devsw =
  d_read :: "driver option"
  d_write :: "driver option"

record console = fs +
  panicking :: bool
  panicked :: bool
  u_trace :: "(nat \<times> byte) list"
  u_rx :: "byte list"
  u_tx_idle :: bool
  tx_busy :: bool
  cons_buf :: "byte list"
  cons_r :: uint
  cons_w :: uint
  cons_e :: uint
  devsw :: "devsw list"

section \<open>kernel/uart.c\<close>

definition RHR :: nat where [params]: "RHR = 0"
definition THR :: nat where [params]: "THR = 0"
definition IER :: nat where [params]: "IER = 1"
definition IER_RX_ENABLE :: byte where [params]: "IER_RX_ENABLE = 1"
definition IER_TX_ENABLE :: byte where [params]: "IER_TX_ENABLE = 2"
definition FCR :: nat where [params]: "FCR = 2"
definition FCR_FIFO_ENABLE :: byte where [params]: "FCR_FIFO_ENABLE = 1"
definition FCR_FIFO_CLEAR :: byte where [params]: "FCR_FIFO_CLEAR = 6"
definition LCR :: nat where [params]: "LCR = 3"
definition LCR_EIGHT_BITS :: byte where [params]: "LCR_EIGHT_BITS = 3"
definition LCR_BAUD_LATCH :: byte where [params]: "LCR_BAUD_LATCH = 0x80"

definition WriteReg :: "nat \<Rightarrow> byte \<Rightarrow> 'a console_scheme \<Rightarrow> 'a console_scheme" where
  "WriteReg reg v s = s\<lparr>u_trace := u_trace s @ [(reg, v)]\<rparr>"

definition uartinit :: "'a console_scheme \<Rightarrow> 'a console_scheme" where
  "uartinit s =
     (let s = WriteReg IER 0 s;
          s = WriteReg LCR LCR_BAUD_LATCH s;
          s = WriteReg 0 3 s;
          s = WriteReg 1 0 s;
          s = WriteReg LCR LCR_EIGHT_BITS s;
          s = WriteReg FCR (FCR_FIFO_ENABLE OR FCR_FIFO_CLEAR) s;
          s = WriteReg IER (IER_TX_ENABLE OR IER_RX_ENABLE) s
      in initlock LTx ''uart'' s)"

fun uartwrite_loop :: "byte list \<Rightarrow> 'a console_scheme \<Rightarrow> (unit, 'a console_scheme) res" where
  "uartwrite_loop [] s = release LTx s"
| "uartwrite_loop (b # buf) s =
     (if tx_busy s then sleep ChTx LTx s
      else uartwrite_loop buf ((WriteReg THR b s)\<lparr>tx_busy := True\<rparr>))"

definition uartwrite :: "byte list \<Rightarrow> 'a console_scheme \<Rightarrow> (unit, 'a console_scheme) res" where
  "uartwrite buf s = seq (acquire LTx s) (\<lambda>_ s. uartwrite_loop buf s)"

definition uartputc_sync :: "byte \<Rightarrow> 'a console_scheme \<Rightarrow> (unit, 'a console_scheme) res" where
  "uartputc_sync c s =
     (let s = (if \<not> panicking s then s\<lparr>mach := push_off (mach s)\<rparr> else s) in
      if panicked s then Spin
      else let s = WriteReg THR c s in
        if \<not> panicking s then on_mach pop_off s else Ok () s)"

definition uartgetc :: "'a console_scheme \<Rightarrow> byte option \<times> 'a console_scheme" where
  "uartgetc s = (case u_rx s of [] \<Rightarrow> (None, s) | c # cs \<Rightarrow> (Some c, s\<lparr>u_rx := cs\<rparr>))"

section \<open>Output: consputc, printf, panic\<close>

definition BACKSPACE :: int where [params]: "BACKSPACE = 0x100"

definition consputc :: "int \<Rightarrow> 'a console_scheme \<Rightarrow> (unit, 'a console_scheme) res" where
  "consputc c s =
     (if c = BACKSPACE then
        seq (uartputc_sync 8 s) (\<lambda>_ s. seq (uartputc_sync 32 s) (\<lambda>_ s. uartputc_sync 8 s))
      else uartputc_sync (of_int c) s)"

definition kprintf :: "byte list \<Rightarrow> arg list \<Rightarrow> 'a console_scheme \<Rightarrow> (int, 'a console_scheme) res" where
  "kprintf fmt ap s =
     seq (if \<not> panicking s then acquire LPr s else Ok () s) (\<lambda>_ s.
     case kformat fmt ap of None \<Rightarrow> Undef
     | Some out \<Rightarrow>
         seq (foreach out consputc s) (\<lambda>_ s.
         seq (if \<not> panicking s then release LPr s else Ok () s) (\<lambda>_ s. Ok 0 s)))"

text \<open>\<open>panic\<close> up to its endless loop.\<close>

definition panic_print :: "byte list \<Rightarrow> 'a console_scheme \<Rightarrow> (unit, 'a console_scheme) res" where
  "panic_print msg s =
     seq (kprintf (str ''panic: '') [] (s\<lparr>panicking := True\<rparr>)) (\<lambda>_ s.
     seq (kprintf (str ''%s'' @ [10]) [AStr (Some msg)] s) (\<lambda>_ s.
     Ok () (s\<lparr>panicked := True\<rparr>)))"

definition printfinit :: "'a console_scheme \<Rightarrow> 'a console_scheme" where
  "printfinit s = initlock LPr ''pr'' s"

definition state_name :: "procstate \<Rightarrow> string" where
  "state_name st = (case st of UNUSED \<Rightarrow> ''unused'' | USED \<Rightarrow> ''used'' | SLEEPING \<Rightarrow> ''sleep ''
     | RUNNABLE \<Rightarrow> ''runble'' | RUNNING \<Rightarrow> ''run   '' | ZOMBIE \<Rightarrow> ''zombie'')"

definition procdump_one :: "nat \<Rightarrow> 'a console_scheme \<Rightarrow> (unit, 'a console_scheme) res" where
  "procdump_one i s =
     (let p = procs s ! i in
      if p_state p = UNUSED then Ok () s
      else seq (kprintf (str ''%d %s %s'')
             [AInt (of_int (p_pid p)), AStr (Some (str (state_name (p_state p)))), AStr (Some (p_name p))] s) (\<lambda>_ s.
        seq (kprintf [10] [] s) (\<lambda>_ s. Ok () s)))"

definition procdump :: "'a console_scheme \<Rightarrow> (unit, 'a console_scheme) res" where
  "procdump s = seq (kprintf [10] [] s) (\<lambda>_ s. foreach [0..<NPROC] procdump_one s)"

section \<open>kernel/console.c\<close>

definition INPUT_BUF_SIZE :: nat where [params]: "INPUT_BUF_SIZE = 128"
definition CONSOLE :: nat where [params]: "CONSOLE = 1"

definition Ctrl :: "char \<Rightarrow> byte" where
  "Ctrl x = ch x - ch CHR ''@''"

function consolewrite_loop ::
  "bool \<Rightarrow> uint64 \<Rightarrow> int \<Rightarrow> int \<Rightarrow> 'a console_scheme \<Rightarrow> (int, 'a console_scheme) res" where
  "consolewrite_loop user_src src i n s =
     (if i < n then
        let nn = min 32 (n - i) in
        seq (either_copyin user_src (src + of_int i) (nat nn) s) (\<lambda>(r, buf) s.
        if r = -1 then Ok i s
        else seq (uartwrite buf s) (\<lambda>_ s. consolewrite_loop user_src src (i + nn) n s))
      else Ok i s)"
  by pat_completeness auto
termination
  by (relation "measure (\<lambda>(_, _, i, n, _). nat (n - i))") auto

declare consolewrite_loop.simps [simp del]

definition consolewrite :: "bool \<Rightarrow> uint64 \<Rightarrow> int \<Rightarrow> 'a console_scheme \<Rightarrow> (int, 'a console_scheme) res" where
  "consolewrite user_src src n s = consolewrite_loop user_src src 0 n s"

text \<open>The loop of \<open>consoleread\<close> with \<open>n\<close> bytes to go out of \<open>target\<close>, and the exit that follows it.\<close>

definition consoleread_done :: "nat \<Rightarrow> nat \<Rightarrow> 'a console_scheme \<Rightarrow> (int, 'a console_scheme) res" where
  "consoleread_done n target s = seq (release LCons s) (\<lambda>_ s. Ok (int target - int n) s)"

fun consoleread_loop ::
  "bool \<Rightarrow> uint64 \<Rightarrow> nat \<Rightarrow> nat \<Rightarrow> 'a console_scheme \<Rightarrow> (int, 'a console_scheme) res" where
  "consoleread_loop user_dst dst 0 target s = consoleread_done 0 target s"
| "consoleread_loop user_dst dst (Suc n) target s =
     (if cons_r s = cons_w s then
        case myproc s of None \<Rightarrow> Undef
        | Some p \<Rightarrow>
            seq (killed p s) (\<lambda>k s.
            if k then seq (release LCons s) (\<lambda>_ s. Ok (-1) s)
            else sleep ChCons LCons s)
      else
        let c = cons_buf s ! (unat (cons_r s) mod INPUT_BUF_SIZE);
            s = s\<lparr>cons_r := cons_r s + 1\<rparr>
        in if c = Ctrl CHR ''D'' then
             let s = (if Suc n < target then s\<lparr>cons_r := cons_r s - 1\<rparr> else s)
             in consoleread_done (Suc n) target s
           else seq (either_copyout user_dst dst [c] s) (\<lambda>r s.
             if r = -1 then consoleread_done (Suc n) target s
             else if c = 10 then consoleread_done n target s
             else consoleread_loop user_dst (dst + 1) n target s))"

definition consoleread :: "bool \<Rightarrow> uint64 \<Rightarrow> int \<Rightarrow> 'a console_scheme \<Rightarrow> (int, 'a console_scheme) res" where
  "consoleread user_dst dst n s =
     seq (acquire LCons s) (\<lambda>_ s. consoleread_loop user_dst dst (nat n) (nat n) s)"

text \<open>\<open>^U\<close>: erase up to the start of the line.  \<open>e - w\<close> bytes can be erased at most.\<close>

fun kill_line :: "nat \<Rightarrow> 'a console_scheme \<Rightarrow> (unit, 'a console_scheme) res" where
  "kill_line 0 s = Ok () s"
| "kill_line (Suc k) s =
     (if cons_e s \<noteq> cons_w s \<and> cons_buf s ! (unat (cons_e s - 1) mod INPUT_BUF_SIZE) \<noteq> 10 then
        seq (consputc BACKSPACE (s\<lparr>cons_e := cons_e s - 1\<rparr>)) (\<lambda>_ s. kill_line k s)
      else Ok () s)"

definition consoleintr_switch :: "byte \<Rightarrow> 'a console_scheme \<Rightarrow> (unit, 'a console_scheme) res" where
  "consoleintr_switch c s =
         (if c = Ctrl CHR ''P'' then procdump s
          else if c = Ctrl CHR ''U'' then kill_line (unat (cons_e s - cons_w s)) s
          else if c = Ctrl CHR ''H'' \<or> c = 0x7f then
            (if cons_e s \<noteq> cons_w s then consputc BACKSPACE (s\<lparr>cons_e := cons_e s - 1\<rparr>) else Ok () s)
          else if c \<noteq> 0 \<and> unat (cons_e s - cons_r s) < INPUT_BUF_SIZE then
            let c = (if c = 13 then 10 else c) in
            seq (consputc (uint c) s) (\<lambda>_ s.
            let s = s\<lparr>cons_buf := (cons_buf s)[unat (cons_e s) mod INPUT_BUF_SIZE := c], cons_e := cons_e s + 1\<rparr> in
            if c = 10 \<or> c = Ctrl CHR ''D'' \<or> unat (cons_e s - cons_r s) = INPUT_BUF_SIZE then
              wakeup ChCons (s\<lparr>cons_w := cons_e s\<rparr>)
            else Ok () s)
          else Ok () s)"

definition consoleintr :: "byte \<Rightarrow> 'a console_scheme \<Rightarrow> (unit, 'a console_scheme) res" where
  "consoleintr c s =
     seq (acquire LCons s) (\<lambda>_ s. seq (consoleintr_switch c s) (\<lambda>_ s. release LCons s))"

definition consoleinit :: "'a console_scheme \<Rightarrow> 'a console_scheme" where
  "consoleinit s =
     (let s = uartinit (initlock LCons ''cons'' s) in
      s\<lparr>devsw := (devsw s)[CONSOLE := \<lparr>d_read = Some ConsoleDriver, d_write = Some ConsoleDriver\<rparr>]\<rparr>)"

text \<open>The loop of \<open>uartintr\<close> runs over the bytes that are waiting.\<close>

fun uartintr_loop :: "nat \<Rightarrow> 'a console_scheme \<Rightarrow> (unit, 'a console_scheme) res" where
  "uartintr_loop 0 s = Ok () s"
| "uartintr_loop (Suc k) s =
     (case uartgetc s of
        (None, s) \<Rightarrow> Ok () s
      | (Some c, s) \<Rightarrow> seq (consoleintr c s) (\<lambda>_ s. uartintr_loop k s))"

definition uartintr :: "'a console_scheme \<Rightarrow> (unit, 'a console_scheme) res" where
  "uartintr s =
     seq (acquire LTx s) (\<lambda>_ s.
     seq (if u_tx_idle s then wakeup ChTx (s\<lparr>tx_busy := False\<rparr>) else Ok () s) (\<lambda>_ s.
     seq (release LTx s) (\<lambda>_ s.
     uartintr_loop (Suc (length (u_rx s))) s)))"

section \<open>Output inside a critical section\<close>

text \<open>
  \<open>steady s\<close>: output returns, and the nesting it does on the way leaves the hart as it was (inside a
  critical section, or outside one with \<open>intena\<close> recording the interrupt flag).
\<close>

definition steady :: "'a console_scheme \<Rightarrow> bool" where
  "steady s \<longleftrightarrow> mach_ok (mach s) \<and> norm (mach s) = mach s \<and> \<not> panicked s"

definition emit :: "byte list \<Rightarrow> 'a console_scheme \<Rightarrow> 'a console_scheme" where
  "emit bs s = s\<lparr>u_trace := u_trace s @ map (Pair THR) bs\<rparr>"

lemma emit_simps [simp]:
  "mach (emit bs s) = mach s" "panicked (emit bs s) = panicked s" "panicking (emit bs s) = panicking s"
  "steady (emit bs s) = steady s" "emit cs (emit bs s) = emit (bs @ cs) s" "emit [] s = s"
  "cons_buf (emit bs s) = cons_buf s" "cons_r (emit bs s) = cons_r s" "cons_w (emit bs s) = cons_w s"
  "cons_e (emit bs s) = cons_e s" "procs (emit bs s) = procs s" "myproc (emit bs s) = myproc s"
  by (simp_all add: emit_def steady_def myproc_def)

lemma uartputc_steady:
  assumes "steady s"
  shows "uartputc_sync c s = Ok () (emit [c] s)"
proof -
  have "(WriteReg THR c (s\<lparr>mach := push_off (mach s)\<rparr>))\<lparr>mach := norm (mach s)\<rparr> = emit [c] s"
    using assms by (intro console.equality) (simp_all add: WriteReg_def emit_def steady_def)
  then show ?thesis
    using assms by (simp add: uartputc_sync_def Let_def on_mach_def pop_push steady_def)
      (simp add: WriteReg_def emit_def pop_push)
qed

lemma consputc_steady:
  "steady s \<Longrightarrow> consputc c s = Ok () (emit (if c = BACKSPACE then [8, 32, 8] else [of_int c]) s)"
  by (simp add: consputc_def uartputc_steady)

lemma foreach_consputc: "steady s \<Longrightarrow> \<exists>bs. foreach out consputc s = Ok () (emit bs s)"
proof (induction out arbitrary: s)
  case Nil
  then show ?case by (auto intro: exI[of _ "[]"])
next
  case (Cons c out)
  then show ?case using Cons.IH[of "emit (if c = BACKSPACE then [8, 32, 8] else [of_int c]) s"]
    by (fastforce simp: consputc_steady)
qed

lemma kprintf_steady:
  assumes "steady s" "lock_free LPr (mach s)" "kformat fmt ap \<noteq> None"
  shows "\<exists>bs. kprintf fmt ap s = Ok 0 (emit bs s)"
proof (cases "panicking s")
  case True
  obtain out bs where o: "kformat fmt ap = Some out" "foreach out consputc s = Ok () (emit bs s)"
    using assms(3) foreach_consputc[OF assms(1)] by blast
  then show ?thesis using True by (auto simp: kprintf_def)
next
  case False
  let ?t = "s\<lparr>mach := entered LPr (mach s)\<rparr>"
  have m: "mach_ok (mach s)" "norm (mach s) = mach s" using assms(1) by (auto simp: steady_def)
  have "steady ?t" using assms(1) by (simp add: steady_def)
  then obtain out bs where o: "kformat fmt ap = Some out" "foreach out consputc ?t = Ok () (emit bs ?t)"
    using assms(3) foreach_consputc by blast
  have "release LPr (emit bs ?t) = Ok () ((emit bs ?t)\<lparr>mach := norm (mach s)\<rparr>)"
    using release_entered[of "emit bs ?t" LPr "mach s"] m assms(2) by simp
  moreover have "(emit bs ?t)\<lparr>mach := norm (mach s)\<rparr> = emit bs s"
    using m(2) by (intro console.equality) (simp_all add: emit_def)
  ultimately show ?thesis using False o assms(2) by (auto simp: kprintf_def acquire_free)
qed

lemma kformat_newline: "kformat [10] [] \<noteq> None"
  by (simp add: kformat.simps[of "_ # _"] kformat.simps[of "[]"] fmt_at_def ch_def)

lemma kformat_procdump: "kformat (str ''%d %s %s'') [AInt a, AStr (Some b), AStr (Some c)] \<noteq> None"
  by (simp add: kformat.simps[of "_ # _"] kformat.simps[of "[]"] fmt_at_def ch_def str_def conversion_def)

lemma procdump_steady:
  assumes "steady s" "lock_free LPr (mach s)"
  shows "\<exists>bs. procdump s = Ok () (emit bs s)"
proof -
  have nl: "\<exists>bs. kprintf [10] [] t = Ok 0 (emit bs t)" if "steady t" "lock_free LPr (mach t)" for t :: "'a console_scheme"
    using kprintf_steady[OF that kformat_newline] .
  have all: "\<exists>bs. foreach xs procdump_one t = Ok () (emit bs t)"
    if "steady t" "lock_free LPr (mach t)" for xs and t :: "'a console_scheme"
    using that
  proof (induction xs arbitrary: t)
    case Nil
    then show ?case by (auto intro: exI[of _ "[]"])
  next
    case (Cons i xs)
    show ?case
    proof (cases "p_state (procs t ! i) = UNUSED")
      case True
      then show ?thesis using Cons by (simp add: procdump_one_def)
    next
      case False
      obtain b1 where b1: "kprintf (str ''%d %s %s'') [AInt (of_int (p_pid (procs t ! i))),
          AStr (Some (str (state_name (p_state (procs t ! i))))), AStr (Some (p_name (procs t ! i)))] t = Ok 0 (emit b1 t)"
        using kprintf_steady[OF Cons.prems kformat_procdump] by blast
      obtain b2 where b2: "kprintf [10] [] (emit b1 t) = Ok 0 (emit b2 (emit b1 t))" using nl[of "emit b1 t"] Cons.prems by auto
      show ?thesis using False b1 b2 Cons.IH[of "emit b2 (emit b1 t)"] Cons.prems by (auto simp: procdump_one_def Let_def)
    qed
  qed
  obtain b0 where b0: "kprintf [10] [] s = Ok 0 (emit b0 s)" using nl[OF assms] by blast
  obtain b1 where "foreach [0..<NPROC] procdump_one (emit b0 s) = Ok () (emit b1 (emit b0 s))"
    using all[of "emit b0 s" "[0..<NPROC]"] assms by auto
  then show ?thesis using b0 by (auto simp: procdump_def)
qed

section \<open>The line editor\<close>

interpretation cr: ring_buffer INPUT_BUF_SIZE
  by unfold_locales (simp_all add: params)

definition cons_ready :: "'a console_scheme \<Rightarrow> byte list" where
  "cons_ready s = ring_items INPUT_BUF_SIZE (cons_buf s) (cons_r s) (cons_w s)"

definition cons_line :: "'a console_scheme \<Rightarrow> byte list" where
  "cons_line s = ring_items INPUT_BUF_SIZE (cons_buf s) (cons_w s) (cons_e s)"

definition cons_ok :: "'a console_scheme \<Rightarrow> bool" where
  "cons_ok s \<longleftrightarrow> length (cons_buf s) = INPUT_BUF_SIZE \<and>
     unat (cons_w s - cons_r s) + unat (cons_e s - cons_w s) \<le> INPUT_BUF_SIZE"

text \<open>What one input byte does to the pair of the bytes ready to be read and the line being edited.\<close>

definition edit :: "byte \<Rightarrow> byte list \<times> byte list \<Rightarrow> byte list \<times> byte list" where
  "edit c = (\<lambda>(ready, line).
     if c = Ctrl CHR ''P'' then (ready, line)
     else if c = Ctrl CHR ''U'' then (ready, rev (dropWhile (\<lambda>x. x \<noteq> 10) (rev line)))
     else if c = Ctrl CHR ''H'' \<or> c = 0x7f then (ready, butlast line)
     else if c = 0 \<or> length ready + length line = INPUT_BUF_SIZE then (ready, line)
     else let c = (if c = 13 then 10 else c); line = line @ [c] in
       if c = 10 \<or> c = Ctrl CHR ''D'' \<or> length ready + length line = INPUT_BUF_SIZE then (ready @ line, [])
       else (ready, line))"

lemma kill_line_law:
  assumes "steady s" "unat (cons_e s - cons_w s) \<le> k"
  shows "\<exists>bs e. kill_line k s = Ok () (emit bs (s\<lparr>cons_e := e\<rparr>)) \<and> unat (e - cons_w s) \<le> unat (cons_e s - cons_w s) \<and>
    ring_items INPUT_BUF_SIZE (cons_buf s) (cons_w s) e = rev (dropWhile (\<lambda>x. x \<noteq> 10) (rev (cons_line s)))"
  using assms
proof (induction k arbitrary: s)
  case 0
  then have "cons_line s = []" by (simp add: cons_line_def unat_eq_zero)
  then show ?case by (intro exI[of _ "[]"] exI[of _ "cons_e s"]) (simp add: cons_line_def)
next
  case (Suc k)
  let ?x = "cons_buf s ! (unat (cons_e s - 1) mod INPUT_BUF_SIZE)"
  let ?t = "emit [8, 32, 8] (s\<lparr>cons_e := cons_e s - 1\<rparr>)"
  have line: "cons_e s \<noteq> cons_w s \<Longrightarrow> cons_line s = cons_line ?t @ [?x]"
    using cr.ring_unpush[of "cons_w s" "cons_e s" "cons_buf s"] by (simp add: cons_line_def)
  show ?case
  proof (cases "cons_e s \<noteq> cons_w s \<and> ?x \<noteq> 10")
    case True
    have len: "length (cons_line s) = Suc (length (cons_line ?t))" using line True by simp
    then have "unat (cons_e ?t - cons_w ?t) \<le> k" using Suc.prems(2) by (simp add: cons_line_def)
    moreover have st: "steady (s\<lparr>cons_e := cons_e s - 1\<rparr>)" using Suc.prems(1) by (simp add: steady_def)
    ultimately obtain bs e where e: "kill_line k ?t = Ok () (emit bs (?t\<lparr>cons_e := e\<rparr>))"
      "unat (e - cons_w s) \<le> unat (cons_e s - 1 - cons_w s)"
      "ring_items INPUT_BUF_SIZE (cons_buf s) (cons_w s) e = rev (dropWhile (\<lambda>x. x \<noteq> 10) (rev (cons_line ?t)))"
      using Suc.IH[of ?t] by auto
    have "emit bs (?t\<lparr>cons_e := e\<rparr>) = emit ([8, 32, 8] @ bs) (s\<lparr>cons_e := e\<rparr>)" by (simp add: emit_def)
    then have "kill_line (Suc k) s = Ok () (emit ([8, 32, 8] @ bs) (s\<lparr>cons_e := e\<rparr>))"
      using True e(1) consputc_steady[OF st, of BACKSPACE] by simp
    moreover have "unat (e - cons_w s) \<le> unat (cons_e s - cons_w s)" using e(2) len by (simp add: cons_line_def)
    ultimately show ?thesis using e(3) line True by (intro exI[of _ "[8, 32, 8] @ bs"] exI[of _ e]) simp
  next
    case False
    then have "kill_line (Suc k) s = Ok () s" by auto
    moreover have "rev (dropWhile (\<lambda>x. x \<noteq> 10) (rev (cons_line s))) = cons_line s"
    proof (cases "cons_e s = cons_w s")
      case True
      then show ?thesis by (simp add: cons_line_def)
    next
      case ne: False
      then show ?thesis using False line by simp
    qed
    ultimately show ?thesis by (intro exI[of _ "[]"] exI[of _ "cons_e s"]) (simp add: cons_line_def)
  qed
qed

lemma cons_ok_add:
  assumes "unat (w - r) + unat (e - w) \<le> INPUT_BUF_SIZE"
  shows "unat (e - r) = unat (w - r) + unat (e - w :: uint)"
  using unat_add_lem[of "w - r" "e - w"] assms by (simp add: params)

lemma ring_items_update_other:
  assumes "length buf = INPUT_BUF_SIZE" "unat (w - r) + unat (e - w) < INPUT_BUF_SIZE"
  shows "ring_items INPUT_BUF_SIZE (buf[unat e mod INPUT_BUF_SIZE := c]) r w = ring_items INPUT_BUF_SIZE buf r w"
proof -
  let ?b = "buf[unat e mod INPUT_BUF_SIZE := c]"
  have er: "unat (e - r) = unat (w - r) + unat (e - w)" using cons_ok_add[of w r e] assms(2) by simp
  have "ring_items INPUT_BUF_SIZE ?b r e = ring_items INPUT_BUF_SIZE buf r e"
  proof -
    have "ring_items INPUT_BUF_SIZE ?b r (e + 1) = ring_items INPUT_BUF_SIZE buf r e @ [c]"
      using cr.ring_push[of buf e r c] assms er by simp
    moreover have "r \<noteq> e + 1"
    proof
      assume "r = e + 1"
      then have "unat (e - r) = 2 ^ 32 - 1" by (simp add: unsigned_minus_1_eq_mask mask_eq_exp_minus_1)
      then show False using er assms(2) by (simp add: params)
    qed
    ultimately show ?thesis using cr.ring_unpush[of r "e + 1" ?b] by simp
  qed
  then have "ring_items INPUT_BUF_SIZE ?b r w @ ring_items INPUT_BUF_SIZE ?b w e =
    ring_items INPUT_BUF_SIZE buf r w @ ring_items INPUT_BUF_SIZE buf w e"
    using cr.ring_append[of w r e] er by simp
  then show ?thesis by simp
qed

text \<open>Storing one more input byte, before the test that ends the line.\<close>

lemma cons_store:
  fixes c :: byte and s :: "'a console_scheme"
  assumes "cons_ok s" "unat (cons_e s - cons_r s) < INPUT_BUF_SIZE"
  defines "t \<equiv> s\<lparr>cons_buf := (cons_buf s)[unat (cons_e s) mod INPUT_BUF_SIZE := c], cons_e := cons_e s + 1\<rparr>"
  shows "cons_ready t = cons_ready s" "cons_line t = cons_line s @ [c]" "cons_ok t"
    "unat (cons_e t - cons_r t) = length (cons_ready t) + length (cons_line t)"
    "ring_items INPUT_BUF_SIZE (cons_buf t) (cons_r t) (cons_e t) = cons_ready t @ cons_line t"
proof -
  let ?n = INPUT_BUF_SIZE
  have len: "length (cons_buf s) = ?n" and er: "unat (cons_e s - cons_r s) = unat (cons_w s - cons_r s) + unat (cons_e s - cons_w s)"
    using assms(1) cons_ok_add[of "cons_w s" "cons_r s" "cons_e s"] by (simp_all add: cons_ok_def)
  have lt: "unat (cons_e s - cons_w s) < ?n" "unat (cons_w s - cons_r s) + unat (cons_e s - cons_w s) < ?n" using assms(2) er by simp_all
  show r: "cons_ready t = cons_ready s" using ring_items_update_other[OF len lt(2)] by (simp add: cons_ready_def t_def)
  show l: "cons_line t = cons_line s @ [c]" using cr.ring_push[OF len lt(1)] by (simp add: cons_line_def t_def)
  have "unat (cons_e t - cons_w t) = Suc (unat (cons_e s - cons_w s))"
    using arg_cong[OF l, of length] by (simp add: cons_line_def)
  then show ok: "cons_ok t" using len lt by (simp add: cons_ok_def t_def)
  then have w: "unat (cons_e t - cons_r t) = unat (cons_w t - cons_r t) + unat (cons_e t - cons_w t)"
    using cons_ok_add[of "cons_w t" "cons_r t" "cons_e t"] by (simp add: cons_ok_def)
  then show "unat (cons_e t - cons_r t) = length (cons_ready t) + length (cons_line t)"
    by (simp add: cons_ready_def cons_line_def)
  show "ring_items ?n (cons_buf t) (cons_r t) (cons_e t) = cons_ready t @ cons_line t"
    using cr.ring_append[of "cons_w t" "cons_r t" "cons_e t" "cons_buf t"] w by (simp add: cons_ready_def cons_line_def)
qed

lemma cons_abs_emit [simp]:
  "cons_ready (emit bs s) = cons_ready s" "cons_line (emit bs s) = cons_line s" "cons_ok (emit bs s) = cons_ok s"
  by (simp_all add: cons_ready_def cons_line_def cons_ok_def)

lemma cons_abs_mach [simp]:
  "cons_ready (s\<lparr>mach := m\<rparr>) = cons_ready s" "cons_line (s\<lparr>mach := m\<rparr>) = cons_line s" "cons_ok (s\<lparr>mach := m\<rparr>) = cons_ok s"
  by (simp_all add: cons_ready_def cons_line_def cons_ok_def)

lemma cons_ok_length: "cons_ok s \<Longrightarrow> unat (cons_e s - cons_r s) = length (cons_ready s) + length (cons_line s)"
  using cons_ok_add[of "cons_w s" "cons_r s" "cons_e s"] by (simp add: cons_ok_def cons_ready_def cons_line_def)

lemma switch_store:
  assumes "steady s" "cons_ok s" "proclocks_free (mach s)" "length (procs s) = NPROC"
    "unat (cons_e s - cons_r s) < INPUT_BUF_SIZE"
    "c \<notin> {0, 0x7f, Ctrl CHR ''P'', Ctrl CHR ''U'', Ctrl CHR ''H''}"
  shows "\<exists>s'. consoleintr_switch c s = Ok () s' \<and> mach s' = mach s \<and> cons_ok s' \<and>
    (cons_ready s', cons_line s') = edit c (cons_ready s, cons_line s) \<and>
    (cons_ready s' \<noteq> cons_ready s \<longrightarrow> procs s' = woken ChCons (myproc s) (procs s))"
proof -
  define d where "d = (if c = 13 then 10 else c)"
  define u where "u = emit (if uint d = BACKSPACE then [8, 32, 8] else [d]) s"
  define t where "t = u\<lparr>cons_buf := (cons_buf u)[unat (cons_e u) mod INPUT_BUF_SIZE := d], cons_e := cons_e u + 1\<rparr>"
  have u: "consputc (uint d) s = Ok () u" "cons_ok u" "unat (cons_e u - cons_r u) < INPUT_BUF_SIZE"
    using consputc_steady[OF assms(1), of "uint d"] assms(2,5) by (simp_all add: u_def)
  note st = cons_store[OF u(2,3), of d, folded t_def]
  have abs: "cons_ready t = cons_ready s" "cons_line t = cons_line s @ [d]" using st(1,2) by (simp_all add: u_def)
  have t: "mach t = mach s" "procs t = procs s" "myproc t = myproc s" by (simp_all add: t_def u_def myproc_def)
  have n: "length (cons_ready s) + length (cons_line s) \<noteq> INPUT_BUF_SIZE" using assms(2,5) cons_ok_length by force
  have step: "consoleintr_switch c s =
    (if d = 10 \<or> d = Ctrl CHR ''D'' \<or> unat (cons_e t - cons_r t) = INPUT_BUF_SIZE then wakeup ChCons (t\<lparr>cons_w := cons_e t\<rparr>) else Ok () t)"
    using assms(5,6) u(1) by (simp add: consoleintr_switch_def Let_def flip: d_def) (simp add: t_def)
  have ed: "edit c (cons_ready s, cons_line s) =
    (if d = 10 \<or> d = Ctrl CHR ''D'' \<or> unat (cons_e t - cons_r t) = INPUT_BUF_SIZE then (cons_ready t @ cons_line t, []) else (cons_ready t, cons_line t))"
    using assms(6) n st(4) abs by (simp add: edit_def Let_def flip: d_def)
  show ?thesis
  proof (cases "d = 10 \<or> d = Ctrl CHR ''D'' \<or> unat (cons_e t - cons_r t) = INPUT_BUF_SIZE")
    case True
    let ?v = "t\<lparr>cons_w := cons_e t\<rparr>"
    have v: "cons_ready ?v = cons_ready t @ cons_line t" "cons_line ?v = []" "cons_ok ?v"
      using st(3,5) cons_ok_length[OF st(3)] by (simp_all add: cons_ready_def cons_line_def cons_ok_def)
    let ?z = "?v\<lparr>mach := mach s, procs := woken ChCons (myproc s) (procs s)\<rparr>"
    have "wakeup ChCons ?v = Ok () ?z"
      using wakeup_eq[of ?v ChCons] assms t by (simp add: steady_def myproc_def)
    moreover have "cons_ready ?z = cons_ready ?v" "cons_line ?z = cons_line ?v" "cons_ok ?z = cons_ok ?v"
      by (simp_all add: cons_ready_def cons_line_def cons_ok_def)
    ultimately show ?thesis using True step ed v by (intro exI[of _ ?z]) simp
  next
    case False
    then show ?thesis using step ed st t abs(1) by (intro exI[of _ t]) simp
  qed
qed

lemma switch_edits:
  assumes "steady s" "cons_ok s" "proclocks_free (mach s)" "lock_free LPr (mach s)" "length (procs s) = NPROC"
  shows "\<exists>s'. consoleintr_switch c s = Ok () s' \<and> mach s' = mach s \<and> cons_ok s' \<and>
    (cons_ready s', cons_line s') = edit c (cons_ready s, cons_line s) \<and>
    (cons_ready s' \<noteq> cons_ready s \<longrightarrow> procs s' = woken ChCons (myproc s) (procs s))"
proof -
  have ctrl: "Ctrl CHR ''P'' = 16" "Ctrl CHR ''U'' = 21" "Ctrl CHR ''H'' = 8" by (simp_all add: Ctrl_def ch_def)
  have sub: "cons_ok (s\<lparr>cons_e := e\<rparr>)" if "unat (e - cons_w s) \<le> unat (cons_e s - cons_w s)" for e
    using assms(2) that by (simp add: cons_ok_def)
  have rd: "cons_ready (s\<lparr>cons_e := e\<rparr>) = cons_ready s"
    "cons_line (s\<lparr>cons_e := e\<rparr>) = ring_items INPUT_BUF_SIZE (cons_buf s) (cons_w s) e" for e
    by (simp_all add: cons_ready_def cons_line_def)
  consider "c = 16" | "c = 21" | "c = 8 \<or> c = 0x7f" | "c \<notin> {16, 21, 8, 0x7f}" by blast
  then show ?thesis
  proof cases
    case 1
    then show ?thesis using procdump_steady[OF assms(1,4)] assms(2)
      by (fastforce simp: consoleintr_switch_def edit_def ctrl)
  next
    case 2
    obtain bs e where e: "kill_line (unat (cons_e s - cons_w s)) s = Ok () (emit bs (s\<lparr>cons_e := e\<rparr>))"
      "unat (e - cons_w s) \<le> unat (cons_e s - cons_w s)"
      "ring_items INPUT_BUF_SIZE (cons_buf s) (cons_w s) e = rev (dropWhile (\<lambda>x. x \<noteq> 10) (rev (cons_line s)))"
      using kill_line_law[OF assms(1) order_refl] by blast
    then show ?thesis using 2 sub[OF e(2)] rd
      by (intro exI[of _ "emit bs (s\<lparr>cons_e := e\<rparr>)"]) (simp add: consoleintr_switch_def edit_def ctrl)
  next
    case 3
    show ?thesis
    proof (cases "cons_e s = cons_w s")
      case True
      then have "cons_line s = []" by (simp add: cons_line_def)
      then show ?thesis using 3 True assms(2) by (intro exI[of _ s]) (auto simp: consoleintr_switch_def edit_def ctrl)
    next
      case False
      let ?t = "s\<lparr>cons_e := cons_e s - 1\<rparr>"
      have l: "cons_line s = cons_line ?t @ [cons_buf s ! (unat (cons_e s - 1) mod INPUT_BUF_SIZE)]"
        using cr.ring_unpush[of "cons_w s" "cons_e s" "cons_buf s"] False by (simp add: cons_line_def)
      have "unat (cons_e s - 1 - cons_w s) \<le> unat (cons_e s - cons_w s)"
        using arg_cong[OF l, of length] by (simp add: cons_line_def)
      moreover have "steady ?t" using assms(1) by (simp add: steady_def)
      ultimately show ?thesis using 3 False l sub[of "cons_e s - 1"] rd[of "cons_e s - 1"] consputc_steady[of ?t BACKSPACE]
        by (intro exI[of _ "emit [8, 32, 8] ?t"]) (auto simp: consoleintr_switch_def edit_def ctrl)
    qed
  next
    case 4
    show ?thesis
    proof (cases "c = 0 \<or> unat (cons_e s - cons_r s) = INPUT_BUF_SIZE")
      case True
      then show ?thesis using 4 cons_ok_length[OF assms(2)] assms(2)
        by (intro exI[of _ s]) (auto simp: consoleintr_switch_def edit_def ctrl)
    next
      case False
      then have "unat (cons_e s - cons_r s) < INPUT_BUF_SIZE"
        using assms(2) cons_ok_add[of "cons_w s" "cons_r s" "cons_e s"] by (simp add: cons_ok_def)
      then show ?thesis using switch_store[OF assms(1,2,3,5)] 4 False by (simp add: ctrl)
    qed
  qed
qed

definition example_console :: console where
  "example_console = fs.extend (logging.extend example_log (fs.fields example_sb (replicate NINODE empty_inode)))
     (console.fields False False [] [] True False (replicate 128 0) 5 5 5 (replicate NDEV \<lparr>d_read = None, d_write = None\<rparr>))"

lemma example_console [simp]:
  "mach example_console = idle_mach" "procs example_console = procs example_base" "\<not> panicked example_console"
  "cons_ready example_console = []" "cons_line example_console = []" "cons_ok example_console"
  by (simp_all add: example_console_def logging.defs fs.defs console.defs example_log_def base.defs memory.defs bio.defs
      example_base_def cons_ready_def cons_line_def cons_ok_def params)

text \<open>
  C7: the console interrupt handler implements the line editor \<open>edit\<close>.  For every input byte it
  returns with the locks as before, and the two lists that the circular buffer stands for, also
  when its 32-bit indices wrap, are what \<open>edit\<close> makes of them: \<open>^H\<close> and DEL remove the last byte of the
  line, \<open>^U\<close> the line, a newline, \<open>^D\<close> or the 128th byte hands the line to the readers and wakes them,
  \<open>\r\<close> counts as newline, a byte that finds the buffer full is dropped, and nothing that was handed
  over is ever erased.
\<close>

theorem consoleintr_edits_line:
  assumes "cons_ok s" "quiet (mach s)" "\<not> panicked s" "length (procs s) = NPROC"
  shows "\<exists>s'. consoleintr c s = Ok () s' \<and> cons_ok s' \<and> mach s' = norm (mach s) \<and>
    (cons_ready s', cons_line s') = edit c (cons_ready s, cons_line s) \<and>
    (cons_ready s' \<noteq> cons_ready s \<longrightarrow> procs s' = woken ChCons (myproc s) (procs s))"
proof -
  let ?t = "s\<lparr>mach := entered LCons (mach s)\<rparr>"
  have m: "mach_ok (mach s)" "lock_free LCons (mach s)" using assms(2) by (auto simp: quiet_def)
  have "steady ?t" "cons_ok ?t" "proclocks_free (mach ?t)" "lock_free LPr (mach ?t)" "length (procs ?t) = NPROC"
    using assms m quiet_proclocks[OF assms(2)] by (simp_all add: steady_def quiet_def)
  from switch_edits[OF this, of c] obtain s' where s': "consoleintr_switch c ?t = Ok () s'" "mach s' = mach ?t" "cons_ok s'"
    "(cons_ready s', cons_line s') = edit c (cons_ready s, cons_line s)"
    "cons_ready s' \<noteq> cons_ready s \<longrightarrow> procs s' = woken ChCons (myproc ?t) (procs s)"
    by auto
  have "consoleintr c s = Ok () (s'\<lparr>mach := norm (mach s)\<rparr>)"
    using s'(1,2) m release_entered[of s' LCons "mach s"] by (simp add: consoleintr_def acquire_free)
  then show ?thesis using s' by (intro exI[of _ "s'\<lparr>mach := norm (mach s)\<rparr>"]) (simp add: myproc_def)
qed

theorem consoleintr_edits_line_witness:
  "\<exists>s'. consoleintr 97 example_console = Ok () s' \<and> cons_ready s' = [] \<and> cons_line s' = [97]"
proof -
  have "edit 97 ([], []) = ([], [97])" by (simp add: edit_def Ctrl_def ch_def params)
  then show ?thesis using consoleintr_edits_line[of example_console 97] by auto
qed

end
