(* ===== verification/File.thy ===== *)
theory File
  imports Console
begin

text \<open>
  Open files and pipes, \<open>kernel/file.c\<close> and \<open>kernel/pipe.c\<close>.  A \<open>struct file *\<close> is an index into
  \<open>ftable.file[]\<close>.  A \<open>struct pipe\<close> lives in a page of \<open>kalloc\<close>; \<open>pipes\<close> maps the page's address to
  the structure, and its lock is \<open>LPipe\<close> of that address.  A pipe's \<open>data\<close> keeps whatever it held
  when the structure is allocated, as \<open>pipealloc\<close> does not clear it.

  A call that sleeps ends in \<open>Away\<close>; resumed, it goes on in \<open>pipewrite_loop\<close> or \<open>piperead_wait\<close>.
  The last section shows that a pipe is a queue of at most \<open>PIPESIZE\<close> bytes.
\<close>

datatype fdtype = FD_NONE | FD_PIPE | FD_INODE | FD_DEVICE

record ofile =
  f_type :: fdtype
  f_ref :: int
  f_readable :: bool
  f_writable :: bool
  f_pipe :: uint64
  f_ip :: "nat option"
  f_off :: uint
  f_major :: ushort

definition PIPESIZE :: nat where [params]: "PIPESIZE = 512"

record pipe =
  pi_data :: "byte list"
  pi_nread :: uint
  pi_nwrite :: uint
  pi_readopen :: bool
  pi_writeopen :: bool

record files = console +
  ftable :: "ofile list"
  pipes :: "uint64 \<Rightarrow> pipe"

definition fil :: "nat \<Rightarrow> 'a files_scheme \<Rightarrow> ofile" where
  "fil f s = ftable s ! f"

definition upd_file :: "nat \<Rightarrow> (ofile \<Rightarrow> ofile) \<Rightarrow> 'a files_scheme \<Rightarrow> 'a files_scheme" where
  "upd_file f g s = s\<lparr>ftable := (ftable s)[f := g (ftable s ! f)]\<rparr>"

definition upd_pipe :: "uint64 \<Rightarrow> (pipe \<Rightarrow> pipe) \<Rightarrow> 'a files_scheme \<Rightarrow> 'a files_scheme" where
  "upd_pipe pi g s = s\<lparr>pipes := (pipes s)(pi := g (pipes s pi))\<rparr>"

section \<open>The file table\<close>

definition fileinit :: "'a files_scheme \<Rightarrow> 'a files_scheme" where
  "fileinit s = initlock LFtable ''ftable'' s"

definition filealloc :: "'a files_scheme \<Rightarrow> (nat option, 'a files_scheme) res" where
  "filealloc s =
     seq (acquire LFtable s) (\<lambda>_ s.
     case find (\<lambda>f. f_ref (fil f s) = 0) [0..<NFILE] of
       Some f \<Rightarrow> seq (release LFtable (upd_file f (\<lambda>x. x\<lparr>f_ref := 1\<rparr>) s)) (\<lambda>_ s. Ok (Some f) s)
     | None \<Rightarrow> seq (release LFtable s) (\<lambda>_ s. Ok None s))"

definition filedup :: "nat \<Rightarrow> 'a files_scheme \<Rightarrow> (nat, 'a files_scheme) res" where
  "filedup f s =
     seq (acquire LFtable s) (\<lambda>_ s.
     if f_ref (fil f s) < 1 then Panic ''filedup''
     else seq (release LFtable (upd_file f (\<lambda>x. x\<lparr>f_ref := f_ref x + 1\<rparr>) s)) (\<lambda>_ s. Ok f s))"

section \<open>Pipes\<close>

definition pipeclose :: "uint64 \<Rightarrow> bool \<Rightarrow> 'a files_scheme \<Rightarrow> (unit, 'a files_scheme) res" where
  "pipeclose pi wr_end s =
     seq (acquire (LPipe pi) s) (\<lambda>_ s.
     seq (if wr_end then wakeup (ChPipeRead pi) (upd_pipe pi (\<lambda>p. p\<lparr>pi_writeopen := False\<rparr>) s)
          else wakeup (ChPipeWrite pi) (upd_pipe pi (\<lambda>p. p\<lparr>pi_readopen := False\<rparr>) s)) (\<lambda>_ s.
     if \<not> pi_readopen (pipes s pi) \<and> \<not> pi_writeopen (pipes s pi) then
       seq (release (LPipe pi) s) (\<lambda>_ s. kfree pi s)
     else release (LPipe pi) s))"

function pipewrite_loop ::
  "uint64 \<Rightarrow> nat \<Rightarrow> uint64 \<Rightarrow> int \<Rightarrow> int \<Rightarrow> 'a files_scheme \<Rightarrow> (int, 'a files_scheme) res" where
  "pipewrite_loop pi pr addr i n s =
     (if i < n then
        seq (if \<not> pi_readopen (pipes s pi) then Ok True s else killed pr s) (\<lambda>stop s.
        if stop then seq (release (LPipe pi) s) (\<lambda>_ s. Ok (-1) s)
        else if pi_nwrite (pipes s pi) = pi_nread (pipes s pi) + of_nat PIPESIZE then
          seq (wakeup (ChPipeRead pi) s) (\<lambda>_ s. sleep (ChPipeWrite pi) (LPipe pi) s)
        else seq (copyin (p_pagetable (procs s ! pr)) (addr + of_int i) 1 s) (\<lambda>(r, bs) s.
          if r = -1 then
            seq (wakeup (ChPipeRead pi) s) (\<lambda>_ s. seq (release (LPipe pi) s) (\<lambda>_ s. Ok i s))
          else
            let s = upd_pipe pi (\<lambda>p. p\<lparr>
                  pi_data := (pi_data p)[unat (pi_nwrite p) mod PIPESIZE := hd bs], pi_nwrite := pi_nwrite p + 1\<rparr>) s
            in pipewrite_loop pi pr addr (i + 1) n s))
      else seq (wakeup (ChPipeRead pi) s) (\<lambda>_ s. seq (release (LPipe pi) s) (\<lambda>_ s. Ok i s)))"
  by pat_completeness auto
termination
  by (relation "measure (\<lambda>(_, _, _, i, n, _). nat (n - i))") auto

declare pipewrite_loop.simps [simp del]

definition pipewrite :: "uint64 \<Rightarrow> uint64 \<Rightarrow> int \<Rightarrow> 'a files_scheme \<Rightarrow> (int, 'a files_scheme) res" where
  "pipewrite pi addr n s =
     (case myproc s of None \<Rightarrow> Undef
      | Some pr \<Rightarrow> seq (acquire (LPipe pi) s) (\<lambda>_ s. pipewrite_loop pi pr addr 0 n s))"

definition piperead_done :: "uint64 \<Rightarrow> int \<Rightarrow> 'a files_scheme \<Rightarrow> (int, 'a files_scheme) res" where
  "piperead_done pi i s =
     seq (wakeup (ChPipeWrite pi) s) (\<lambda>_ s. seq (release (LPipe pi) s) (\<lambda>_ s. Ok i s))"

function piperead_loop ::
  "uint64 \<Rightarrow> nat \<Rightarrow> uint64 \<Rightarrow> int \<Rightarrow> int \<Rightarrow> 'a files_scheme \<Rightarrow> (int, 'a files_scheme) res" where
  "piperead_loop pi pr addr i n s =
     (if i < n then
        if pi_nread (pipes s pi) = pi_nwrite (pipes s pi) then piperead_done pi i s
        else let c = pi_data (pipes s pi) ! (unat (pi_nread (pipes s pi)) mod PIPESIZE) in
          seq (copyout (p_pagetable (procs s ! pr)) (addr + of_int i) [c] s) (\<lambda>r s.
          if r = -1 then piperead_done pi (if i = 0 then -1 else i) s
          else piperead_loop pi pr addr (i + 1) n (upd_pipe pi (\<lambda>p. p\<lparr>pi_nread := pi_nread p + 1\<rparr>) s))
      else piperead_done pi i s)"
  by pat_completeness auto
termination
  by (relation "measure (\<lambda>(_, _, _, i, n, _). nat (n - i))") auto

declare piperead_loop.simps [simp del]

definition piperead_wait ::
  "uint64 \<Rightarrow> nat \<Rightarrow> uint64 \<Rightarrow> int \<Rightarrow> 'a files_scheme \<Rightarrow> (int, 'a files_scheme) res" where
  "piperead_wait pi pr addr n s =
     (if pi_nread (pipes s pi) = pi_nwrite (pipes s pi) \<and> pi_writeopen (pipes s pi) then
        seq (killed pr s) (\<lambda>k s.
        if k then seq (release (LPipe pi) s) (\<lambda>_ s. Ok (-1) s)
        else sleep (ChPipeRead pi) (LPipe pi) s)
      else piperead_loop pi pr addr 0 n s)"

definition piperead :: "uint64 \<Rightarrow> uint64 \<Rightarrow> int \<Rightarrow> 'a files_scheme \<Rightarrow> (int, 'a files_scheme) res" where
  "piperead pi addr n s =
     (case myproc s of None \<Rightarrow> Undef
      | Some pr \<Rightarrow> seq (acquire (LPipe pi) s) (\<lambda>_ s. piperead_wait pi pr addr n s))"

section \<open>Operations on open files\<close>

definition fileclose :: "nat \<Rightarrow> 'a files_scheme \<Rightarrow> (unit, 'a files_scheme) res" where
  "fileclose f s =
     seq (acquire LFtable s) (\<lambda>_ s.
     if f_ref (fil f s) < 1 then Panic ''fileclose''
     else let s = upd_file f (\<lambda>x. x\<lparr>f_ref := f_ref x - 1\<rparr>) s in
       if 0 < f_ref (fil f s) then release LFtable s
       else let ff = fil f s;
                s = upd_file f (\<lambda>x. x\<lparr>f_ref := 0, f_type := FD_NONE\<rparr>) s
            in seq (release LFtable s) (\<lambda>_ s.
               if f_type ff = FD_PIPE then pipeclose (f_pipe ff) (f_writable ff) s
               else if f_type ff = FD_INODE \<or> f_type ff = FD_DEVICE then
                 seq (begin_op s) (\<lambda>_ s.
                 seq (case f_ip ff of None \<Rightarrow> Undef | Some ip \<Rightarrow> iput ip s) (\<lambda>_ s.
                 end_op s))
               else Ok () s))"

text \<open>The \<open>bad\<close> exit of \<open>pipealloc\<close>.\<close>

definition close_opt :: "nat option \<Rightarrow> 'a files_scheme \<Rightarrow> (unit, 'a files_scheme) res" where
  "close_opt f s = (case f of None \<Rightarrow> Ok () s | Some f \<Rightarrow> fileclose f s)"

definition pipealloc_bad ::
  "uint64 \<Rightarrow> nat option \<Rightarrow> nat option \<Rightarrow> 'a files_scheme \<Rightarrow> ((nat \<times> nat) option, 'a files_scheme) res" where
  "pipealloc_bad pi f0 f1 s =
     seq (if pi \<noteq> 0 then kfree pi s else Ok () s) (\<lambda>_ s.
     seq (close_opt f0 s) (\<lambda>_ s. seq (close_opt f1 s) (\<lambda>_ s. Ok None s)))"

definition pipealloc :: "'a files_scheme \<Rightarrow> ((nat \<times> nat) option, 'a files_scheme) res" where
  "pipealloc s =
     seq (filealloc s) (\<lambda>f0 s.
     case f0 of None \<Rightarrow> pipealloc_bad 0 f0 None s
     | Some r \<Rightarrow>
         seq (filealloc s) (\<lambda>f1 s.
         case f1 of None \<Rightarrow> pipealloc_bad 0 f0 f1 s
         | Some w \<Rightarrow>
             seq (kalloc s) (\<lambda>pi s.
             if pi = 0 then pipealloc_bad pi f0 f1 s
             else
               let s = upd_pipe pi (\<lambda>p. p\<lparr>pi_readopen := True, pi_writeopen := True, pi_nwrite := 0, pi_nread := 0\<rparr>) s;
                   s = initlock (LPipe pi) ''pipe'' s;
                   s = upd_file r (\<lambda>f. f\<lparr>f_type := FD_PIPE, f_readable := True, f_writable := False, f_pipe := pi\<rparr>) s;
                   s = upd_file w (\<lambda>f. f\<lparr>f_type := FD_PIPE, f_readable := False, f_writable := True, f_pipe := pi\<rparr>) s
               in Ok (Some (r, w)) s)))"

text \<open>
  \<open>struct stat\<close> in memory.  The compiler leaves four bytes between \<open>nlink\<close> and \<open>size\<close>; they are copied
  out with the rest and hold what the kernel stack held.
\<close>

definition stat_bytes :: "stat \<Rightarrow> byte list \<Rightarrow> byte list" where
  "stat_bytes st pad = le_bytes (of_nat (st_dev st) :: uint) @ le_bytes (of_nat (st_ino st) :: uint) @
     le_bytes (st_type st) @ le_bytes (st_nlink st) @ pad @ le_bytes (st_size st)"

definition filestat :: "nat \<Rightarrow> uint64 \<Rightarrow> 'a files_scheme \<Rightarrow> (int, 'a files_scheme) res" where
  "filestat f addr s =
     (case myproc s of None \<Rightarrow> Undef
      | Some p \<Rightarrow>
          if f_type (fil f s) = FD_INODE \<or> f_type (fil f s) = FD_DEVICE then
            seq (ilock (f_ip (fil f s)) s) (\<lambda>_ s.
            let st = stati (the (f_ip (fil f s))) s in
            seq (iunlock (f_ip (fil f s)) s) (\<lambda>_ s.
            seq (copyout (p_pagetable (procs s ! p)) addr
                   (stat_bytes st (rd (ram s) (p_kstack (procs s ! p)) 4)) s) (\<lambda>r s.
            if r < 0 then Ok (-1) s else Ok 0 s)))
          else Ok (-1) s)"

definition fileread :: "nat \<Rightarrow> uint64 \<Rightarrow> int \<Rightarrow> 'a files_scheme \<Rightarrow> (int, 'a files_scheme) res" where
  "fileread f addr n s =
     (if \<not> f_readable (fil f s) then Ok (-1) s
      else case f_type (fil f s) of
        FD_PIPE \<Rightarrow> piperead (f_pipe (fil f s)) addr n s
      | FD_DEVICE \<Rightarrow>
          let major = sint (f_major (fil f s)) in
          if major < 0 \<or> int NDEV \<le> major then Ok (-1) s
          else (case d_read (devsw s ! nat major) of None \<Rightarrow> Ok (-1) s
                | Some ConsoleDriver \<Rightarrow> consoleread True addr n s)
      | FD_INODE \<Rightarrow>
          seq (ilock (f_ip (fil f s)) s) (\<lambda>_ s.
          seq (readi (the (f_ip (fil f s))) True addr (f_off (fil f s)) (of_int n) s) (\<lambda>r s.
          let s = (if 0 < r then upd_file f (\<lambda>x. x\<lparr>f_off := f_off x + of_int r\<rparr>) s else s) in
          seq (iunlock (f_ip (fil f s)) s) (\<lambda>_ s. Ok r s)))
      | FD_NONE \<Rightarrow> Panic ''fileread'')"

definition max_write :: int where
  "max_write = int ((MAXOPBLOCKS - 1 - 1 - 2) div 2 * BSIZE)"

function filewrite_loop :: "nat \<Rightarrow> uint64 \<Rightarrow> int \<Rightarrow> int \<Rightarrow> 'a files_scheme \<Rightarrow> (int, 'a files_scheme) res" where
  "filewrite_loop f addr i n s =
     (if i < n then
        let n1 = min (n - i) max_write in
        seq (begin_op s) (\<lambda>_ s.
        seq (ilock (f_ip (fil f s)) s) (\<lambda>_ s.
        seq (writei (the (f_ip (fil f s))) True (addr + of_int i) (f_off (fil f s)) (of_int n1) s) (\<lambda>r s.
        let s = (if 0 < r then upd_file f (\<lambda>x. x\<lparr>f_off := f_off x + of_int r\<rparr>) s else s) in
        seq (iunlock (f_ip (fil f s)) s) (\<lambda>_ s.
        seq (end_op s) (\<lambda>_ s.
        if r \<noteq> n1 then Ok i s
        else filewrite_loop f addr (i + r) n s)))))
      else Ok i s)"
  by pat_completeness auto
termination
  by (relation "measure (\<lambda>(_, _, i, n, _). nat (n - i))") (auto simp: max_write_def params)

declare filewrite_loop.simps [simp del]

definition filewrite :: "nat \<Rightarrow> uint64 \<Rightarrow> int \<Rightarrow> 'a files_scheme \<Rightarrow> (int, 'a files_scheme) res" where
  "filewrite f addr n s =
     (if \<not> f_writable (fil f s) then Ok (-1) s
      else case f_type (fil f s) of
        FD_PIPE \<Rightarrow> pipewrite (f_pipe (fil f s)) addr n s
      | FD_DEVICE \<Rightarrow>
          let major = sint (f_major (fil f s)) in
          if major < 0 \<or> int NDEV \<le> major then Ok (-1) s
          else (case d_write (devsw s ! nat major) of None \<Rightarrow> Ok (-1) s
                | Some ConsoleDriver \<Rightarrow> consolewrite True addr n s)
      | FD_INODE \<Rightarrow>
          seq (filewrite_loop f addr 0 n s) (\<lambda>i s. Ok (if i = n then n else -1) s)
      | FD_NONE \<Rightarrow> Panic ''filewrite'')"

section \<open>A pipe is a queue\<close>

interpretation pr: ring_buffer PIPESIZE
  by unfold_locales (simp_all add: params)

definition pipe_queue :: "pipe \<Rightarrow> byte list" where
  "pipe_queue p = ring_items PIPESIZE (pi_data p) (pi_nread p) (pi_nwrite p)"

definition pipe_ok :: "pipe \<Rightarrow> bool" where
  "pipe_ok p \<longleftrightarrow> length (pi_data p) = PIPESIZE \<and> length (pipe_queue p) \<le> PIPESIZE"

definition ubytes :: "mem \<Rightarrow> uint64 \<Rightarrow> uint64 \<Rightarrow> nat \<Rightarrow> byte list" where
  "ubytes m pt va n = map (\<lambda>i. m (uaddr m pt (va + of_nat i))) [0..<n]"

lemma pipe_full: "pi_nwrite p = pi_nread p + of_nat PIPESIZE \<longleftrightarrow> length (pipe_queue p) = PIPESIZE"
  using pr.ring_full[of "pi_nwrite p" "pi_nread p"] by (simp add: pipe_queue_def)

lemma pipe_push:
  fixes c :: byte
  assumes "pipe_ok p" "length (pipe_queue p) < PIPESIZE"
  defines "p' \<equiv> p\<lparr>pi_data := (pi_data p)[unat (pi_nwrite p) mod PIPESIZE := c], pi_nwrite := pi_nwrite p + 1\<rparr>"
  shows "pipe_queue p' = pipe_queue p @ [c]" "pipe_ok p'"
proof -
  show q: "pipe_queue p' = pipe_queue p @ [c]"
    using pr.ring_push[of "pi_data p" "pi_nwrite p" "pi_nread p" c] assms(1,2)
    by (simp add: pipe_queue_def p'_def pipe_ok_def)
  show "pipe_ok p'" using q assms(1,2) by (simp add: pipe_ok_def p'_def)
qed

lemma pipe_pop:
  assumes "pipe_ok p" "pi_nread p \<noteq> pi_nwrite p"
  defines "p' \<equiv> p\<lparr>pi_nread := pi_nread p + 1\<rparr>"
  shows "pipe_queue p = pi_data p ! (unat (pi_nread p) mod PIPESIZE) # pipe_queue p'" "pipe_ok p'"
proof -
  show q: "pipe_queue p = pi_data p ! (unat (pi_nread p) mod PIPESIZE) # pipe_queue p'"
    using pr.ring_pop[OF assms(2), of "pi_data p"] by (simp add: pipe_queue_def p'_def)
  have "length (pipe_queue p') \<le> PIPESIZE" using assms(1) arg_cong[OF q, of length] by (simp add: pipe_ok_def)
  then show "pipe_ok p'" using assms(1) by (simp add: pipe_ok_def p'_def)
qed

lemma pipe_empty: "pi_nread p = pi_nwrite p \<longleftrightarrow> pipe_queue p = []"
  by (simp add: pipe_queue_def)

lemma upd_pipe_simps [simp]:
  "mach (upd_pipe pi g s) = mach s" "ram (upd_pipe pi g s) = ram s" "procs (upd_pipe pi g s) = procs s"
  "myproc (upd_pipe pi g s) = myproc s"
  "pipes (upd_pipe pi g s) = (pipes s)(pi := g (pipes s pi))"
  "upd_pipe pi g (upd_pipe pi h s) = upd_pipe pi (\<lambda>p. g (h p)) s"
  by (simp_all add: upd_pipe_def myproc_def)

lemma urange_at:
  assumes "urange va n A" "i + k \<le> n"
  shows "urange (va + of_nat i) k A"
proof -
  have "unat (va + of_nat i) = unat va + i" using urange_unat[OF assms(1)] assms(2) by simp
  then show ?thesis using assms by (auto simp: urange_def add.assoc simp flip: of_nat_add)
qed

text \<open>The caller's view of its own memory while it holds the pipe's lock.\<close>

definition pipe_user :: "nat \<Rightarrow> uint64 set \<Rightarrow> 'a files_scheme \<Rightarrow> bool" where
  "pipe_user pr A s \<longleftrightarrow> mach_ok (mach s) \<and> norm (mach s) = mach s \<and> lock_free (LProc pr) (mach s) \<and>
     \<not> p_killed (procs s ! pr) \<and> user_ok (ram s) (p_pagetable (procs s ! pr)) A"

lemma pipewrite_loop_law:
  assumes "pipe_user pr A s" "urange addr n A" "i \<le> n" "pipe_ok (pipes s pi)" "pi_readopen (pipes s pi)"
    "length (pipe_queue (pipes s pi)) + (n - i) \<le> PIPESIZE"
  shows "\<exists>p. pipewrite_loop pi pr addr (int i) (int n) s = pipewrite_loop pi pr addr (int n) (int n) (upd_pipe pi (\<lambda>_. p) s) \<and>
    pipe_ok p \<and> pi_readopen p \<and> pi_writeopen p = pi_writeopen (pipes s pi) \<and>
    pipe_queue p = pipe_queue (pipes s pi) @ drop i (ubytes (ram s) (p_pagetable (procs s ! pr)) addr n)"
  using assms
proof (induction "n - i" arbitrary: i s)
  case 0
  have "upd_pipe pi (\<lambda>_. pipes s pi) s = s" by (simp add: upd_pipe_def)
  then show ?case using 0 by (intro exI[of _ "pipes s pi"]) (simp add: ubytes_def)
next
  case (Suc k)
  let ?pt = "p_pagetable (procs s ! pr)" and ?p = "pipes s pi"
  let ?c = "ram s (uaddr (ram s) ?pt (addr + of_nat i))"
  let ?g = "\<lambda>p. p\<lparr>pi_data := (pi_data p)[unat (pi_nwrite p) mod PIPESIZE := ?c], pi_nwrite := pi_nwrite p + 1\<rparr>"
  let ?t = "upd_pipe pi ?g s"
  have i: "i < n" using Suc.hyps(2) by simp
  have us: "mach_ok (mach s)" "norm (mach s) = mach s" "lock_free (LProc pr) (mach s)" "\<not> p_killed (procs s ! pr)"
    "user_ok (ram s) ?pt A" using Suc.prems(1) by (auto simp: pipe_user_def)
  have "s\<lparr>mach := mach s\<rparr> = s" by simp
  then have k: "killed pr s = Ok False s" using killed_eq[OF us(1,3)] us(2,4) by simp
  have lt: "length (pipe_queue ?p) < PIPESIZE" using Suc.prems(6) i by simp
  have ci: "copyin ?pt (addr + of_nat i) 1 s = Ok (0, [?c]) s"
    using copyin_law[OF us(5) urange_at[OF Suc.prems(2), of i 1]] i by simp
  have step: "pipewrite_loop pi pr addr (int i) (int n) s = pipewrite_loop pi pr addr (int (Suc i)) (int n) ?t"
    using i k ci lt Suc.prems(5) pipe_full[of ?p]
    by (subst pipewrite_loop.simps) (simp add: add.commute)
  note push = pipe_push[OF Suc.prems(4) lt, of ?c]
  have "pipe_user pr A ?t" using Suc.prems(1) by (simp add: pipe_user_def)
  moreover have "pipes ?t pi = ?g ?p" "k = n - Suc i" using Suc.hyps(2) by simp_all
  moreover have "length (pipe_queue (?g ?p)) + (n - Suc i) \<le> PIPESIZE" using push(1) Suc.prems(6) i by simp
  ultimately obtain p where p: "pipewrite_loop pi pr addr (int (Suc i)) (int n) ?t = pipewrite_loop pi pr addr (int n) (int n) (upd_pipe pi (\<lambda>_. p) ?t)"
    "pipe_ok p" "pi_readopen p" "pi_writeopen p = pi_writeopen (?g ?p)"
    "pipe_queue p = pipe_queue (?g ?p) @ drop (Suc i) (ubytes (ram s) ?pt addr n)"
    using Suc.hyps(1)[of "Suc i" ?t] Suc.prems(2,5) push(2) i by auto
  have "drop i (ubytes (ram s) ?pt addr n) = ?c # drop (Suc i) (ubytes (ram s) ?pt addr n)"
    using i by (subst Cons_nth_drop_Suc[symmetric]) (simp_all add: ubytes_def)
  then show ?case using p step push(1) by (intro exI[of _ p]) simp
qed

lemma uaddr_range_inj:
  assumes "user_ok m pt A" "urange va n A" "i < n" "j < n" "i \<noteq> j"
  shows "uaddr m pt (va + of_nat i) \<noteq> uaddr m pt (va + of_nat j)"
proof
  assume eq: "uaddr m pt (va + of_nat i) = uaddr m pt (va + of_nat j)"
  have a: "PGROUNDDOWN (va + of_nat i) \<in> A" "PGROUNDDOWN (va + of_nat j) \<in> A"
    using assms(2-4) unfolding urange_def by blast+
  have "unat (va + of_nat i) = unat (va + of_nat j)" using uaddr_inj[OF assms(1) a eq] by (rule arg_cong)
  then show False using urange_unat[OF assms(2), of i] urange_unat[OF assms(2), of j] assms(3-5) by simp
qed

lemma piperead_loop_law:
  assumes "pipe_user pr A s" "urange addr n A" "i \<le> n" "pipe_ok (pipes s pi)"
  defines "pt \<equiv> p_pagetable (procs s ! pr)" and "k \<equiv> min (n - i) (length (pipe_queue (pipes s pi)))"
  shows "\<exists>m p. piperead_loop pi pr addr (int i) (int n) s = piperead_done pi (int (i + k)) (upd_pipe pi (\<lambda>_. p) (s\<lparr>ram := m\<rparr>)) \<and>
    pipe_ok p \<and> pipe_queue p = drop k (pipe_queue (pipes s pi)) \<and> pi_readopen p = pi_readopen (pipes s pi) \<and>
    pi_writeopen p = pi_writeopen (pipes s pi) \<and> user_ok m pt A \<and> (\<forall>v\<in>A. upage m pt v = upage (ram s) pt v) \<and>
    (\<forall>j<k. m (uaddr (ram s) pt (addr + of_nat (i + j))) = pipe_queue (pipes s pi) ! j) \<and>
    (\<forall>a. (\<forall>j<k. a \<noteq> uaddr (ram s) pt (addr + of_nat (i + j))) \<longrightarrow> m a = ram s a)"
  using assms(1-4) unfolding pt_def k_def
proof (induction "n - i" arbitrary: i s)
  case 0
  have "upd_pipe pi (\<lambda>_. pipes s pi) (s\<lparr>ram := ram s\<rparr>) = s" by (simp add: upd_pipe_def)
  moreover have "piperead_loop pi pr addr (int n) (int n) s = piperead_done pi (int n) s"
    by (simp add: piperead_loop.simps)
  moreover have "i = n" using 0 by simp
  ultimately show ?case using 0 by (intro exI[of _ "ram s"] exI[of _ "pipes s pi"]) (simp add: pipe_user_def)
next
  case (Suc d)
  let ?pt = "p_pagetable (procs s ! pr)" and ?p = "pipes s pi"
  have i: "i < n" and d: "d = n - Suc i" using Suc.hyps(2) by simp_all
  have us: "user_ok (ram s) ?pt A" using Suc.prems(1) by (simp add: pipe_user_def)
  show ?case
  proof (cases "pipe_queue ?p = []")
    case True
    have "upd_pipe pi (\<lambda>_. pipes s pi) (s\<lparr>ram := ram s\<rparr>) = s" by (simp add: upd_pipe_def)
    then show ?thesis using True i Suc.prems(4) us pipe_empty[of ?p]
      by (intro exI[of _ "ram s"] exI[of _ ?p]) (simp add: piperead_loop.simps[of _ _ _ "int i"])
  next
    case False
    let ?c = "pi_data ?p ! (unat (pi_nread ?p) mod PIPESIZE)"
    let ?g = "\<lambda>p. p\<lparr>pi_nread := pi_nread p + 1\<rparr>"
    let ?a = "\<lambda>j. uaddr (ram s) ?pt (addr + of_nat j)"
    have ne: "pi_nread ?p \<noteq> pi_nwrite ?p" using False pipe_empty by simp
    note pop = pipe_pop[OF Suc.prems(4) ne]
    obtain m where m: "copyout ?pt (addr + of_nat i) [?c] s = Ok 0 (s\<lparr>ram := m\<rparr>)" "user_ok m ?pt A"
      "\<forall>v\<in>A. upage m ?pt v = upage (ram s) ?pt v" "m (?a i) = ?c" "\<forall>a. a \<noteq> ?a i \<longrightarrow> m a = ram s a"
      using copyout_law[OF us, of "addr + of_nat i" "[?c]"] urange_at[OF Suc.prems(2), of i 1] i by auto
    let ?t = "upd_pipe pi ?g (s\<lparr>ram := m\<rparr>)"
    have step: "piperead_loop pi pr addr (int i) (int n) s = piperead_loop pi pr addr (int (Suc i)) (int n) ?t"
      using i m(1) ne by (subst piperead_loop.simps) (simp add: add.commute)
    have ua: "uaddr m ?pt (addr + of_nat j) = ?a j" if "j < n" for j
      using that Suc.prems(2) m(3) by (simp add: uaddr_def urange_def)
    have "pipe_user pr A ?t" using Suc.prems(1) m(2) by (simp add: pipe_user_def)
    moreover have "pipe_ok (pipes ?t pi)" "Suc i \<le> n" using pop(2) i by simp_all
    ultimately obtain m' p where IH: "piperead_loop pi pr addr (int (Suc i)) (int n) ?t =
        piperead_done pi (int (Suc i + min (n - Suc i) (length (pipe_queue (?g ?p))))) (upd_pipe pi (\<lambda>_. p) (?t\<lparr>ram := m'\<rparr>))"
      "pipe_ok p" "pipe_queue p = drop (min (n - Suc i) (length (pipe_queue (?g ?p)))) (pipe_queue (?g ?p))"
      "pi_readopen p = pi_readopen ?p" "pi_writeopen p = pi_writeopen ?p" "user_ok m' ?pt A" "\<forall>v\<in>A. upage m' ?pt v = upage m ?pt v"
      "\<forall>j<min (n - Suc i) (length (pipe_queue (?g ?p))). m' (uaddr m ?pt (addr + of_nat (Suc i + j))) = pipe_queue (?g ?p) ! j"
      "\<forall>a. (\<forall>j<min (n - Suc i) (length (pipe_queue (?g ?p))). a \<noteq> uaddr m ?pt (addr + of_nat (Suc i + j))) \<longrightarrow> m' a = m a"
      using Suc.hyps(1)[OF d, of ?t] Suc.prems(2) by auto
    let ?K = "min (n - Suc i) (length (pipe_queue (?g ?p)))"
    have K: "min (n - i) (length (pipe_queue ?p)) = Suc ?K" using i pop(1) by simp
    have ua': "uaddr m ?pt (addr + of_nat (Suc i + j)) = ?a (Suc i + j)" if "j < ?K" for j
      using that by (intro ua) auto
    have late: "m' (?a (Suc i + j)) = pipe_queue ?p ! Suc j" if "j < ?K" for j
      using IH(8)[rule_format, OF that] ua'[OF that] pop(1) by (simp del: of_nat_add of_nat_Suc)
    have "?a i \<noteq> uaddr m ?pt (addr + of_nat (Suc i + j))" if "j < ?K" for j
      unfolding ua'[OF that] using that by (intro uaddr_range_inj[OF us Suc.prems(2) i]) auto
    then have "m' (?a i) = m (?a i)" using IH(9) by blast
    then have "m' (?a (i + j)) = pipe_queue ?p ! j" if "j < Suc ?K" for j
      using that late m(4) pop(1) by (cases j) (simp_all del: of_nat_add of_nat_Suc)
    moreover have "m' a = ram s a" if o: "\<forall>j<Suc ?K. a \<noteq> ?a (i + j)" for a
    proof -
      have "a \<noteq> uaddr m ?pt (addr + of_nat (Suc i + j))" if "j < ?K" for j
        unfolding ua'[OF that] using o[rule_format, of "Suc j"] that by (simp del: of_nat_add of_nat_Suc)
      then have "m' a = m a" using IH(9) by blast
      then show ?thesis using m(5) o[rule_format, of 0] by simp
    qed
    moreover have "upd_pipe pi (\<lambda>_. p) (?t\<lparr>ram := m'\<rparr>) = upd_pipe pi (\<lambda>_. p) (s\<lparr>ram := m'\<rparr>)"
      by (intro files.equality) (simp_all add: upd_pipe_def)
    ultimately show ?thesis unfolding K using step IH(1-7) m(3) pop(1)
      by (intro exI[of _ m'] exI[of _ p]) (simp del: of_nat_add)
  qed
qed

text \<open>A running process that can be the caller: no lock is held, and its pages \<open>A\<close> are writable.\<close>

definition pipe_caller :: "nat \<Rightarrow> uint64 \<Rightarrow> uint64 set \<Rightarrow> 'a files_scheme \<Rightarrow> bool" where
  "pipe_caller pr pt A s \<longleftrightarrow> quiet (mach s) \<and> length (procs s) = NPROC \<and> myproc s = Some pr \<and> pr < NPROC \<and>
     p_pagetable (procs s ! pr) = pt \<and> \<not> p_killed (procs s ! pr) \<and> user_ok (ram s) pt A"

lemma pipe_caller_enter:
  assumes "pipe_caller pr pt A s"
  shows "pipe_user pr A (s\<lparr>mach := entered (LPipe pi) (mach s)\<rparr>)" "lock_free (LPipe pi) (mach s)"
  using assms by (simp_all add: pipe_caller_def pipe_user_def quiet_def)

lemma pipe_finish:
  assumes "pipe_caller pr pt A s" "mach t = entered (LPipe pi) (mach s)" "procs t = procs s"
  shows "seq (wakeup c t) (\<lambda>_ s. seq (release (LPipe pi) s) (\<lambda>_ s. Ok r s)) =
    Ok r (t\<lparr>mach := norm (mach s), procs := woken c (Some pr) (procs s)\<rparr>)"
proof -
  have m: "mach_ok (mach s)" "lock_free (LPipe pi) (mach s)" "proclocks_free (mach s)" "length (procs s) = NPROC"
    "c_proc (mycpu (mach s)) = Some pr"
    using assms(1) quiet_proclocks by (auto simp: pipe_caller_def quiet_def myproc_def)
  let ?u = "t\<lparr>mach := mach t, procs := woken c (Some pr) (procs s)\<rparr>"
  have "wakeup c t = Ok () ?u"
    using wakeup_eq[of t c] assms(2,3) m by (simp add: myproc_def)
  moreover have "release (LPipe pi) ?u = Ok () (?u\<lparr>mach := norm (mach s)\<rparr>)"
    using release_entered[of ?u "LPipe pi" "mach s"] assms(2) m by simp
  ultimately show ?thesis by simp
qed

lemma pipewrite_law:
  assumes "pipe_caller pr pt A s" "urange addr n A" "pipe_ok (pipes s pi)" "pi_readopen (pipes s pi)"
    "length (pipe_queue (pipes s pi)) + n \<le> PIPESIZE"
  shows "\<exists>s'. pipewrite pi addr (int n) s = Ok (int n) s' \<and> pipe_caller pr pt A s' \<and> ram s' = ram s \<and>
    pipe_ok (pipes s' pi) \<and> pi_readopen (pipes s' pi) \<and> pi_writeopen (pipes s' pi) = pi_writeopen (pipes s pi) \<and>
    pipe_queue (pipes s' pi) = pipe_queue (pipes s pi) @ ubytes (ram s) pt addr n"
proof -
  let ?t = "s\<lparr>mach := entered (LPipe pi) (mach s)\<rparr>"
  note en = pipe_caller_enter[OF assms(1), of pi]
  have pt: "p_pagetable (procs s ! pr) = pt" "myproc s = Some pr" "user_ok (ram s) pt A" using assms(1) by (auto simp: pipe_caller_def)
  obtain p where p: "pipewrite_loop pi pr addr 0 (int n) ?t = pipewrite_loop pi pr addr (int n) (int n) (upd_pipe pi (\<lambda>_. p) ?t)"
    "pipe_ok p" "pi_readopen p" "pi_writeopen p = pi_writeopen (pipes s pi)"
    "pipe_queue p = pipe_queue (pipes s pi) @ ubytes (ram s) pt addr n"
    using pipewrite_loop_law[OF en(1) assms(2), of 0 pi] assms(3-5) pt by auto
  let ?u = "upd_pipe pi (\<lambda>_. p) ?t"
  let ?s' = "?u\<lparr>mach := norm (mach s), procs := woken (ChPipeRead pi) (Some pr) (procs s)\<rparr>"
  have "pipewrite_loop pi pr addr (int n) (int n) ?u = Ok (int n) ?s'"
    using pipe_finish[OF assms(1), of ?u pi "ChPipeRead pi" "int n"] by (subst pipewrite_loop.simps) simp
  then have "pipewrite pi addr (int n) s = Ok (int n) ?s'" using p(1) pt en(2) by (simp add: pipewrite_def acquire_free)
  moreover have "pipe_caller pr pt A ?s'" using assms(1) by (simp add: pipe_caller_def myproc_def wake1_def)
  ultimately show ?thesis using p by (intro exI[of _ ?s']) simp
qed

lemma piperead_law:
  assumes "pipe_caller pr pt A s" "urange addr n A" "pipe_ok (pipes s pi)" "pipe_queue (pipes s pi) \<noteq> [] \<or> \<not> pi_writeopen (pipes s pi)"
  defines "k \<equiv> min n (length (pipe_queue (pipes s pi)))"
  shows "\<exists>s'. piperead pi addr (int n) s = Ok (int k) s' \<and> pipe_caller pr pt A s' \<and>
    ubytes (ram s') pt addr k = take k (pipe_queue (pipes s pi)) \<and>
    pipe_ok (pipes s' pi) \<and> pipe_queue (pipes s' pi) = drop k (pipe_queue (pipes s pi)) \<and>
    (\<forall>x. PGROUNDDOWN x \<in> A \<longrightarrow> (\<forall>i<k. x \<noteq> addr + of_nat i) \<longrightarrow> ram s' (uaddr (ram s') pt x) = ram s (uaddr (ram s) pt x))"
proof -
  let ?t = "s\<lparr>mach := entered (LPipe pi) (mach s)\<rparr>"
  note en = pipe_caller_enter[OF assms(1), of pi]
  have pt: "p_pagetable (procs s ! pr) = pt" "myproc s = Some pr" "user_ok (ram s) pt A" using assms(1) by (auto simp: pipe_caller_def)
  obtain m p where p: "piperead_loop pi pr addr 0 (int n) ?t = piperead_done pi (int k) (upd_pipe pi (\<lambda>_. p) (?t\<lparr>ram := m\<rparr>))"
    "pipe_ok p" "pipe_queue p = drop k (pipe_queue (pipes s pi))" "user_ok m pt A" "\<forall>v\<in>A. upage m pt v = upage (ram s) pt v"
    "\<forall>j<k. m (uaddr (ram s) pt (addr + of_nat j)) = pipe_queue (pipes s pi) ! j"
    "\<forall>a. (\<forall>j<k. a \<noteq> uaddr (ram s) pt (addr + of_nat j)) \<longrightarrow> m a = ram s a"
    using piperead_loop_law[OF en(1) assms(2), of 0 pi] assms(3) pt unfolding k_def by auto
  let ?u = "upd_pipe pi (\<lambda>_. p) (?t\<lparr>ram := m\<rparr>)"
  let ?s' = "?u\<lparr>mach := norm (mach s), procs := woken (ChPipeWrite pi) (Some pr) (procs s)\<rparr>"
  have "piperead_wait pi pr addr (int n) ?t = Ok (int k) ?s'"
    using pipe_finish[OF assms(1), of ?u pi "ChPipeWrite pi" "int k"] p(1) assms(4) pipe_empty[of "pipes s pi"]
    by (auto simp: piperead_wait_def piperead_done_def)
  then have r: "piperead pi addr (int n) s = Ok (int k) ?s'" using pt en(2) by (simp add: piperead_def acquire_free)
  have c: "pipe_caller pr pt A ?s'" using assms(1) p(4) by (simp add: pipe_caller_def myproc_def wake1_def)
  have ua: "uaddr m pt x = uaddr (ram s) pt x" if "PGROUNDDOWN x \<in> A" for x using p(5) that by (simp add: uaddr_def)
  have rng: "PGROUNDDOWN (addr + of_nat j) \<in> A" if "j < k" for j using assms(2) that by (simp add: urange_def k_def)
  have "ubytes m pt addr k = take k (pipe_queue (pipes s pi))"
    by (rule nth_equalityI) (use p(6) ua[OF rng] in \<open>auto simp: ubytes_def k_def\<close>)
  moreover have "m (uaddr m pt x) = ram s (uaddr (ram s) pt x)"
    if x: "PGROUNDDOWN x \<in> A" "\<forall>i<k. x \<noteq> addr + of_nat i" for x
    unfolding ua[OF x(1)] using p(7) uaddr_inj[OF pt(3) x(1) rng] x(2) by blast
  ultimately show ?thesis using r c p(2,3) by (intro exI[of _ ?s']) simp
qed

definition empty_file :: ofile where
  "empty_file = \<lparr>f_type = FD_NONE, f_ref = 0, f_readable = False, f_writable = False, f_pipe = 0, f_ip = None,
     f_off = 0, f_major = 0\<rparr>"

definition example_files :: files where
  "example_files = (console.extend example_console (files.fields (replicate NFILE empty_file)
     (\<lambda>_. \<lparr>pi_data = replicate 512 0, pi_nread = -2, pi_nwrite = -2, pi_readopen = True, pi_writeopen = True\<rparr>)))
     \<lparr>ram := ram example_user, procs := (procs example_base)[0 := example_proc\<lparr>p_pagetable := 0x80022000\<rparr>]\<rparr>"

lemma example_files_caller: "pipe_caller 0 0x80022000 {0, 0x1000} example_files"
  using example_user_pages(3)
  by (simp add: pipe_caller_def example_files_def console.defs files.defs example_console_def fs.defs logging.defs
      example_log_def base.defs memory.defs bio.defs example_base_def example_proc_def myproc_def params)

lemma example_files_pipe:
  "pipe_ok (pipes example_files pi)" "pipe_queue (pipes example_files pi) = []" "pi_readopen (pipes example_files pi)"
  by (simp_all add: example_files_def console.defs files.defs pipe_ok_def pipe_queue_def params)

text \<open>
  C8: a pipe delivers the bytes written to it, in order, each once.  A process that writes \<open>n\<close> bytes of
  its memory to a pipe with room for them gets \<open>n\<close>, and the pipe's queue, read through indices that may
  wrap at \<open>2 ^ 32\<close>, has grown by exactly these bytes; reading up to \<open>k\<close> bytes afterwards returns
  \<open>min k\<close> of what is there, stores the first bytes of the queue at the given address, leaves
  the rest in the pipe, and changes no other byte of the process.
\<close>

theorem pipe_delivers_in_order:
  assumes "pipe_caller pr pt A s" "urange src n A" "urange dst k A" "pipe_ok (pipes s pi)" "pi_readopen (pipes s pi)"
    "length (pipe_queue (pipes s pi)) + n \<le> PIPESIZE" "0 < n"
  defines "q \<equiv> pipe_queue (pipes s pi) @ ubytes (ram s) pt src n"
  shows "\<exists>s1 s2. pipewrite pi src (int n) s = Ok (int n) s1 \<and> pipe_queue (pipes s1 pi) = q \<and>
    piperead pi dst (int k) s1 = Ok (int (min k (length q))) s2 \<and>
    ubytes (ram s2) pt dst (min k (length q)) = take k q \<and> pipe_queue (pipes s2 pi) = drop k q \<and>
    (\<forall>x. PGROUNDDOWN x \<in> A \<longrightarrow> (\<forall>i<min k (length q). x \<noteq> dst + of_nat i) \<longrightarrow>
       ram s2 (uaddr (ram s2) pt x) = ram s (uaddr (ram s) pt x))"
proof -
  obtain s1 where s1: "pipewrite pi src (int n) s = Ok (int n) s1" "pipe_caller pr pt A s1" "ram s1 = ram s"
    "pipe_ok (pipes s1 pi)" "pipe_queue (pipes s1 pi) = q"
    using pipewrite_law[OF assms(1,2,4,5,6)] unfolding q_def by blast
  have "q \<noteq> []" using assms(7) by (simp add: q_def ubytes_def)
  then have ne: "pipe_queue (pipes s1 pi) \<noteq> [] \<or> \<not> pi_writeopen (pipes s1 pi)" using s1(5) by simp
  show ?thesis using piperead_law[OF s1(2) assms(3) s1(4) ne] s1 by (auto simp: min_def split: if_splits)
qed

theorem pipe_delivers_in_order_witness:
  "\<exists>s1 s2. pipewrite 0x80030000 0 4 example_files = Ok 4 s1 \<and> piperead 0x80030000 0x1000 3 s1 = Ok 3 s2 \<and>
    length (pipe_queue (pipes s2 0x80030000)) = 1"
proof -
  have e: "{i. i < 4} = {0, 1, 2, 3 :: nat}" "{i. i < 3} = {0, 1, 2 :: nat}" by auto
  have "PGROUNDDOWN 0 = 0" "PGROUNDDOWN 1 = 0" "PGROUNDDOWN 2 = 0" "PGROUNDDOWN 3 = 0"
    "PGROUNDDOWN 0x1000 = 0x1000" "PGROUNDDOWN 0x1001 = 0x1000" "PGROUNDDOWN 0x1002 = 0x1000"
    by (simp_all add: PGROUNDDOWN_def params)
  then have "\<forall>i \<in> {i. i < 4}. PGROUNDDOWN (0 + of_nat i) \<in> {0, 0x1000}"
    "\<forall>i \<in> {i. i < 3}. PGROUNDDOWN (0x1000 + of_nat i) \<in> {0, 0x1000}" unfolding e by simp_all
  then have r1: "urange 0 4 {0, 0x1000}" and r2: "urange 0x1000 3 {0, 0x1000}" by (simp_all add: urange_def params)
  let ?p = "pipes example_files 0x80030000"
  have "length (pipe_queue ?p) + 4 \<le> PIPESIZE" by (simp add: example_files_pipe params)
  from pipe_delivers_in_order[OF example_files_caller r1 r2 example_files_pipe(1,3) this]
  show ?thesis by (fastforce simp: example_files_pipe ubytes_def)
qed

end
