(* ===== verification/Proc.thy ===== *)
theory Proc
  imports File
begin

text \<open>
  Creation, exit and collection of processes: the part of \<open>kernel/proc.c\<close> that needs memory, the file
  system and open files (the scheduler, \<open>sleep\<close>, \<open>wakeup\<close> and \<open>kill\<close> are in \<open>Sched\<close>).  A trapframe lives
  in a page of \<open>kalloc\<close>; \<open>tframes\<close> maps the page's address to the structure.  A wait channel that is
  the address of a process is \<open>ChProc\<close> of its index, the null channel \<open>ChNone\<close>.
\<close>

definition upd_proc :: "nat \<Rightarrow> (proc \<Rightarrow> proc) \<Rightarrow> 'a base_scheme \<Rightarrow> 'a base_scheme" where
  "upd_proc p f s = set_proc p (f (procs s ! p)) s"

definition chan_of :: "nat option \<Rightarrow> chan" where
  "chan_of p = (case p of None \<Rightarrow> ChNone | Some i \<Rightarrow> ChProc i)"

text \<open>\<open>safestrcpy\<close> between the 16-byte \<open>name\<close> arrays of two processes.\<close>

definition copy_name :: "byte list \<Rightarrow> byte list \<Rightarrow> byte list" where
  "copy_name dst src = rd (safestrcpy 0 0x100 16 (wr (wr (\<lambda>_. 0) 0x100 src) 0 dst)) 0 16"

definition procinit :: "'a files_scheme \<Rightarrow> (unit, 'a files_scheme) res" where
  "procinit s =
     foreach [0..<NPROC] (\<lambda>p s.
       Ok () (upd_proc p (\<lambda>x. x\<lparr>p_state := UNUSED, p_kstack := KSTACK p\<rparr>) (initlock (LProc p) ''proc'' s)))
       (initlock LWait ''wait_lock'' (initlock LPid ''nextpid'' s))"

section \<open>Page tables of processes\<close>

definition proc_pagetable :: "nat \<Rightarrow> 'a files_scheme \<Rightarrow> (uint64, 'a files_scheme) res" where
  "proc_pagetable p s =
     seq (uvmcreate s) (\<lambda>pagetable s.
     if pagetable = 0 then Ok 0 s
     else seq (mappages pagetable TRAMPOLINE PGSIZE (trampoline s) (PTE_R OR PTE_X) s) (\<lambda>r s.
       if r < 0 then seq (uvmfree pagetable 0 s) (\<lambda>_ s. Ok 0 s)
       else seq (mappages pagetable TRAPFRAME PGSIZE (p_trapframe (procs s ! p)) (PTE_R OR PTE_W) s) (\<lambda>r s.
         if r < 0 then
           seq (uvmunmap pagetable TRAMPOLINE 1 False s) (\<lambda>_ s.
           seq (uvmfree pagetable 0 s) (\<lambda>_ s. Ok 0 s))
         else Ok pagetable s)))"

definition proc_freepagetable :: "uint64 \<Rightarrow> uint64 \<Rightarrow> 'a files_scheme \<Rightarrow> (unit, 'a files_scheme) res" where
  "proc_freepagetable pagetable sz s =
     seq (uvmunmap pagetable TRAMPOLINE 1 False s) (\<lambda>_ s.
     seq (uvmunmap pagetable TRAPFRAME 1 False s) (\<lambda>_ s.
     uvmfree pagetable sz s))"

section \<open>Allocating and freeing a process\<close>

definition freeproc :: "nat \<Rightarrow> 'a files_scheme \<Rightarrow> (unit, 'a files_scheme) res" where
  "freeproc p s =
     seq (if p_trapframe (procs s ! p) \<noteq> 0 then kfree (p_trapframe (procs s ! p)) s else Ok () s) (\<lambda>_ s.
     let s = upd_proc p (\<lambda>x. x\<lparr>p_trapframe := 0\<rparr>) s in
     seq (if p_pagetable (procs s ! p) \<noteq> 0
          then proc_freepagetable (p_pagetable (procs s ! p)) (p_sz (procs s ! p)) s else Ok () s) (\<lambda>_ s.
     Ok () (upd_proc p (\<lambda>x. x\<lparr>p_pagetable := 0, p_sz := 0, p_pid := 0, p_parent := None,
       p_name := (p_name x)[0 := 0], p_chan := ChNone, p_killed := False, p_xstate := 0, p_state := UNUSED\<rparr>) s)))"

text \<open>The search of \<open>allocproc\<close>: the first \<open>UNUSED\<close> process, whose lock is then held.\<close>

fun allocproc_find :: "nat list \<Rightarrow> 'a files_scheme \<Rightarrow> (nat option, 'a files_scheme) res" where
  "allocproc_find [] s = Ok None s"
| "allocproc_find (p # ps) s =
     seq (acquire (LProc p) s) (\<lambda>_ s.
     if p_state (procs s ! p) = UNUSED then Ok (Some p) s
     else seq (release (LProc p) s) (\<lambda>_ s. allocproc_find ps s))"

definition allocproc :: "'a files_scheme \<Rightarrow> (nat option, 'a files_scheme) res" where
  "allocproc s =
     seq (allocproc_find [0..<NPROC] s) (\<lambda>found s.
     case found of None \<Rightarrow> Ok None s
     | Some p \<Rightarrow>
         let fail = (\<lambda>s. seq (freeproc p s) (\<lambda>_ s. seq (release (LProc p) s) (\<lambda>_ s. Ok None s))) in
         seq (allocpid s) (\<lambda>pid s.
         let s = upd_proc p (\<lambda>x. x\<lparr>p_pid := pid, p_state := USED\<rparr>) s in
         seq (kalloc s) (\<lambda>tf s.
         let s = upd_proc p (\<lambda>x. x\<lparr>p_trapframe := tf\<rparr>) s in
         if tf = 0 then fail s
         else seq (proc_pagetable p s) (\<lambda>pt s.
           let s = upd_proc p (\<lambda>x. x\<lparr>p_pagetable := pt\<rparr>) s in
           if pt = 0 then fail s
           else
             let s = upd_proc p (\<lambda>x. x\<lparr>p_context :=
                   \<lparr>ctx_ra = forkret_addr s, ctx_sp = p_kstack x + PGSIZE, ctx_s = replicate 12 0\<rparr>\<rparr>) s
             in Ok (Some p) s))))"

definition userinit :: "'a files_scheme \<Rightarrow> (unit, 'a files_scheme) res" where
  "userinit s =
     seq (allocproc s) (\<lambda>found s.
     let s = s\<lparr>initproc := found\<rparr> in
     case found of None \<Rightarrow> Undef
     | Some p \<Rightarrow>
         seq (namei (str ''/'') s) (\<lambda>cwd s.
         release (LProc p) (upd_proc p (\<lambda>x. x\<lparr>p_cwd := cwd, p_state := RUNNABLE\<rparr>) s)))"

section \<open>sbrk, fork\<close>

definition growproc :: "int \<Rightarrow> 'a files_scheme \<Rightarrow> (int, 'a files_scheme) res" where
  "growproc n s =
     (case myproc s of None \<Rightarrow> Undef
      | Some p \<Rightarrow>
          let sz = p_sz (procs s ! p); pt = p_pagetable (procs s ! p) in
          if 0 < n then
            if TRAPFRAME < sz + of_int n then Ok (-1) s
            else seq (uvmalloc pt sz (sz + of_int n) PTE_W s) (\<lambda>sz s.
              if sz = 0 then Ok (-1) s else Ok 0 (upd_proc p (\<lambda>x. x\<lparr>p_sz := sz\<rparr>) s))
          else if n < 0 then
            seq (uvmdealloc pt sz (sz + of_int n) s) (\<lambda>sz s.
            Ok 0 (upd_proc p (\<lambda>x. x\<lparr>p_sz := sz\<rparr>) s))
          else Ok 0 (upd_proc p (\<lambda>x. x\<lparr>p_sz := sz\<rparr>) s))"

definition kfork_files :: "nat \<Rightarrow> nat \<Rightarrow> 'a files_scheme \<Rightarrow> (unit, 'a files_scheme) res" where
  "kfork_files p np s =
     foreach [0..<NOFILE] (\<lambda>i s.
       case p_ofile (procs s ! p) ! i of None \<Rightarrow> Ok () s
       | Some f \<Rightarrow> seq (filedup f s) (\<lambda>f s. Ok () (upd_proc np (\<lambda>x. x\<lparr>p_ofile := (p_ofile x)[i := Some f]\<rparr>) s))) s"

definition kfork :: "'a files_scheme \<Rightarrow> (int, 'a files_scheme) res" where
  "kfork s =
     (case myproc s of None \<Rightarrow> Undef
      | Some p \<Rightarrow>
          seq (allocproc s) (\<lambda>found s.
          case found of None \<Rightarrow> Ok (-1) s
          | Some np \<Rightarrow>
              seq (uvmcopy (p_pagetable (procs s ! p)) (p_pagetable (procs s ! np)) (p_sz (procs s ! p)) s) (\<lambda>r s.
              if r < 0 then
                seq (freeproc np s) (\<lambda>_ s. seq (release (LProc np) s) (\<lambda>_ s. Ok (-1) s))
              else
                let s = upd_proc np (\<lambda>x. x\<lparr>p_sz := p_sz (procs s ! p)\<rparr>) s;
                    ptf = p_trapframe (procs s ! p); ntf = p_trapframe (procs s ! np);
                    s = s\<lparr>tframes := (tframes s)(ntf := (tframes s ptf)\<lparr>a0 := 0\<rparr>)\<rparr>
                in
                seq (kfork_files p np s) (\<lambda>_ s.
                seq (case p_cwd (procs s ! p) of None \<Rightarrow> Undef | Some ip \<Rightarrow> idup ip s) (\<lambda>cwd s.
                let s = upd_proc np (\<lambda>x. x\<lparr>p_cwd := Some cwd, p_name := copy_name (p_name x) (p_name (procs s ! p))\<rparr>) s;
                    pid = p_pid (procs s ! np)
                in
                seq (release (LProc np) s) (\<lambda>_ s.
                seq (acquire LWait s) (\<lambda>_ s.
                seq (release LWait (upd_proc np (\<lambda>x. x\<lparr>p_parent := Some p\<rparr>) s)) (\<lambda>_ s.
                seq (acquire (LProc np) s) (\<lambda>_ s.
                seq (release (LProc np) (upd_proc np (\<lambda>x. x\<lparr>p_state := RUNNABLE\<rparr>) s)) (\<lambda>_ s.
                Ok pid s))))))))))"

section \<open>exit, wait\<close>

definition reparent :: "nat \<Rightarrow> 'a files_scheme \<Rightarrow> (unit, 'a files_scheme) res" where
  "reparent p s =
     foreach [0..<NPROC] (\<lambda>pp s.
       if p_parent (procs s ! pp) = Some p then
         wakeup (chan_of (initproc s)) (upd_proc pp (\<lambda>x. x\<lparr>p_parent := initproc s\<rparr>) s)
       else Ok () s) s"

definition close_all :: "nat \<Rightarrow> 'a files_scheme \<Rightarrow> (unit, 'a files_scheme) res" where
  "close_all p s =
     foreach [0..<NOFILE] (\<lambda>fd s.
       case p_ofile (procs s ! p) ! fd of None \<Rightarrow> Ok () s
       | Some f \<Rightarrow> seq (fileclose f s) (\<lambda>_ s. Ok () (upd_proc p (\<lambda>x. x\<lparr>p_ofile := (p_ofile x)[fd := None]\<rparr>) s))) s"

definition kexit :: "int \<Rightarrow> 'a files_scheme \<Rightarrow> (unit, 'a files_scheme) res" where
  "kexit status s =
     (case myproc s of None \<Rightarrow> Undef
      | Some p \<Rightarrow>
          if initproc s = Some p then Panic ''init exiting''
          else
            seq (close_all p s) (\<lambda>_ s.
            seq (begin_op s) (\<lambda>_ s.
            seq (case p_cwd (procs s ! p) of None \<Rightarrow> Undef | Some ip \<Rightarrow> iput ip s) (\<lambda>_ s.
            seq (end_op s) (\<lambda>_ s.
            let s = upd_proc p (\<lambda>x. x\<lparr>p_cwd := None\<rparr>) s in
            seq (acquire LWait s) (\<lambda>_ s.
            seq (reparent p s) (\<lambda>_ s.
            seq (wakeup (chan_of (p_parent (procs s ! p))) s) (\<lambda>_ s.
            seq (acquire (LProc p) s) (\<lambda>_ s.
            seq (release LWait (upd_proc p (\<lambda>x. x\<lparr>p_xstate := status, p_state := ZOMBIE\<rparr>) s)) (\<lambda>_ s.
            seq (sched s :: (unit, 'a files_scheme) res) (\<lambda>_ s. Panic ''zombie exit'')))))))))))"

fun kwait_from :: "nat \<Rightarrow> uint64 \<Rightarrow> nat list \<Rightarrow> bool \<Rightarrow> 'a files_scheme \<Rightarrow> (int, 'a files_scheme) res" where
  "kwait_from p addr [] havekids s =
     seq (if \<not> havekids then Ok True s else killed p s) (\<lambda>stop s.
     if stop then seq (release LWait s) (\<lambda>_ s. Ok (-1) s)
     else sleep (ChProc p) LWait s)"
| "kwait_from p addr (pp # pps) havekids s =
     (if p_parent (procs s ! pp) = Some p then
        seq (acquire (LProc pp) s) (\<lambda>_ s.
        if p_state (procs s ! pp) = ZOMBIE then
          let pid = p_pid (procs s ! pp) in
          seq (if addr \<noteq> 0 then copyout (p_pagetable (procs s ! p)) addr
                 (le_bytes (of_int (p_xstate (procs s ! pp)) :: uint)) s else Ok 0 s) (\<lambda>r s.
          if r < 0 then
            seq (release (LProc pp) s) (\<lambda>_ s. seq (release LWait s) (\<lambda>_ s. Ok (-1) s))
          else
            seq (freeproc pp s) (\<lambda>_ s.
            seq (release (LProc pp) s) (\<lambda>_ s.
            seq (release LWait s) (\<lambda>_ s. Ok pid s))))
        else seq (release (LProc pp) s) (\<lambda>_ s. kwait_from p addr pps True s))
      else kwait_from p addr pps havekids s)"

definition kwait :: "uint64 \<Rightarrow> 'a files_scheme \<Rightarrow> (int, 'a files_scheme) res" where
  "kwait addr s =
     (case myproc s of None \<Rightarrow> Undef
      | Some p \<Rightarrow> seq (acquire LWait s) (\<lambda>_ s. kwait_from p addr [0..<NPROC] False s))"

end
