(* ===== verification/Exec.thy ===== *)
theory Exec
  imports Proc
begin

text \<open>
  \<open>kernel/exec.c\<close> with the ELF structures of \<open>kernel/elf.h\<close>.  The two headers are read by value from
  the file (64 and 56 bytes, little endian, no padding).  \<open>argv\<close> is the list of the argument strings,
  each without its NUL.  A store beyond the \<open>MAXARG\<close> entries of \<open>ustack\<close> is \<open>Undef\<close>.
\<close>

definition ELF_MAGIC :: uint where [params]: "ELF_MAGIC = 0x464C457F"
definition ELF_PROG_LOAD :: uint where [params]: "ELF_PROG_LOAD = 1"
definition ELFHDR_SIZE :: nat where [params]: "ELFHDR_SIZE = 64"
definition PROGHDR_SIZE :: nat where [params]: "PROGHDR_SIZE = 56"

record elfhdr =
  e_magic :: uint
  e_entry :: uint64
  e_phoff :: uint64
  e_phnum :: ushort

definition elfhdr_of :: "byte list \<Rightarrow> elfhdr" where
  "elfhdr_of d = \<lparr>e_magic = get32 0 d, e_entry = get64 24 d, e_phoff = get64 32 d, e_phnum = get16 56 d\<rparr>"

record proghdr =
  ph_type :: uint
  ph_flags :: uint
  ph_off :: uint64
  ph_vaddr :: uint64
  ph_filesz :: uint64
  ph_memsz :: uint64

definition proghdr_of :: "byte list \<Rightarrow> proghdr" where
  "proghdr_of d = \<lparr>ph_type = get32 0 d, ph_flags = get32 4 d, ph_off = get64 8 d, ph_vaddr = get64 16 d,
     ph_filesz = get64 32 d, ph_memsz = get64 40 d\<rparr>"

definition flags2perm :: "uint \<Rightarrow> uint64" where
  "flags2perm flags =
     (let perm = (if flags AND 1 \<noteq> 0 then PTE_X else 0) in
      if flags AND 2 \<noteq> 0 then perm OR PTE_W else perm)"

section \<open>Loading segments\<close>

text \<open>
  \<open>i\<close> runs over multiples of \<open>PGSIZE\<close> below \<open>sz\<close>; \<open>readi\<close> fails long before \<open>i\<close> could overflow.
\<close>

function loadseg_loop ::
  "uint64 \<Rightarrow> uint64 \<Rightarrow> nat \<Rightarrow> uint \<Rightarrow> nat \<Rightarrow> nat \<Rightarrow> 'a files_scheme \<Rightarrow> (int, 'a files_scheme) res" where
  "loadseg_loop pagetable va ip offset i sz s =
     (if i < sz then
        seq (walkaddr pagetable (va + of_nat i) s) (\<lambda>pa s.
        if pa = 0 then Panic ''loadseg: address should exist''
        else let n = (if sz - i < 4096 then sz - i else 4096) in
          seq (readi ip False pa (offset + of_nat i) (of_nat n) s) (\<lambda>r s.
          if r \<noteq> int n then Ok (-1) s
          else loadseg_loop pagetable va ip offset (i + 4096) sz s))
      else Ok 0 s)"
  by pat_completeness auto
termination
  by (relation "measure (\<lambda>(_, _, _, _, i, sz, _). sz - i)") auto

declare loadseg_loop.simps [simp del]

definition loadseg ::
  "uint64 \<Rightarrow> uint64 \<Rightarrow> nat \<Rightarrow> uint \<Rightarrow> uint \<Rightarrow> 'a files_scheme \<Rightarrow> (int, 'a files_scheme) res" where
  "loadseg pagetable va ip offset sz s = loadseg_loop pagetable va ip offset 0 (unat sz) s"

text \<open>
  The loop over the program headers: \<open>k\<close> headers to go, the next one at byte \<open>off\<close> (an \<open>int\<close> in the
  code).  The result says whether the loop ended without \<open>goto bad\<close>, and the size reached.
\<close>

fun load_segments ::
  "nat \<Rightarrow> uint \<Rightarrow> uint64 \<Rightarrow> nat \<Rightarrow> uint64 \<Rightarrow> 'a files_scheme \<Rightarrow> (bool \<times> uint64, 'a files_scheme) res" where
  "load_segments 0 off pagetable ip sz s = Ok (True, sz) s"
| "load_segments (Suc k) off pagetable ip sz s =
     seq (readi_local ip off (of_nat PROGHDR_SIZE) s) (\<lambda>(r, d) s.
     if r \<noteq> int PROGHDR_SIZE then Ok (False, sz) s
     else
       let ph = proghdr_of d; next_off = off + of_nat PROGHDR_SIZE in
       if ph_type ph \<noteq> ELF_PROG_LOAD then load_segments k next_off pagetable ip sz s
       else if ph_memsz ph < ph_filesz ph then Ok (False, sz) s
       else if ph_vaddr ph + ph_memsz ph < ph_vaddr ph then Ok (False, sz) s
       else if ph_vaddr ph mod PGSIZE \<noteq> 0 then Ok (False, sz) s
       else
         seq (uvmalloc pagetable sz (ph_vaddr ph + ph_memsz ph) (flags2perm (ph_flags ph)) s) (\<lambda>sz1 s.
         if sz1 = 0 then Ok (False, sz) s
         else
           seq (loadseg pagetable (ph_vaddr ph) ip (ucast (ph_off ph)) (ucast (ph_filesz ph)) s) (\<lambda>r s.
           if r < 0 then Ok (False, sz1) s
           else load_segments k next_off pagetable ip sz1 s)))"

section \<open>The argument stack\<close>

text \<open>
  The loop that copies the argument strings: \<open>argc\<close> strings are done, \<open>us\<close> is \<open>ustack\<close> so far.  The
  result is \<open>None\<close> after \<open>goto bad\<close>, otherwise the stack pointer and \<open>ustack\<close>.
\<close>

fun push_args ::
  "byte list list \<Rightarrow> nat \<Rightarrow> uint64 \<Rightarrow> uint64 \<Rightarrow> uint64 \<Rightarrow> uint64 list \<Rightarrow> 'a files_scheme \<Rightarrow>
   ((uint64 \<times> uint64 list) option, 'a files_scheme) res" where
  "push_args [] argc pagetable stackbase sp us s = Ok (Some (sp, us)) s"
| "push_args (a # as) argc pagetable stackbase sp us s =
     (if MAXARG \<le> argc then Ok None s
      else
        let sp = sp - (of_nat (length a) + 1);
            sp = sp - sp mod 16
        in
        if sp < stackbase then Ok None s
        else seq (copyout pagetable sp (a @ [0]) s) (\<lambda>r s.
          if r < 0 then Ok None s
          else push_args as (argc + 1) pagetable stackbase sp (us @ [sp]) s))"

definition path_last :: "byte list \<Rightarrow> byte list" where
  "path_last path = rev (takeWhile (\<lambda>c. c \<noteq> slash) (rev path))"

section \<open>exec\<close>

definition kexec_bad ::
  "uint64 \<Rightarrow> uint64 \<Rightarrow> nat option \<Rightarrow> 'a files_scheme \<Rightarrow> (int, 'a files_scheme) res" where
  "kexec_bad pagetable sz ip s =
     seq (if pagetable \<noteq> 0 then proc_freepagetable pagetable sz s else Ok () s) (\<lambda>_ s.
     seq (case ip of None \<Rightarrow> Ok () s
          | Some i \<Rightarrow> seq (iunlockput (Some i) s) (\<lambda>_ s. end_op s)) (\<lambda>_ s.
     Ok (-1) s))"

definition upd_tf :: "uint64 \<Rightarrow> (trapframe \<Rightarrow> trapframe) \<Rightarrow> 'a base_scheme \<Rightarrow> 'a base_scheme" where
  "upd_tf tf f s = s\<lparr>tframes := (tframes s)(tf := f (tframes s tf))\<rparr>"

text \<open>From the first instruction after the program is loaded.\<close>

definition kexec_image ::
  "nat \<Rightarrow> byte list \<Rightarrow> byte list list \<Rightarrow> elfhdr \<Rightarrow> uint64 \<Rightarrow> uint64 \<Rightarrow> 'a files_scheme \<Rightarrow>
   (int, 'a files_scheme) res" where
  "kexec_image p path argv elf pagetable sz s =
     (let oldsz = p_sz (procs s ! p); sz = PGROUNDUP sz; guard = (of_nat USERSTACK + 1) * PGSIZE in
      seq (uvmalloc pagetable sz (sz + guard) PTE_W s) (\<lambda>sz1 s.
      if sz1 = 0 then kexec_bad pagetable sz None s
      else
        let sz = sz1 in
        seq (uvmclear pagetable (sz - guard) s) (\<lambda>_ s.
        let sp = sz; stackbase = sp - of_nat USERSTACK * PGSIZE in
        seq (push_args argv 0 pagetable stackbase sp [] s) (\<lambda>pushed s.
        case pushed of None \<Rightarrow> kexec_bad pagetable sz None s
        | Some (sp, us) \<Rightarrow>
            if MAXARG \<le> length us then Undef
            else
              let us = us @ [0];
                  sp = sp - of_nat (length us * 8);
                  sp = sp - sp mod 16
              in
              if sp < stackbase then kexec_bad pagetable sz None s
              else seq (copyout pagetable sp (concat (map le_bytes us)) s) (\<lambda>r s.
                if r < 0 then kexec_bad pagetable sz None s
                else
                  let tf = p_trapframe (procs s ! p);
                      s = upd_tf tf (\<lambda>t. t\<lparr>a1 := sp\<rparr>) s;
                      s = upd_proc p (\<lambda>x. x\<lparr>p_name := copy_name (p_name x) (path_last path)\<rparr>) s;
                      oldpagetable = p_pagetable (procs s ! p);
                      s = upd_proc p (\<lambda>x. x\<lparr>p_pagetable := pagetable, p_sz := sz\<rparr>) s;
                      s = upd_tf tf (\<lambda>t. t\<lparr>epc := e_entry elf, tf_sp := sp\<rparr>) s
                  in seq (proc_freepagetable oldpagetable oldsz s) (\<lambda>_ s.
                     Ok (int (length us) - 1) s))))))"

definition kexec :: "byte list \<Rightarrow> byte list list \<Rightarrow> 'a files_scheme \<Rightarrow> (int, 'a files_scheme) res" where
  "kexec path argv s =
     (case myproc s of None \<Rightarrow> Undef
      | Some p \<Rightarrow>
          seq (begin_op s) (\<lambda>_ s.
          seq (namei path s) (\<lambda>found s.
          case found of None \<Rightarrow> seq (end_op s) (\<lambda>_ s. Ok (-1) s)
          | Some ip \<Rightarrow>
              seq (ilock (Some ip) s) (\<lambda>_ s.
              seq (readi_local ip 0 (of_nat ELFHDR_SIZE) s) (\<lambda>(r, d) s.
              if r \<noteq> int ELFHDR_SIZE then kexec_bad 0 0 (Some ip) s
              else
                let elf = elfhdr_of d in
                if e_magic elf \<noteq> ELF_MAGIC then kexec_bad 0 0 (Some ip) s
                else seq (proc_pagetable p s) (\<lambda>pagetable s.
                  if pagetable = 0 then kexec_bad 0 0 (Some ip) s
                  else
                    seq (load_segments (unat (e_phnum elf)) (ucast (e_phoff elf)) pagetable ip 0 s) (\<lambda>(ok, sz) s.
                    if \<not> ok then kexec_bad pagetable sz (Some ip) s
                    else
                      seq (iunlockput (Some ip) s) (\<lambda>_ s.
                      seq (end_op s) (\<lambda>_ s.
                      kexec_image p path argv elf pagetable sz s)))))))))"

end
