(* ===== verification/Syscall.thy ===== *)
theory Syscall
  imports Exec
begin

text \<open>
  System calls: argument fetching and dispatch (\<open>kernel/syscall.c\<close>), the process calls
  (\<open>kernel/sysproc.c\<close>) and the file calls (\<open>kernel/sysfile.c\<close>).  A system call takes its arguments
  from the trapframe of the running process and returns the \<open>uint64\<close> that goes into \<open>a0\<close>.

  A string argument is returned by value next to the C result.  Local \<open>char name[DIRSIZ]\<close> buffers
  start as zeros: \<open>skipelem\<close> terminates what it stores, so what they held does not matter.
\<close>

record kern = files +
  ticks :: uint

section \<open>Fetching arguments (kernel/syscall.c)\<close>

definition fetchaddr :: "uint64 \<Rightarrow> 'a kern_scheme \<Rightarrow> (uint64 option, 'a kern_scheme) res" where
  "fetchaddr addr s =
     (case myproc s of None \<Rightarrow> Undef
      | Some p \<Rightarrow>
          if p_sz (procs s ! p) \<le> addr \<or> p_sz (procs s ! p) < addr + 8 then Ok None s
          else seq (copyin (p_pagetable (procs s ! p)) addr 8 s) (\<lambda>(r, bs) s.
            if r \<noteq> 0 then Ok None s else Ok (Some (le_word bs)) s))"

definition fetchstr :: "uint64 \<Rightarrow> nat \<Rightarrow> 'a kern_scheme \<Rightarrow> (int \<times> byte list, 'a kern_scheme) res" where
  "fetchstr addr mx s =
     (case myproc s of None \<Rightarrow> Undef
      | Some p \<Rightarrow>
          seq (copyinstr (p_pagetable (procs s ! p)) addr mx s) (\<lambda>(r, bs) s.
          if r < 0 then Ok (-1, bs) s
          else let str = takeWhile (\<lambda>c. c \<noteq> 0) bs in Ok (int (length str), str) s))"

definition argraw :: "nat \<Rightarrow> 'a kern_scheme \<Rightarrow> (uint64, 'a kern_scheme) res" where
  "argraw n s =
     (case myproc s of None \<Rightarrow> Undef
      | Some p \<Rightarrow>
          let tf = tframes s (p_trapframe (procs s ! p)) in
          if n = 0 then Ok (a0 tf) s
          else if n = 1 then Ok (a1 tf) s
          else if n = 2 then Ok (a2 tf) s
          else if n = 3 then Ok (a3 tf) s
          else if n = 4 then Ok (a4 tf) s
          else if n = 5 then Ok (a5 tf) s
          else Panic ''argraw'')"

definition argint :: "nat \<Rightarrow> 'a kern_scheme \<Rightarrow> (int, 'a kern_scheme) res" where
  "argint n s = seq (argraw n s) (\<lambda>v s. Ok (sint (ucast v :: uint)) s)"

definition argaddr :: "nat \<Rightarrow> 'a kern_scheme \<Rightarrow> (uint64, 'a kern_scheme) res" where
  "argaddr n s = argraw n s"

definition argstr :: "nat \<Rightarrow> nat \<Rightarrow> 'a kern_scheme \<Rightarrow> (int \<times> byte list, 'a kern_scheme) res" where
  "argstr n mx s = seq (argaddr n s) (\<lambda>addr s. fetchstr addr mx s)"

section \<open>Process calls (kernel/sysproc.c)\<close>

definition SBRK_EAGER :: int where [params]: "SBRK_EAGER = 1"
definition SBRK_LAZY :: int where [params]: "SBRK_LAZY = 2"

definition sys_exit :: "'a kern_scheme \<Rightarrow> (uint64, 'a kern_scheme) res" where
  "sys_exit s = seq (argint 0 s) (\<lambda>n s. seq (kexit n s) (\<lambda>_ s. Ok 0 s))"

definition sys_getpid :: "'a kern_scheme \<Rightarrow> (uint64, 'a kern_scheme) res" where
  "sys_getpid s = (case myproc s of None \<Rightarrow> Undef | Some p \<Rightarrow> Ok (of_int (p_pid (procs s ! p))) s)"

definition sys_fork :: "'a kern_scheme \<Rightarrow> (uint64, 'a kern_scheme) res" where
  "sys_fork s = seq (kfork s) (\<lambda>r s. Ok (of_int r) s)"

definition sys_wait :: "'a kern_scheme \<Rightarrow> (uint64, 'a kern_scheme) res" where
  "sys_wait s = seq (argaddr 0 s) (\<lambda>p s. seq (kwait p s) (\<lambda>r s. Ok (of_int r) s))"

definition sys_sbrk :: "'a kern_scheme \<Rightarrow> (uint64, 'a kern_scheme) res" where
  "sys_sbrk s =
     seq (argint 0 s) (\<lambda>n s.
     seq (argint 1 s) (\<lambda>t s.
     case myproc s of None \<Rightarrow> Undef
     | Some p \<Rightarrow>
         let addr = p_sz (procs s ! p) in
         if t = SBRK_EAGER \<or> n < 0 then
           seq (growproc n s) (\<lambda>r s. if r < 0 then Ok (-1) s else Ok addr s)
         else if addr + of_int n < addr then Ok (-1) s
         else if TRAPFRAME < addr + of_int n then Ok (-1) s
         else Ok addr (upd_proc p (\<lambda>x. x\<lparr>p_sz := p_sz x + of_int n\<rparr>) s)))"

text \<open>The loop of \<open>sys_pause\<close>, entered with \<open>tickslock\<close> held.\<close>

definition pause_loop :: "uint \<Rightarrow> int \<Rightarrow> 'a kern_scheme \<Rightarrow> (uint64, 'a kern_scheme) res" where
  "pause_loop ticks0 n s =
     (if int (unat (ticks s - ticks0)) < n then
        (case myproc s of None \<Rightarrow> Undef
         | Some p \<Rightarrow>
             seq (killed p s) (\<lambda>k s.
             if k then seq (release LTicks s) (\<lambda>_ s. Ok (-1) s)
             else sleep ChTicks LTicks s))
      else seq (release LTicks s) (\<lambda>_ s. Ok 0 s))"

definition sys_pause :: "'a kern_scheme \<Rightarrow> (uint64, 'a kern_scheme) res" where
  "sys_pause s =
     seq (argint 0 s) (\<lambda>n s.
     let n = (if n < 0 then 0 else n) in
     seq (acquire LTicks s) (\<lambda>_ s. pause_loop (ticks s) n s))"

definition sys_kill :: "'a kern_scheme \<Rightarrow> (uint64, 'a kern_scheme) res" where
  "sys_kill s = seq (argint 0 s) (\<lambda>pid s. seq (kkill pid s) (\<lambda>r s. Ok (of_int r) s))"

definition sys_uptime :: "'a kern_scheme \<Rightarrow> (uint64, 'a kern_scheme) res" where
  "sys_uptime s =
     seq (acquire LTicks s) (\<lambda>_ s.
     let xticks = ticks s in
     seq (release LTicks s) (\<lambda>_ s. Ok (ucast xticks) s))"

section \<open>File calls (kernel/sysfile.c)\<close>

definition argfd :: "nat \<Rightarrow> 'a kern_scheme \<Rightarrow> ((nat \<times> nat) option, 'a kern_scheme) res" where
  "argfd n s =
     seq (argint n s) (\<lambda>fd s.
     if fd < 0 \<or> int NOFILE \<le> fd then Ok None s
     else case myproc s of None \<Rightarrow> Undef
       | Some p \<Rightarrow>
           (case p_ofile (procs s ! p) ! nat fd of None \<Rightarrow> Ok None s
            | Some f \<Rightarrow> Ok (Some (nat fd, f)) s))"

definition fdalloc :: "nat \<Rightarrow> 'a kern_scheme \<Rightarrow> (nat option, 'a kern_scheme) res" where
  "fdalloc f s =
     (case myproc s of None \<Rightarrow> Undef
      | Some p \<Rightarrow>
          (case find (\<lambda>fd. p_ofile (procs s ! p) ! fd = None) [0..<NOFILE] of
             None \<Rightarrow> Ok None s
           | Some fd \<Rightarrow> Ok (Some fd) (upd_proc p (\<lambda>x. x\<lparr>p_ofile := (p_ofile x)[fd := Some f]\<rparr>) s)))"

definition clear_fd :: "nat \<Rightarrow> 'a kern_scheme \<Rightarrow> (unit, 'a kern_scheme) res" where
  "clear_fd fd s =
     (case myproc s of None \<Rightarrow> Undef
      | Some p \<Rightarrow> Ok () (upd_proc p (\<lambda>x. x\<lparr>p_ofile := (p_ofile x)[fd := None]\<rparr>) s))"

definition sys_dup :: "'a kern_scheme \<Rightarrow> (uint64, 'a kern_scheme) res" where
  "sys_dup s =
     seq (argfd 0 s) (\<lambda>a s.
     case a of None \<Rightarrow> Ok (-1) s
     | Some (_, f) \<Rightarrow>
         seq (fdalloc f s) (\<lambda>fd s.
         case fd of None \<Rightarrow> Ok (-1) s
         | Some fd \<Rightarrow> seq (filedup f s) (\<lambda>_ s. Ok (of_nat fd) s)))"

definition sys_read :: "'a kern_scheme \<Rightarrow> (uint64, 'a kern_scheme) res" where
  "sys_read s =
     seq (argaddr 1 s) (\<lambda>p s.
     seq (argint 2 s) (\<lambda>n s.
     seq (argfd 0 s) (\<lambda>a s.
     case a of None \<Rightarrow> Ok (-1) s
     | Some (_, f) \<Rightarrow> seq (fileread f p n s) (\<lambda>r s. Ok (of_int r) s))))"

definition sys_write :: "'a kern_scheme \<Rightarrow> (uint64, 'a kern_scheme) res" where
  "sys_write s =
     seq (argaddr 1 s) (\<lambda>p s.
     seq (argint 2 s) (\<lambda>n s.
     seq (argfd 0 s) (\<lambda>a s.
     case a of None \<Rightarrow> Ok (-1) s
     | Some (_, f) \<Rightarrow> seq (filewrite f p n s) (\<lambda>r s. Ok (of_int r) s))))"

definition sys_close :: "'a kern_scheme \<Rightarrow> (uint64, 'a kern_scheme) res" where
  "sys_close s =
     seq (argfd 0 s) (\<lambda>a s.
     case a of None \<Rightarrow> Ok (-1) s
     | Some (fd, f) \<Rightarrow>
         seq (clear_fd fd s) (\<lambda>_ s. seq (fileclose f s) (\<lambda>_ s. Ok 0 s)))"

definition sys_fstat :: "'a kern_scheme \<Rightarrow> (uint64, 'a kern_scheme) res" where
  "sys_fstat s =
     seq (argaddr 1 s) (\<lambda>st s.
     seq (argfd 0 s) (\<lambda>a s.
     case a of None \<Rightarrow> Ok (-1) s
     | Some (_, f) \<Rightarrow> seq (filestat f st s) (\<lambda>r s. Ok (of_int r) s)))"

text \<open>The common exit \<open>end_op(); return r;\<close>.\<close>

definition end_op_ret :: "int \<Rightarrow> 'a kern_scheme \<Rightarrow> (uint64, 'a kern_scheme) res" where
  "end_op_ret r s = seq (end_op s) (\<lambda>_ s. Ok (of_int r) s)"

definition sys_link_bad :: "nat \<Rightarrow> 'a kern_scheme \<Rightarrow> (uint64, 'a kern_scheme) res" where
  "sys_link_bad ip s =
     seq (ilock (Some ip) s) (\<lambda>_ s.
     seq (iupdate ip (upd_ino ip (\<lambda>i. i\<lparr>i_nlink := i_nlink i - 1\<rparr>) s)) (\<lambda>_ s.
     seq (iunlockput (Some ip) s) (\<lambda>_ s. end_op_ret (-1) s)))"

definition sys_link :: "'a kern_scheme \<Rightarrow> (uint64, 'a kern_scheme) res" where
  "sys_link s =
     seq (argstr 0 MAXPATH s) (\<lambda>(r, old) s.
     if r < 0 then Ok (-1) s
     else seq (argstr 1 MAXPATH s) (\<lambda>(r, new) s.
       if r < 0 then Ok (-1) s
       else
         seq (begin_op s) (\<lambda>_ s.
         seq (namei old s) (\<lambda>found s.
         case found of None \<Rightarrow> end_op_ret (-1) s
         | Some ip \<Rightarrow>
             seq (ilock (Some ip) s) (\<lambda>_ s.
             if i_type (ino ip s) = T_DIR then seq (iunlockput (Some ip) s) (\<lambda>_ s. end_op_ret (-1) s)
             else
               seq (iupdate ip (upd_ino ip (\<lambda>i. i\<lparr>i_nlink := i_nlink i + 1\<rparr>) s)) (\<lambda>_ s.
               seq (iunlock (Some ip) s) (\<lambda>_ s.
               seq (nameiparent new (replicate DIRSIZ 0) s) (\<lambda>(parent, name) s.
               case parent of None \<Rightarrow> sys_link_bad ip s
               | Some dp \<Rightarrow>
                   seq (ilock (Some dp) s) (\<lambda>_ s.
                   seq (if i_dev (ino dp s) \<noteq> i_dev (ino ip s) then Ok (-1) s
                        else dirlink dp name (i_inum (ino ip s)) s) (\<lambda>r s.
                   if r < 0 then seq (iunlockput (Some dp) s) (\<lambda>_ s. sys_link_bad ip s)
                   else
                     seq (iunlockput (Some dp) s) (\<lambda>_ s.
                     seq (iput ip s) (\<lambda>_ s. end_op_ret 0 s))))))))))))"

fun isdirempty_from :: "nat \<Rightarrow> nat list \<Rightarrow> 'a kern_scheme \<Rightarrow> (bool, 'a kern_scheme) res" where
  "isdirempty_from dp [] s = Ok True s"
| "isdirempty_from dp (off # offs) s =
     seq (readi_local dp (of_nat off) (of_nat DIRENT_SIZE) s) (\<lambda>(r, de) s.
     if r \<noteq> int DIRENT_SIZE then Panic ''isdirempty: readi''
     else if de_inum de \<noteq> 0 then Ok False s
     else isdirempty_from dp offs s)"

definition isdirempty :: "nat \<Rightarrow> 'a kern_scheme \<Rightarrow> (bool, 'a kern_scheme) res" where
  "isdirempty dp s = isdirempty_from dp (drop 2 (dir_offs (i_size (ino dp s)))) s"

definition sys_unlink_bad :: "nat \<Rightarrow> 'a kern_scheme \<Rightarrow> (uint64, 'a kern_scheme) res" where
  "sys_unlink_bad dp s = seq (iunlockput (Some dp) s) (\<lambda>_ s. end_op_ret (-1) s)"

definition sys_unlink :: "'a kern_scheme \<Rightarrow> (uint64, 'a kern_scheme) res" where
  "sys_unlink s =
     seq (argstr 0 MAXPATH s) (\<lambda>(r, path) s.
     if r < 0 then Ok (-1) s
     else
       seq (begin_op s) (\<lambda>_ s.
       seq (nameiparent path (replicate DIRSIZ 0) s) (\<lambda>(parent, name) s.
       case parent of None \<Rightarrow> end_op_ret (-1) s
       | Some dp \<Rightarrow>
           seq (ilock (Some dp) s) (\<lambda>_ s.
           if namecmp name (str ''.'') = 0 \<or> namecmp name (str ''..'') = 0 then sys_unlink_bad dp s
           else seq (dirlookup dp name s) (\<lambda>found s.
             case found of None \<Rightarrow> sys_unlink_bad dp s
             | Some (ip, off) \<Rightarrow>
                 seq (ilock (Some ip) s) (\<lambda>_ s.
                 if sint (i_nlink (ino ip s)) < 1 then Panic ''unlink: nlink < 1''
                 else
                   seq (if i_type (ino ip s) = T_DIR then isdirempty ip s else Ok True s) (\<lambda>ok s.
                   if \<not> ok then seq (iunlockput (Some ip) s) (\<lambda>_ s. sys_unlink_bad dp s)
                   else
                     seq (writei_local dp (replicate DIRENT_SIZE 0) (of_nat off) s) (\<lambda>r s.
                     if r \<noteq> int DIRENT_SIZE then Panic ''unlink: writei''
                     else
                       seq (if i_type (ino ip s) = T_DIR
                            then iupdate dp (upd_ino dp (\<lambda>i. i\<lparr>i_nlink := i_nlink i - 1\<rparr>) s)
                            else Ok () s) (\<lambda>_ s.
                       seq (iunlockput (Some dp) s) (\<lambda>_ s.
                       seq (iupdate ip (upd_ino ip (\<lambda>i. i\<lparr>i_nlink := i_nlink i - 1\<rparr>) s)) (\<lambda>_ s.
                       seq (iunlockput (Some ip) s) (\<lambda>_ s. end_op_ret 0 s))))))))))))"

definition create_fail :: "nat \<Rightarrow> nat \<Rightarrow> 'a kern_scheme \<Rightarrow> (nat option, 'a kern_scheme) res" where
  "create_fail ip dp s =
     seq (iupdate ip (upd_ino ip (\<lambda>i. i\<lparr>i_nlink := 0\<rparr>) s)) (\<lambda>_ s.
     seq (iunlockput (Some ip) s) (\<lambda>_ s.
     seq (iunlockput (Some dp) s) (\<lambda>_ s. Ok None s)))"

definition create ::
  "byte list \<Rightarrow> ushort \<Rightarrow> ushort \<Rightarrow> ushort \<Rightarrow> 'a kern_scheme \<Rightarrow> (nat option, 'a kern_scheme) res" where
  "create path type major minor s =
     seq (nameiparent path (replicate DIRSIZ 0) s) (\<lambda>(parent, name) s.
     case parent of None \<Rightarrow> Ok None s
     | Some dp \<Rightarrow>
         seq (ilock (Some dp) s) (\<lambda>_ s.
         seq (dirlookup dp name s) (\<lambda>found s.
         case found of
           Some (ip, _) \<Rightarrow>
             seq (iunlockput (Some dp) s) (\<lambda>_ s.
             seq (ilock (Some ip) s) (\<lambda>_ s.
             if type = T_FILE \<and> (i_type (ino ip s) = T_FILE \<or> i_type (ino ip s) = T_DEVICE) then Ok (Some ip) s
             else seq (iunlockput (Some ip) s) (\<lambda>_ s. Ok None s)))
         | None \<Rightarrow>
             seq (ialloc (i_dev (ino dp s)) type s) (\<lambda>new s.
             case new of None \<Rightarrow> seq (iunlockput (Some dp) s) (\<lambda>_ s. Ok None s)
             | Some ip \<Rightarrow>
                 seq (ilock (Some ip) s) (\<lambda>_ s.
                 seq (iupdate ip (upd_ino ip (\<lambda>i. i\<lparr>i_major := major, i_minor := minor, i_nlink := 1\<rparr>) s)) (\<lambda>_ s.
                 seq (if type = T_DIR then
                        seq (dirlink ip (str ''.'') (i_inum (ino ip s)) s) (\<lambda>r s.
                        if r < 0 then Ok False s
                        else seq (dirlink ip (str ''..'') (i_inum (ino dp s)) s) (\<lambda>r s. Ok (0 \<le> r) s))
                      else Ok True s) (\<lambda>ok s.
                 if \<not> ok then create_fail ip dp s
                 else seq (dirlink dp name (i_inum (ino ip s)) s) (\<lambda>r s.
                   if r < 0 then create_fail ip dp s
                   else
                     seq (if type = T_DIR
                          then iupdate dp (upd_ino dp (\<lambda>i. i\<lparr>i_nlink := i_nlink i + 1\<rparr>) s)
                          else Ok () s) (\<lambda>_ s.
                     seq (iunlockput (Some dp) s) (\<lambda>_ s. Ok (Some ip) s))))))))))"

text \<open>\<open>sys_open\<close> once the inode is there and locked.\<close>

definition open_inode :: "nat \<Rightarrow> uint \<Rightarrow> 'a kern_scheme \<Rightarrow> (uint64, 'a kern_scheme) res" where
  "open_inode ip omode s =
     (let fail = (\<lambda>s. seq (iunlockput (Some ip) s) (\<lambda>_ s. end_op_ret (-1) s)) in
      if i_type (ino ip s) = T_DEVICE \<and> (sint (i_major (ino ip s)) < 0 \<or> int NDEV \<le> sint (i_major (ino ip s)))
      then fail s
      else seq (filealloc s) (\<lambda>nf s.
        case nf of None \<Rightarrow> fail s
        | Some f \<Rightarrow>
            seq (fdalloc f s) (\<lambda>nfd s.
            case nfd of None \<Rightarrow> seq (fileclose f s) (\<lambda>_ s. fail s)
            | Some fd \<Rightarrow>
                let s = (if i_type (ino ip s) = T_DEVICE
                         then upd_file f (\<lambda>x. x\<lparr>f_type := FD_DEVICE, f_major := i_major (ino ip s)\<rparr>) s
                         else upd_file f (\<lambda>x. x\<lparr>f_type := FD_INODE, f_off := 0\<rparr>) s);
                    s = upd_file f (\<lambda>x. x\<lparr>f_ip := Some ip, f_readable := (omode AND O_WRONLY = 0),
                          f_writable := (omode AND O_WRONLY \<noteq> 0 \<or> omode AND O_RDWR \<noteq> 0)\<rparr>) s
                in
                seq (if omode AND O_TRUNC \<noteq> 0 \<and> i_type (ino ip s) = T_FILE then itrunc ip s else Ok () s) (\<lambda>_ s.
                seq (iunlock (Some ip) s) (\<lambda>_ s. end_op_ret (int fd) s)))))"

definition sys_open :: "'a kern_scheme \<Rightarrow> (uint64, 'a kern_scheme) res" where
  "sys_open s =
     seq (argint 1 s) (\<lambda>m s.
     let omode = of_int m :: uint in
     seq (argstr 0 MAXPATH s) (\<lambda>(n, path) s.
     if n < 0 then Ok (-1) s
     else
       seq (begin_op s) (\<lambda>_ s.
       if omode AND O_CREATE \<noteq> 0 then
         seq (create path T_FILE 0 0 s) (\<lambda>new s.
         case new of None \<Rightarrow> end_op_ret (-1) s | Some ip \<Rightarrow> open_inode ip omode s)
       else
         seq (namei path s) (\<lambda>found s.
         case found of None \<Rightarrow> end_op_ret (-1) s
         | Some ip \<Rightarrow>
             seq (ilock (Some ip) s) (\<lambda>_ s.
             if i_type (ino ip s) = T_DIR \<and> omode \<noteq> O_RDONLY then
               seq (iunlockput (Some ip) s) (\<lambda>_ s. end_op_ret (-1) s)
             else open_inode ip omode s)))))"

definition make_node :: "ushort \<Rightarrow> ushort \<Rightarrow> ushort \<Rightarrow> 'a kern_scheme \<Rightarrow> (uint64, 'a kern_scheme) res" where
  "make_node type major minor s =
     seq (argstr 0 MAXPATH s) (\<lambda>(r, path) s.
     if r < 0 then end_op_ret (-1) s
     else seq (create path type major minor s) (\<lambda>new s.
       case new of None \<Rightarrow> end_op_ret (-1) s
       | Some ip \<Rightarrow> seq (iunlockput (Some ip) s) (\<lambda>_ s. end_op_ret 0 s)))"

definition sys_mkdir :: "'a kern_scheme \<Rightarrow> (uint64, 'a kern_scheme) res" where
  "sys_mkdir s = seq (begin_op s) (\<lambda>_ s. make_node T_DIR 0 0 s)"

definition sys_mknod :: "'a kern_scheme \<Rightarrow> (uint64, 'a kern_scheme) res" where
  "sys_mknod s =
     seq (begin_op s) (\<lambda>_ s.
     seq (argint 1 s) (\<lambda>major s.
     seq (argint 2 s) (\<lambda>minor s.
     make_node T_DEVICE (of_int major) (of_int minor) s)))"

definition sys_chdir :: "'a kern_scheme \<Rightarrow> (uint64, 'a kern_scheme) res" where
  "sys_chdir s =
     (case myproc s of None \<Rightarrow> Undef
      | Some p \<Rightarrow>
          seq (begin_op s) (\<lambda>_ s.
          seq (argstr 0 MAXPATH s) (\<lambda>(r, path) s.
          if r < 0 then end_op_ret (-1) s
          else seq (namei path s) (\<lambda>found s.
            case found of None \<Rightarrow> end_op_ret (-1) s
            | Some ip \<Rightarrow>
                seq (ilock (Some ip) s) (\<lambda>_ s.
                if i_type (ino ip s) \<noteq> T_DIR then
                  seq (iunlockput (Some ip) s) (\<lambda>_ s. end_op_ret (-1) s)
                else
                  seq (iunlock (Some ip) s) (\<lambda>_ s.
                  seq (case p_cwd (procs s ! p) of None \<Rightarrow> Undef | Some old \<Rightarrow> iput old s) (\<lambda>_ s.
                  seq (end_op s) (\<lambda>_ s.
                  Ok 0 (upd_proc p (\<lambda>x. x\<lparr>p_cwd := Some ip\<rparr>) s)))))))))"

text \<open>
  The loop of \<open>sys_exec\<close> that fetches the arguments: \<open>k\<close> slots of \<open>argv\<close> are left.  The result says
  whether the loop ended at a null pointer, and lists the pages and the strings in them.
\<close>

fun exec_args ::
  "nat \<Rightarrow> uint64 \<Rightarrow> 'a kern_scheme \<Rightarrow> (bool \<times> (uint64 \<times> byte list) list, 'a kern_scheme) res" where
  "exec_args 0 uargv s = Ok (False, []) s"
| "exec_args (Suc k) uargv s =
     seq (fetchaddr uargv s) (\<lambda>uarg s.
     case uarg of None \<Rightarrow> Ok (False, []) s
     | Some uarg \<Rightarrow>
         if uarg = 0 then Ok (True, []) s
         else seq (kalloc s) (\<lambda>page s.
           if page = 0 then Ok (False, []) s
           else seq (fetchstr uarg 4096 s) (\<lambda>(r, str) s.
             let s = s\<lparr>ram := wr (ram s) page (if r < 0 then str else str @ [0])\<rparr> in
             if r < 0 then Ok (False, [(page, str)]) s
             else seq (exec_args k (uargv + 8) s) (\<lambda>(ok, rest) s. Ok (ok, (page, str) # rest) s))))"

definition sys_exec :: "'a kern_scheme \<Rightarrow> (uint64, 'a kern_scheme) res" where
  "sys_exec s =
     seq (argaddr 1 s) (\<lambda>uargv s.
     seq (argstr 0 MAXPATH s) (\<lambda>(r, path) s.
     if r < 0 then Ok (-1) s
     else
       seq (exec_args MAXARG uargv s) (\<lambda>(ok, argv) s.
       seq (if ok then kexec path (map snd argv) s else Ok (-1) s) (\<lambda>ret s.
       seq (foreach (map fst argv) kfree s) (\<lambda>_ s. Ok (of_int ret) s)))))"

definition sys_pipe :: "'a kern_scheme \<Rightarrow> (uint64, 'a kern_scheme) res" where
  "sys_pipe s =
     (case myproc s of None \<Rightarrow> Undef
      | Some p \<Rightarrow>
          seq (argaddr 0 s) (\<lambda>fdarray s.
          seq (pipealloc s) (\<lambda>files s.
          case files of None \<Rightarrow> Ok (-1) s
          | Some (rf0, wf0) \<Rightarrow>
              let close2 = (\<lambda>s. seq (fileclose rf0 s) (\<lambda>_ s. seq (fileclose wf0 s) (\<lambda>_ s. Ok (-1) s))) in
              seq (fdalloc rf0 s) (\<lambda>fd0 s.
              case fd0 of None \<Rightarrow> close2 s
              | Some fd0 \<Rightarrow>
                  seq (fdalloc wf0 s) (\<lambda>fd1 s.
                  case fd1 of None \<Rightarrow> seq (clear_fd fd0 s) (\<lambda>_ s. close2 s)
                  | Some fd1 \<Rightarrow>
                      seq (copyout (p_pagetable (procs s ! p)) fdarray (le_bytes (of_nat fd0 :: uint)) s) (\<lambda>r s.
                      seq (if r < 0 then Ok r s
                           else copyout (p_pagetable (procs s ! p)) (fdarray + 4) (le_bytes (of_nat fd1 :: uint)) s) (\<lambda>r s.
                      if r < 0 then
                        seq (clear_fd fd0 s) (\<lambda>_ s. seq (clear_fd fd1 s) (\<lambda>_ s. close2 s))
                      else Ok 0 s)))))))"

section \<open>Dispatch\<close>

definition syscalls :: "(nat \<times> ('a kern_scheme \<Rightarrow> (uint64, 'a kern_scheme) res)) list" where
  "syscalls =
     [(1, sys_fork), (2, sys_exit), (3, sys_wait), (4, sys_pipe), (5, sys_read), (6, sys_kill),
      (7, sys_exec), (8, sys_fstat), (9, sys_chdir), (10, sys_dup), (11, sys_getpid), (12, sys_sbrk),
      (13, sys_pause), (14, sys_uptime), (15, sys_open), (16, sys_write), (17, sys_mknod),
      (18, sys_unlink), (19, sys_link), (20, sys_mkdir), (21, sys_close)]"

definition syscall :: "'a kern_scheme \<Rightarrow> (unit, 'a kern_scheme) res" where
  "syscall s =
     (case myproc s of None \<Rightarrow> Undef
      | Some p \<Rightarrow>
          let num = sint (ucast (a7 (tframes s (p_trapframe (procs s ! p)))) :: uint);
              f = (if 0 < num then map_of syscalls (nat num) else None)
          in
          seq (case f of
                 Some f \<Rightarrow> f s
               | None \<Rightarrow>
                   seq (kprintf (str ''%d %s: unknown sys call %d'' @ [10])
                          [AInt (of_int (p_pid (procs s ! p))), AStr (Some (p_name (procs s ! p))), AInt (of_int num)] s)
                     (\<lambda>_ s. Ok (-1) s)) (\<lambda>r s.
          Ok () (upd_tf (p_trapframe (procs s ! p)) (\<lambda>t. t\<lparr>a0 := r\<rparr>) s)))"

end
