(* ===== verification/Virtio.thy ===== *)
theory Virtio
  imports Syscall
begin

text \<open>
  The disk driver \<open>kernel/virtio_disk.c\<close> with the structures of \<open>kernel/virtio.h\<close>.

  The three pages shared with the device are the lists of descriptors and the two rings; a DMA
  address is the object it names (a request header \<open>ops[i]\<close>, the data of a buffer, a status byte).
  The device is not code of this repository.  \<open>vd_rd\<close>, a field of the state, says what a register
  reads after a sequence of register writes, which \<open>vd_regs\<close> records, each with the available index at
  the time of the write.  What the device does with a request is an argument of the statements about
  it; \<open>virtio_blk_device\<close> states what the virtio specification says of it: it transfers the bytes that
  start at 512 times the sector of the header, once the driver has notified it of the request.

  \<open>disk_rw\<close> of the buffer cache is the completed transfer; the property at the end shows that the
  driver, the device, the interrupt handler and the scheduler together implement it.
\<close>

section \<open>kernel/virtio.h\<close>

definition NUM :: nat where [params]: "NUM = 8"
definition VRING_DESC_F_NEXT :: ushort where [params]: "VRING_DESC_F_NEXT = 1"
definition VRING_DESC_F_WRITE :: ushort where [params]: "VRING_DESC_F_WRITE = 2"
definition VIRTIO_BLK_T_IN :: uint where [params]: "VIRTIO_BLK_T_IN = 0"
definition VIRTIO_BLK_T_OUT :: uint where [params]: "VIRTIO_BLK_T_OUT = 1"

definition VIRTIO_MMIO_MAGIC_VALUE :: nat where [params]: "VIRTIO_MMIO_MAGIC_VALUE = 0x000"
definition VIRTIO_MMIO_VERSION :: nat where [params]: "VIRTIO_MMIO_VERSION = 0x004"
definition VIRTIO_MMIO_DEVICE_ID :: nat where [params]: "VIRTIO_MMIO_DEVICE_ID = 0x008"
definition VIRTIO_MMIO_VENDOR_ID :: nat where [params]: "VIRTIO_MMIO_VENDOR_ID = 0x00c"
definition VIRTIO_MMIO_DEVICE_FEATURES :: nat where [params]: "VIRTIO_MMIO_DEVICE_FEATURES = 0x010"
definition VIRTIO_MMIO_DRIVER_FEATURES :: nat where [params]: "VIRTIO_MMIO_DRIVER_FEATURES = 0x020"
definition VIRTIO_MMIO_QUEUE_SEL :: nat where [params]: "VIRTIO_MMIO_QUEUE_SEL = 0x030"
definition VIRTIO_MMIO_QUEUE_NUM_MAX :: nat where [params]: "VIRTIO_MMIO_QUEUE_NUM_MAX = 0x034"
definition VIRTIO_MMIO_QUEUE_NUM :: nat where [params]: "VIRTIO_MMIO_QUEUE_NUM = 0x038"
definition VIRTIO_MMIO_QUEUE_READY :: nat where [params]: "VIRTIO_MMIO_QUEUE_READY = 0x044"
definition VIRTIO_MMIO_QUEUE_NOTIFY :: nat where [params]: "VIRTIO_MMIO_QUEUE_NOTIFY = 0x050"
definition VIRTIO_MMIO_INTERRUPT_STATUS :: nat where [params]: "VIRTIO_MMIO_INTERRUPT_STATUS = 0x060"
definition VIRTIO_MMIO_INTERRUPT_ACK :: nat where [params]: "VIRTIO_MMIO_INTERRUPT_ACK = 0x064"
definition VIRTIO_MMIO_STATUS :: nat where [params]: "VIRTIO_MMIO_STATUS = 0x070"
definition VIRTIO_MMIO_QUEUE_DESC_LOW :: nat where [params]: "VIRTIO_MMIO_QUEUE_DESC_LOW = 0x080"
definition VIRTIO_MMIO_QUEUE_DESC_HIGH :: nat where [params]: "VIRTIO_MMIO_QUEUE_DESC_HIGH = 0x084"
definition VIRTIO_MMIO_DRIVER_DESC_LOW :: nat where [params]: "VIRTIO_MMIO_DRIVER_DESC_LOW = 0x090"
definition VIRTIO_MMIO_DRIVER_DESC_HIGH :: nat where [params]: "VIRTIO_MMIO_DRIVER_DESC_HIGH = 0x094"
definition VIRTIO_MMIO_DEVICE_DESC_LOW :: nat where [params]: "VIRTIO_MMIO_DEVICE_DESC_LOW = 0x0a0"
definition VIRTIO_MMIO_DEVICE_DESC_HIGH :: nat where [params]: "VIRTIO_MMIO_DEVICE_DESC_HIGH = 0x0a4"

definition VIRTIO_CONFIG_S_ACKNOWLEDGE :: uint where [params]: "VIRTIO_CONFIG_S_ACKNOWLEDGE = 1"
definition VIRTIO_CONFIG_S_DRIVER :: uint where [params]: "VIRTIO_CONFIG_S_DRIVER = 2"
definition VIRTIO_CONFIG_S_DRIVER_OK :: uint where [params]: "VIRTIO_CONFIG_S_DRIVER_OK = 4"
definition VIRTIO_CONFIG_S_FEATURES_OK :: uint where [params]: "VIRTIO_CONFIG_S_FEATURES_OK = 8"

text \<open>\<open>VIRTIO_BLK_F_RO\<close>, \<open>_SCSI\<close>, \<open>_CONFIG_WCE\<close>, \<open>_MQ\<close>, \<open>VIRTIO_F_ANY_LAYOUT\<close>, \<open>VIRTIO_RING_F_EVENT_IDX\<close>,
  \<open>_INDIRECT_DESC\<close>: the feature bits the driver turns down, in the order it clears them.\<close>

definition refused_features :: "nat list" where
  "refused_features = [5, 7, 11, 12, 27, 29, 28]"

datatype dma = DmaNull | DmaOp nat | DmaData nat | DmaStatus nat

record virtq_desc =
  d_addr :: dma
  d_len :: uint
  d_flags :: ushort
  d_next :: ushort

record virtio_blk_req =
  rq_type :: uint
  rq_reserved :: uint
  rq_sector :: uint64

definition zero_desc :: virtq_desc where
  "zero_desc = \<lparr>d_addr = DmaNull, d_len = 0, d_flags = 0, d_next = 0\<rparr>"

section \<open>struct disk\<close>

record virtio = kern +
  vd_rd :: "(nat \<times> uint \<times> ushort) list \<Rightarrow> nat \<Rightarrow> uint"
  vd_regs :: "(nat \<times> uint \<times> ushort) list"
  vd_desc :: "virtq_desc list"
  vd_avail_idx :: ushort
  vd_avail_ring :: "ushort list"
  vd_used_idx :: ushort
  vd_used_ring :: "uint list"
  vd_free :: "bool list"
  vd_looked :: ushort
  vd_info_b :: "nat option list"
  vd_info_status :: "byte list"
  vd_ops :: "virtio_blk_req list"

definition R_read :: "nat \<Rightarrow> 'a virtio_scheme \<Rightarrow> uint" where
  "R_read r s = vd_rd s (vd_regs s) r"

definition R_write :: "nat \<Rightarrow> uint \<Rightarrow> 'a virtio_scheme \<Rightarrow> 'a virtio_scheme" where
  "R_write r v s = s\<lparr>vd_regs := vd_regs s @ [(r, v, vd_avail_idx s)]\<rparr>"

section \<open>virtio_disk_init\<close>

definition negotiate :: "'a virtio_scheme \<Rightarrow> (uint, 'a virtio_scheme) res" where
  "negotiate s =
     (let s = R_write VIRTIO_MMIO_STATUS 0 s;
          status = VIRTIO_CONFIG_S_ACKNOWLEDGE;
          s = R_write VIRTIO_MMIO_STATUS status s;
          status = status OR VIRTIO_CONFIG_S_DRIVER;
          s = R_write VIRTIO_MMIO_STATUS status s;
          features = fold (\<lambda>i f. f AND NOT (push_bit i 1)) refused_features (R_read VIRTIO_MMIO_DEVICE_FEATURES s);
          s = R_write VIRTIO_MMIO_DRIVER_FEATURES features s;
          s = R_write VIRTIO_MMIO_STATUS (status OR VIRTIO_CONFIG_S_FEATURES_OK) s;
          status = R_read VIRTIO_MMIO_STATUS s
      in if status AND VIRTIO_CONFIG_S_FEATURES_OK = 0 then Panic ''virtio disk FEATURES_OK unset''
         else Ok status s)"

definition queue_addr :: "nat \<Rightarrow> nat \<Rightarrow> uint64 \<Rightarrow> 'a virtio_scheme \<Rightarrow> 'a virtio_scheme" where
  "queue_addr low high a s = R_write high (ucast (drop_bit 32 a)) (R_write low (ucast a) s)"

definition setup_queue :: "uint \<Rightarrow> 'a virtio_scheme \<Rightarrow> (unit, 'a virtio_scheme) res" where
  "setup_queue status s =
     seq (kalloc s) (\<lambda>desc s.
     seq (kalloc s) (\<lambda>avail s.
     seq (kalloc s) (\<lambda>used s.
     if desc = 0 \<or> avail = 0 \<or> used = 0 then Panic ''virtio disk kalloc''
     else
       let s = s\<lparr>ram := memset used 0 4096 (memset avail 0 4096 (memset desc 0 4096 (ram s)))\<rparr>;
           s = s\<lparr>vd_desc := replicate NUM zero_desc, vd_avail_idx := 0, vd_avail_ring := replicate NUM 0,
                 vd_used_idx := 0, vd_used_ring := replicate NUM 0\<rparr>;
           s = R_write VIRTIO_MMIO_QUEUE_NUM (of_nat NUM) s;
           s = queue_addr VIRTIO_MMIO_QUEUE_DESC_LOW VIRTIO_MMIO_QUEUE_DESC_HIGH desc s;
           s = queue_addr VIRTIO_MMIO_DRIVER_DESC_LOW VIRTIO_MMIO_DRIVER_DESC_HIGH avail s;
           s = queue_addr VIRTIO_MMIO_DEVICE_DESC_LOW VIRTIO_MMIO_DEVICE_DESC_HIGH used s;
           s = R_write VIRTIO_MMIO_QUEUE_READY 1 s;
           s = s\<lparr>vd_free := replicate NUM True\<rparr>
       in Ok () (R_write VIRTIO_MMIO_STATUS (status OR VIRTIO_CONFIG_S_DRIVER_OK) s))))"

definition virtio_disk_init :: "'a virtio_scheme \<Rightarrow> (unit, 'a virtio_scheme) res" where
  "virtio_disk_init s =
     (let s = initlock LVdisk ''virtio_disk'' s in
      if R_read VIRTIO_MMIO_MAGIC_VALUE s \<noteq> 0x74726976 \<or> R_read VIRTIO_MMIO_VERSION s \<noteq> 2 \<or>
         R_read VIRTIO_MMIO_DEVICE_ID s \<noteq> 2 \<or> R_read VIRTIO_MMIO_VENDOR_ID s \<noteq> 0x554d4551
      then Panic ''could not find virtio disk''
      else
        seq (negotiate s) (\<lambda>status s.
        let s = R_write VIRTIO_MMIO_QUEUE_SEL 0 s in
        if R_read VIRTIO_MMIO_QUEUE_READY s \<noteq> 0 then Panic ''virtio disk should not be ready''
        else
          let mx = R_read VIRTIO_MMIO_QUEUE_NUM_MAX s in
          if mx = 0 then Panic ''virtio disk has no queue 0''
          else if mx < of_nat NUM then Panic ''virtio disk max queue too short''
          else setup_queue status s))"

section \<open>Descriptors\<close>

definition alloc_desc :: "'a virtio_scheme \<Rightarrow> nat option \<times> 'a virtio_scheme" where
  "alloc_desc s =
     (case find (\<lambda>i. vd_free s ! i) [0..<NUM] of
        None \<Rightarrow> (None, s)
      | Some i \<Rightarrow> (Some i, s\<lparr>vd_free := (vd_free s)[i := False]\<rparr>))"

definition free_desc :: "nat \<Rightarrow> 'a virtio_scheme \<Rightarrow> (unit, 'a virtio_scheme) res" where
  "free_desc i s =
     (if NUM \<le> i then Panic ''free_desc 1''
      else if vd_free s ! i then Panic ''free_desc 2''
      else wakeup ChDisk (s\<lparr>vd_desc := (vd_desc s)[i := zero_desc], vd_free := (vd_free s)[i := True]\<rparr>))"

text \<open>
  The loop of \<open>free_chain\<close>.  \<open>free_desc\<close> panics at a descriptor that is free, so a chain that
  loops ends there: \<open>NUM + 1\<close> rounds are enough.
\<close>

primrec free_chain_n :: "nat \<Rightarrow> nat \<Rightarrow> 'a virtio_scheme \<Rightarrow> (unit, 'a virtio_scheme) res" where
  "free_chain_n 0 i s = Undef"
| "free_chain_n (Suc n) i s =
     (let flag = d_flags (vd_desc s ! i); nxt = unat (d_next (vd_desc s ! i)) in
      seq (free_desc i s) (\<lambda>_ s.
      if flag AND VRING_DESC_F_NEXT \<noteq> 0 then free_chain_n n nxt s else Ok () s))"

definition free_chain :: "nat \<Rightarrow> 'a virtio_scheme \<Rightarrow> (unit, 'a virtio_scheme) res" where
  "free_chain i s = free_chain_n (NUM + 1) i s"

primrec alloc_descs :: "nat \<Rightarrow> nat list \<Rightarrow> 'a virtio_scheme \<Rightarrow> (nat list option, 'a virtio_scheme) res" where
  "alloc_descs 0 idx s = Ok (Some idx) s"
| "alloc_descs (Suc k) idx s =
     (case alloc_desc s of
        (None, s) \<Rightarrow> seq (foreach idx free_desc s) (\<lambda>_ s. Ok None s)
      | (Some i, s) \<Rightarrow> alloc_descs k (idx @ [i]) s)"

definition alloc3_desc :: "'a virtio_scheme \<Rightarrow> (nat list option, 'a virtio_scheme) res" where
  "alloc3_desc s = alloc_descs 3 [] s"

section \<open>virtio_disk_rw\<close>

text \<open>The wait for \<open>virtio_disk_intr\<close> and what follows it.\<close>

definition rw_wait :: "nat \<Rightarrow> nat \<Rightarrow> 'a virtio_scheme \<Rightarrow> (unit, 'a virtio_scheme) res" where
  "rw_wait b i s =
     (if b_disk (bufs s b) then sleep (ChBuf b) LVdisk s
      else
        seq (free_chain i (s\<lparr>vd_info_b := (vd_info_b s)[i := None]\<rparr>)) (\<lambda>_ s.
        release LVdisk s))"

definition rw_submit :: "nat \<Rightarrow> bool \<Rightarrow> nat list \<Rightarrow> 'a virtio_scheme \<Rightarrow> 'a virtio_scheme" where
  "rw_submit b write idx s =
     (let sector = ucast ((of_nat (b_blockno (bufs s b)) :: uint) * of_nat (BSIZE div 512));
          i0 = idx ! 0; i1 = idx ! 1; i2 = idx ! 2;
          s = s\<lparr>vd_ops := (vd_ops s)[i0 := \<lparr>rq_type = (if write then VIRTIO_BLK_T_OUT else VIRTIO_BLK_T_IN),
                  rq_reserved = 0, rq_sector = sector\<rparr>]\<rparr>;
          s = s\<lparr>vd_desc := (vd_desc s)[i0 := \<lparr>d_addr = DmaOp i0, d_len = 16,
                  d_flags = VRING_DESC_F_NEXT, d_next = of_nat i1\<rparr>]\<rparr>;
          s = s\<lparr>vd_desc := (vd_desc s)[i1 := \<lparr>d_addr = DmaData b, d_len = of_nat BSIZE,
                  d_flags = (if write then 0 else VRING_DESC_F_WRITE) OR VRING_DESC_F_NEXT, d_next = of_nat i2\<rparr>]\<rparr>;
          s = s\<lparr>vd_info_status := (vd_info_status s)[i0 := 0xff]\<rparr>;
          s = s\<lparr>vd_desc := (vd_desc s)[i2 := \<lparr>d_addr = DmaStatus i0, d_len = 1,
                  d_flags = VRING_DESC_F_WRITE, d_next = 0\<rparr>]\<rparr>;
          s = b_upd b (\<lambda>x. x\<lparr>b_disk := True\<rparr>) s;
          s = s\<lparr>vd_info_b := (vd_info_b s)[i0 := Some b]\<rparr>;
          s = s\<lparr>vd_avail_ring := (vd_avail_ring s)[unat (vd_avail_idx s) mod NUM := of_nat i0]\<rparr>;
          s = s\<lparr>vd_avail_idx := vd_avail_idx s + 1\<rparr>
      in R_write VIRTIO_MMIO_QUEUE_NOTIFY 0 s)"

definition rw_start :: "nat \<Rightarrow> bool \<Rightarrow> 'a virtio_scheme \<Rightarrow> (unit, 'a virtio_scheme) res" where
  "rw_start b write s =
     seq (alloc3_desc s) (\<lambda>idx s.
     case idx of
       None \<Rightarrow> sleep ChDisk LVdisk s
     | Some idx \<Rightarrow> rw_wait b (idx ! 0) (rw_submit b write idx s))"

definition virtio_disk_rw :: "nat \<Rightarrow> bool \<Rightarrow> 'a virtio_scheme \<Rightarrow> (unit, 'a virtio_scheme) res" where
  "virtio_disk_rw b write s = seq (acquire LVdisk s) (\<lambda>_ s. rw_start b write s)"

section \<open>virtio_disk_intr\<close>

text \<open>
  The loop runs once for each entry of the used ring the driver has not seen; the counters are
  16-bit and wrap.
\<close>

primrec intr_loop :: "nat \<Rightarrow> 'a virtio_scheme \<Rightarrow> (unit, 'a virtio_scheme) res" where
  "intr_loop 0 s = Ok () s"
| "intr_loop (Suc n) s =
     (let i = unat (vd_used_ring s ! (unat (vd_looked s) mod NUM)) in
      if NUM \<le> i then Undef
      else if vd_info_status s ! i \<noteq> 0 then Panic ''virtio_disk_intr status''
      else case vd_info_b s ! i of None \<Rightarrow> Undef
        | Some b \<Rightarrow>
            seq (wakeup (ChBuf b) (b_upd b (\<lambda>x. x\<lparr>b_disk := False\<rparr>) s)) (\<lambda>_ s.
            intr_loop n (s\<lparr>vd_looked := vd_looked s + 1\<rparr>)))"

definition virtio_disk_intr :: "'a virtio_scheme \<Rightarrow> (unit, 'a virtio_scheme) res" where
  "virtio_disk_intr s =
     seq (acquire LVdisk s) (\<lambda>_ s.
     let s = R_write VIRTIO_MMIO_INTERRUPT_ACK (R_read VIRTIO_MMIO_INTERRUPT_STATUS s AND 3) s in
     seq (intr_loop (unat (vd_used_idx s - vd_looked s)) s) (\<lambda>_ s.
     release LVdisk s))"

section \<open>Contracts of the pieces\<close>

lemma free_desc_eq:
  assumes "i < NUM" "\<not> vd_free s ! i" "mach_ok (mach s)" "proclocks_free (mach s)" "length (procs s) = NPROC"
  shows "free_desc i s = Ok () (s\<lparr>vd_desc := (vd_desc s)[i := zero_desc], vd_free := (vd_free s)[i := True],
    mach := norm (mach s), procs := woken ChDisk (myproc s) (procs s)\<rparr>)"
  using assms wakeup_eq[of "s\<lparr>vd_desc := (vd_desc s)[i := zero_desc], vd_free := (vd_free s)[i := True]\<rparr>" ChDisk]
  by (simp add: free_desc_def myproc_def)

text \<open>What a chain of three descriptors, from header to status, leaves when it is freed.\<close>

definition chain3 :: "nat \<Rightarrow> nat \<Rightarrow> nat \<Rightarrow> 'a virtio_scheme \<Rightarrow> bool" where
  "chain3 i j k s \<longleftrightarrow> distinct [i, j, k] \<and> i < NUM \<and> j < NUM \<and> k < NUM \<and> length (vd_free s) = NUM \<and>
     \<not> vd_free s ! i \<and> \<not> vd_free s ! j \<and> \<not> vd_free s ! k \<and>
     d_flags (vd_desc s ! i) AND VRING_DESC_F_NEXT \<noteq> 0 \<and> d_next (vd_desc s ! i) = of_nat j \<and>
     d_flags (vd_desc s ! j) AND VRING_DESC_F_NEXT \<noteq> 0 \<and> d_next (vd_desc s ! j) = of_nat k \<and>
     d_flags (vd_desc s ! k) AND VRING_DESC_F_NEXT = 0"

text \<open>The fields of the driver and of the disk that freeing descriptors leaves alone.\<close>

definition io_same :: "'a virtio_scheme \<Rightarrow> 'a virtio_scheme \<Rightarrow> bool" where
  "io_same s t \<longleftrightarrow> disk t = disk s \<and> bufs t = bufs s \<and> dlog t = dlog s \<and> vd_avail_idx t = vd_avail_idx s \<and>
     vd_avail_ring t = vd_avail_ring s \<and> vd_used_idx t = vd_used_idx s \<and> vd_used_ring t = vd_used_ring s \<and>
     vd_looked t = vd_looked s \<and> vd_info_b t = vd_info_b s \<and> vd_info_status t = vd_info_status s \<and>
     vd_ops t = vd_ops s"

lemma unat_small: "i < NUM \<Longrightarrow> unat (of_nat i :: ushort) = i" "i < NUM \<Longrightarrow> unat (of_nat i :: uint) = i"
  by (simp_all add: params unat_of_nat take_bit_nat_eq_self)

lemma free_chain3:
  fixes s :: "'a virtio_scheme"
  assumes "chain3 i j k s" "mach_ok (mach s)" "proclocks_free (mach s)" "length (procs s) = NPROC"
  shows "\<exists>t. free_chain i s = Ok () t \<and> io_same s t \<and> vd_free t = (vd_free s)[i := True, j := True, k := True] \<and>
    length (vd_desc t) = length (vd_desc s) \<and> mach t = norm (mach s) \<and> length (procs t) = NPROC"
proof -
  let ?u = "\<lambda>i s. s\<lparr>vd_desc := (vd_desc s)[i := zero_desc], vd_free := (vd_free s)[i := True],
    mach := norm (mach s), procs := woken ChDisk (myproc s) (procs s)\<rparr>"
  have len: "length (vd_free s) = NUM" and idx: "i < NUM" "j < NUM" "k < NUM" "distinct [i, j, k]"
    using assms(1) by (auto simp: chain3_def)
  have step: "free_chain_n (Suc n) a u = (if d_flags (vd_desc u ! a) AND VRING_DESC_F_NEXT \<noteq> 0
      then free_chain_n n (unat (d_next (vd_desc u ! a))) (?u a u) else Ok () (?u a u))"
    if "a < NUM" "\<not> vd_free u ! a" "mach_ok (mach u)" "proclocks_free (mach u)" "length (procs u) = NPROC"
    for n a and u :: "'a virtio_scheme"
    using that by (simp add: free_desc_eq Let_def)
  have "NUM + 1 = Suc (Suc (Suc 6))" by (simp add: params)
  then have "free_chain i s = free_chain_n (Suc (Suc 6)) j (?u i s)"
    using assms step[of i s "Suc (Suc 6)"] idx unat_small(1)[of j] by (simp add: free_chain_def chain3_def)
  also have "\<dots> = free_chain_n (Suc 6) k (?u j (?u i s))"
    using assms step[of j "?u i s" "Suc 6"] idx unat_small(1)[of k] by (simp add: chain3_def)
  also have "\<dots> = Ok () (?u k (?u j (?u i s)))"
    using assms step[of k "?u j (?u i s)" 6] idx by (simp add: chain3_def)
  finally show ?thesis
    using assms(2,4) by (simp add: io_same_def)
qed

lemma alloc3_fresh:
  assumes "vd_free s = replicate NUM True"
  shows "alloc3_desc s = Ok (Some [0, 1, 2]) (s\<lparr>vd_free := [False, False, False] @ replicate 5 True\<rparr>)"
  using assms by (simp add: alloc3_desc_def numeral_3_eq_3 alloc_desc_def params upt_rec)
    (simp add: numeral_eq_Suc)

text \<open>The driver has no request in flight.\<close>

definition vd_idle :: "'a virtio_scheme \<Rightarrow> bool" where
  "vd_idle s \<longleftrightarrow> length (vd_desc s) = NUM \<and> length (vd_avail_ring s) = NUM \<and> length (vd_used_ring s) = NUM \<and>
     length (vd_info_b s) = NUM \<and> length (vd_info_status s) = NUM \<and> length (vd_ops s) = NUM \<and>
     vd_free s = replicate NUM True \<and> vd_looked s = vd_used_idx s \<and> vd_avail_idx s = vd_used_idx s"

text \<open>
  The medium as a device sees it, a sequence of bytes: byte \<open>p\<close> is in block \<open>p div BSIZE\<close>.  \<open>medium_load\<close> reads
  \<open>n\<close> bytes at \<open>a\<close>; \<open>medium_store\<close> writes the bytes \<open>d\<close> there; \<open>touched\<close> are the blocks that have a byte in
  the range.
\<close>

definition medium_load :: "nat \<Rightarrow> nat \<Rightarrow> (nat \<Rightarrow> byte list) \<Rightarrow> byte list" where
  "medium_load a n D = map (\<lambda>p. D (p div BSIZE) ! (p mod BSIZE)) [a..<a + n]"

definition medium_store :: "nat \<Rightarrow> byte list \<Rightarrow> (nat \<Rightarrow> byte list) \<Rightarrow> nat \<Rightarrow> byte list" where
  "medium_store a d D k =
     map (\<lambda>i. if a \<le> k * BSIZE + i \<and> k * BSIZE + i < a + length d then d ! (k * BSIZE + i - a) else D k ! i) [0..<BSIZE]"

definition touched :: "nat \<Rightarrow> nat \<Rightarrow> nat list" where
  "touched a n = [a div BSIZE..<(a + n + BSIZE - 1) div BSIZE]"

text \<open>
  What sections 2.7 and 5.2 of the virtio specification say of a device.  The last register write
  was the notification of queue 0, made when the available ring held one new entry: the head of a
  chain of a 16-byte header, which names the sector, \<open>n\<close> bytes of data, a multiple of 512, that the
  device writes to exactly if it is a read, and a status byte.
\<close>

definition request :: "'a virtio_scheme \<Rightarrow> nat \<Rightarrow> nat \<Rightarrow> nat \<Rightarrow> nat \<Rightarrow> nat \<Rightarrow> bool" where
  "request s h q b n st \<longleftrightarrow>
     (let d0 = vd_desc s ! h; d1 = vd_desc s ! unat (d_next d0); d2 = vd_desc s ! unat (d_next d1) in
      vd_regs s \<noteq> [] \<and> last (vd_regs s) = (VIRTIO_MMIO_QUEUE_NOTIFY, 0, vd_avail_idx s) \<and>
      vd_avail_idx s = vd_used_idx s + 1 \<and> vd_avail_ring s ! (unat (vd_used_idx s) mod NUM) = of_nat h \<and>
      h < NUM \<and> d_addr d0 = DmaOp q \<and> d_len d0 = 16 \<and> d_flags d0 = VRING_DESC_F_NEXT \<and> rq_reserved (vd_ops s ! q) = 0 \<and>
      rq_type (vd_ops s ! q) \<in> {VIRTIO_BLK_T_IN, VIRTIO_BLK_T_OUT} \<and>
      d_addr d1 = DmaData b \<and> unat (d_len d1) = n \<and> 512 dvd n \<and> n \<le> length (b_data (bufs s b)) \<and>
      d_flags d1 = (if rq_type (vd_ops s ! q) = VIRTIO_BLK_T_OUT then 0 else VRING_DESC_F_WRITE) OR VRING_DESC_F_NEXT \<and>
      d_addr d2 = DmaStatus st \<and> d_len d2 = 1 \<and> d_flags d2 = VRING_DESC_F_WRITE)"

text \<open>
  A device of \<open>cap\<close> sectors that serves such a request within its capacity: a write stores the data at
  the sector of the header, a read fills the data from there; then the status is 0 and the head is
  in the used ring.
\<close>

definition virtio_blk_device :: "nat \<Rightarrow> ('a virtio_scheme \<Rightarrow> 'a virtio_scheme) \<Rightarrow> bool" where
  "virtio_blk_device cap dev \<longleftrightarrow>
     (\<forall>s h q b n st. request s h q b n st \<longrightarrow> unat (rq_sector (vd_ops s ! q)) + n div 512 \<le> cap \<longrightarrow>
        (let a = unat (rq_sector (vd_ops s ! q)) * 512;
             D = medium_store a (take n (b_data (bufs s b))) (disk s);
             t = (if rq_type (vd_ops s ! q) = VIRTIO_BLK_T_OUT
                  then s\<lparr>disk := D, dlog := dlog s @ map (\<lambda>k. (k, D k)) (touched a n)\<rparr>
                  else b_upd b (b_data_update (\<lambda>d. medium_load a n (disk s) @ drop n d)) s)
         in dev s = t\<lparr>vd_info_status := (vd_info_status s)[st := 0],
              vd_used_ring := (vd_used_ring s)[unat (vd_used_idx s) mod NUM := of_nat h],
              vd_used_idx := vd_used_idx s + 1\<rparr>))"

text \<open>A transfer of one whole block.\<close>

lemma block_transfer:
  assumes "length d = BSIZE" "\<And>k. length (D k) = BSIZE"
  shows "medium_store (k * BSIZE) d D = D(k := d)" "medium_load (k * BSIZE) BSIZE D = D k" "touched (k * BSIZE) BSIZE = [k]"
proof -
  have B: "0 < BSIZE" by (simp add: BSIZE_def)
  show "medium_store (k * BSIZE) d D = D(k := d)"
  proof
    fix j
    have "medium_store (k * BSIZE) d D j ! i = (D(k := d)) j ! i" if i: "i < BSIZE" for i
    proof -
      have "k * BSIZE \<le> j * BSIZE + i \<and> j * BSIZE + i < k * BSIZE + BSIZE \<longleftrightarrow> (j * BSIZE + i) div BSIZE = k"
        using B by (metis div_nat_eqI dividend_less_times_div mult.commute mult_Suc_right add.commute
            times_div_less_eq_dividend)
      also have "(j * BSIZE + i) div BSIZE = j" using i by simp
      finally show ?thesis using i assms(1) by (auto simp: medium_store_def)
    qed
    then show "medium_store (k * BSIZE) d D j = (D(k := d)) j"
      using assms by (intro nth_equalityI) (auto simp: medium_store_def)
  qed
  show "medium_load (k * BSIZE) BSIZE D = D k"
    using assms(2) B by (intro nth_equalityI) (simp_all add: medium_load_def)
  have "k * BSIZE + BSIZE + BSIZE - 1 = Suc k * BSIZE + (BSIZE - 1)" by (simp add: BSIZE_def)
  then have "(k * BSIZE + BSIZE + BSIZE - 1) div BSIZE = Suc k" using B by (simp only: div_mult_self3 div_less)
  then show "touched (k * BSIZE) BSIZE = [k]" using B by (simp add: touched_def)
qed

lemma intr_one:
  assumes "unat (vd_used_ring s ! (unat (vd_looked s) mod NUM)) = i" "i < NUM" "vd_used_idx s = vd_looked s + 1"
    and "vd_info_status s ! i = 0" "vd_info_b s ! i = Some b"
    and "mach_ok (mach s)" "lock_free LVdisk (mach s)" "proclocks_free (mach s)" "length (procs s) = NPROC"
  shows "\<exists>t. virtio_disk_intr s = Ok () t \<and> mach t = norm (mach s) \<and>
    procs t = woken (ChBuf b) (myproc s) (procs s) \<and> vd_looked t = vd_used_idx s \<and>
    vd_free t = vd_free s \<and> vd_desc t = vd_desc s \<and>
    io_same (b_upd b (\<lambda>x. x\<lparr>b_disk := False\<rparr>) s\<lparr>vd_looked := vd_used_idx s\<rparr>) t"
proof -
  let ?s1 = "s\<lparr>mach := entered LVdisk (mach s)\<rparr>"
  let ?s2 = "R_write VIRTIO_MMIO_INTERRUPT_ACK (R_read VIRTIO_MMIO_INTERRUPT_STATUS ?s1 AND 3) ?s1"
  let ?s3 = "b_upd b (\<lambda>x. x\<lparr>b_disk := False\<rparr>) ?s2"
  let ?s4 = "?s3\<lparr>mach := entered LVdisk (mach s), procs := woken (ChBuf b) (myproc s) (procs s)\<rparr>"
  let ?s5 = "?s4\<lparr>vd_looked := vd_looked s + 1\<rparr>"
  have "unat (vd_used_idx ?s2 - vd_looked ?s2) = Suc 0"
    using assms(3) by (simp add: R_write_def)
  moreover have "wakeup (ChBuf b) ?s3 = Ok () ?s4"
    using wakeup_eq[of ?s3 "ChBuf b"] assms(6-9) by (simp add: R_write_def b_upd_def myproc_def)
  then have "intr_loop (Suc 0) ?s2 = Ok () ?s5"
    using assms(1,2,4,5) by (simp add: R_write_def b_upd_def Let_def)
  moreover have "release LVdisk ?s5 = Ok () (?s5\<lparr>mach := norm (mach s)\<rparr>)"
    using assms(6,7) by (intro release_entered) auto
  ultimately have "virtio_disk_intr s = Ok () (?s5\<lparr>mach := norm (mach s)\<rparr>)"
    using assms(7) by (simp add: virtio_disk_intr_def acquire_free Let_def del: intr_loop.simps)
  then show ?thesis using assms(3) by (simp add: io_same_def R_write_def b_upd_def)
qed

lemma rw_submit_fields [simp]:
  "mach (rw_submit b w idx s) = mach s" "procs (rw_submit b w idx s) = procs s"
  "disk (rw_submit b w idx s) = disk s" "dlog (rw_submit b w idx s) = dlog s"
  "bufs (rw_submit b w idx s) = (bufs s)(b := (bufs s b)\<lparr>b_disk := True\<rparr>)"
  "vd_free (rw_submit b w idx s) = vd_free s" "vd_used_idx (rw_submit b w idx s) = vd_used_idx s"
  "vd_used_ring (rw_submit b w idx s) = vd_used_ring s" "vd_looked (rw_submit b w idx s) = vd_looked s"
  "vd_avail_idx (rw_submit b w idx s) = vd_avail_idx s + 1"
  "length (vd_desc (rw_submit b w idx s)) = length (vd_desc s)"
  "length (vd_avail_ring (rw_submit b w idx s)) = length (vd_avail_ring s)"
  "length (vd_info_b (rw_submit b w idx s)) = length (vd_info_b s)"
  "length (vd_info_status (rw_submit b w idx s)) = length (vd_info_status s)"
  "length (vd_ops (rw_submit b w idx s)) = length (vd_ops s)"
  by (simp_all add: rw_submit_def Let_def R_write_def b_upd_def)

lemma rw_submit_request:
  fixes w :: bool
  assumes "length (vd_desc s) = NUM" "length (vd_avail_ring s) = NUM" "length (vd_info_b s) = NUM"
    "length (vd_info_status s) = NUM" "length (vd_ops s) = NUM" "vd_avail_idx s = vd_used_idx s"
    and "vd_free s = [False, False, False] @ replicate 5 True" "b_blockno (bufs s b) < 2 ^ 31"
    "length (b_data (bufs s b)) = BSIZE"
  defines "t \<equiv> rw_submit b w [0, 1, 2] s"
  shows "request t 0 0 b BSIZE 0" "chain3 0 1 2 t" "vd_info_b t ! 0 = Some b"
    "rq_type (vd_ops t ! 0) = (if w then VIRTIO_BLK_T_OUT else VIRTIO_BLK_T_IN)"
    "unat (rq_sector (vd_ops t ! 0)) = b_blockno (bufs s b) * 2"
proof -
  have t: "t = rw_submit b w [0, 1, 2] s" by (simp add: t_def)
  note d = rw_submit_def Let_def R_write_def b_upd_def
  have desc: "vd_desc t ! 0 = \<lparr>d_addr = DmaOp 0, d_len = 16, d_flags = VRING_DESC_F_NEXT, d_next = 1\<rparr>"
    "vd_desc t ! 1 = \<lparr>d_addr = DmaData b, d_len = of_nat BSIZE,
       d_flags = (if w then 0 else VRING_DESC_F_WRITE) OR VRING_DESC_F_NEXT, d_next = 2\<rparr>"
    "vd_desc t ! 2 = \<lparr>d_addr = DmaStatus 0, d_len = 1, d_flags = VRING_DESC_F_WRITE, d_next = 0\<rparr>"
    using assms(1) by (simp_all add: t d params)
  have op: "vd_ops t ! 0 = \<lparr>rq_type = (if w then VIRTIO_BLK_T_OUT else VIRTIO_BLK_T_IN), rq_reserved = 0,
      rq_sector = ucast ((of_nat (b_blockno (bufs s b)) :: uint) * 2)\<rparr>"
    using assms(5) by (simp add: t d params)
  have "vd_avail_ring t ! (unat (vd_used_idx t) mod NUM) = 0"
    using assms(2,6) by (simp add: t d params)
  moreover have "vd_regs t = vd_regs s @ [(VIRTIO_MMIO_QUEUE_NOTIFY, 0, vd_avail_idx t)]" by (simp add: t d)
  ultimately show "request t 0 0 b BSIZE 0"
    using desc op assms(6,9) by (simp add: request_def Let_def) (simp add: t params)
  show "chain3 0 1 2 t"
    using desc assms(7) by (simp add: chain3_def) (simp add: t params)
  show "vd_info_b t ! 0 = Some b" using assms(3) by (simp add: t d params)
  show "rq_type (vd_ops t ! 0) = (if w then VIRTIO_BLK_T_OUT else VIRTIO_BLK_T_IN)" by (simp add: op)
  have "unat ((of_nat (b_blockno (bufs s b)) :: uint) * 2) = b_blockno (bufs s b) * 2"
    using assms(8) by (simp add: unat_mult_lem[THEN iffD1] unat_of_nat take_bit_nat_eq_self)
  then show "unat (rq_sector (vd_ops t ! 0)) = b_blockno (bufs s b) * 2"
    using assms(8) by (simp add: op unsigned_ucast_eq take_bit_nat_eq_self)
qed

text \<open>The scheduler runs a RUNNABLE sleeper, and its \<open>sleep\<close> returns.\<close>

lemma scheduler_resumes_sleeper:
  assumes "mach_ok (mach s)" "noff (mycpu (mach s)) = 0" "lock_free (LProc p) (mach s)" "lock_free lk (mach s)"
    and "p < length (procs s)" "p_state (procs s ! p) = RUNNABLE"
  shows "\<exists>s4. scheduler_visit p s = Away s4 \<and> sleep_resume p lk (sched_resume ie s4) =
    Ok () (s\<lparr>mach := entered lk (set_intr ie (with_proc (Some p) (mach s))),
      procs := (procs s)[p := (procs s ! p)\<lparr>p_state := RUNNING, p_chan := ChNone\<rparr>]\<rparr>)"
proof -
  let ?m = "with_proc (Some p) (mach s)"
  let ?s4 = "s\<lparr>mach := entered (LProc p) ?m, procs := (procs s)[p := (procs s ! p)\<lparr>p_state := RUNNING\<rparr>]\<rparr>"
  have "scheduler_visit p s = Away ?s4"
    using scheduler_visit_eq[of s p] assms by simp
  moreover have "sched_resume ie ?s4 = ?s4\<lparr>mach := entered (LProc p) (set_intr ie ?m)\<rparr>"
    using assms(2) by (simp add: sched_resume_def intena_entered)
  moreover have "mach_ok (set_intr ie ?m)" using assms(2) by (simp add: mach_ok_def)
  ultimately show ?thesis
    using sleep_resume_eq[of "?s4\<lparr>mach := entered (LProc p) (set_intr ie ?m)\<rparr>" p "set_intr ie ?m" lk] assms
    by simp
qed

text \<open>The three parts of a transfer: up to the sleep, the device, and after the sleep.\<close>

definition submitted :: "nat \<Rightarrow> bool \<Rightarrow> 'a virtio_scheme \<Rightarrow> 'a virtio_scheme" where
  "submitted b w s = rw_submit b w [0, 1, 2]
     (s\<lparr>mach := entered LVdisk (mach s), vd_free := [False, False, False] @ replicate 5 True\<rparr>)"

definition waiting :: "nat \<Rightarrow> nat \<Rightarrow> proc list \<Rightarrow> proc list" where
  "waiting b p ps = ps[p := (ps ! p)\<lparr>p_chan := ChBuf b, p_state := SLEEPING\<rparr>]"

lemma rw_sleeps:
  fixes w :: bool and b :: nat
  assumes "vd_idle s" "quiet (mach s)" "noff (mycpu (mach s)) = 0" "myproc s = Some p" "p < length (procs s)"
  defines "t \<equiv> submitted b w s"
  shows "virtio_disk_rw b w s = Away (t\<lparr>mach := entered (LProc p) (mach s), procs := waiting b p (procs s)\<rparr>)"
proof -
  let ?a = "s\<lparr>mach := entered LVdisk (mach s), vd_free := [False, False, False] @ replicate 5 True\<rparr>"
  have ok: "mach_ok (mach s)" "\<And>l. lock_free l (mach s)" using assms(2) by (auto simp: quiet_def)
  have t: "t = rw_submit b w [0, 1, 2] ?a" by (simp add: t_def submitted_def)
  have "alloc3_desc (s\<lparr>mach := entered LVdisk (mach s)\<rparr>) = Ok (Some [0, 1, 2]) ?a"
    using alloc3_fresh[of "s\<lparr>mach := entered LVdisk (mach s)\<rparr>"] assms(1) by (simp add: vd_idle_def)
  moreover have "sleep (ChBuf b) LVdisk t = Away (t\<lparr>mach := entered (LProc p) (mach s), procs := waiting b p (procs s)\<rparr>)"
    using sleep_eq[of t LVdisk "mach s" p "ChBuf b"] ok assms by (simp add: t myproc_def waiting_def)
  ultimately show ?thesis
    using ok by (simp add: virtio_disk_rw_def acquire_free rw_start_def rw_wait_def t)
qed

lemma submitted_request:
  assumes "vd_idle s" "b_blockno (bufs s b) < 2 ^ 31" "length (b_data (bufs s b)) = BSIZE"
  shows "request (submitted b w s) 0 0 b BSIZE 0" "chain3 0 1 2 (submitted b w s)" "vd_info_b (submitted b w s) ! 0 = Some b"
    "rq_type (vd_ops (submitted b w s) ! 0) = (if w then VIRTIO_BLK_T_OUT else VIRTIO_BLK_T_IN)"
    "unat (rq_sector (vd_ops (submitted b w s) ! 0)) = b_blockno (bufs s b) * 2"
  using rw_submit_request[of "s\<lparr>mach := entered LVdisk (mach s), vd_free := [False, False, False] @ replicate 5 True\<rparr>" b w]
    assms by (simp_all add: submitted_def vd_idle_def)

lemma device_serves:
  fixes w :: bool and m :: mach and ps :: "proc list"
  assumes "vd_idle s" "b_blockno (bufs s b) < 2 ^ 31" "length (b_data (bufs s b)) = BSIZE"
    and "\<And>k. length (disk s k) = BSIZE" "b_blockno (bufs s b) * 2 + 2 \<le> cap" "virtio_blk_device cap dev"
  defines "t \<equiv> submitted b w s"
  defines "u \<equiv> dev (t\<lparr>mach := m, procs := ps\<rparr>)"
  shows "mach u = m" "procs u = ps" "vd_free u = vd_free t" "vd_desc u = vd_desc t" "vd_info_b u = vd_info_b t"
    "vd_info_status u = (vd_info_status t)[0 := 0]"
    "vd_used_idx u = vd_used_idx s + 1" "vd_looked u = vd_used_idx s" "vd_avail_idx u = vd_used_idx s + 1"
    "vd_used_ring u = (vd_used_ring s)[unat (vd_used_idx s) mod NUM := 0]"
    "vd_avail_ring u = vd_avail_ring t" "vd_ops u = vd_ops t"
    "bufs u = (bufs s)(b := (bufs (disk_rw b w s) b)\<lparr>b_disk := True\<rparr>)"
    "disk u = disk (disk_rw b w s)" "dlog u = dlog (disk_rw b w s)"
proof -
  note r = submitted_request[OF assms(1-3), of w, folded t_def]
  have rq: "request (t\<lparr>mach := m, procs := ps\<rparr>) 0 0 b BSIZE 0" using r(1) by (simp add: request_def)
  have cp: "unat (rq_sector (vd_ops (t\<lparr>mach := m, procs := ps\<rparr>) ! 0)) + BSIZE div 512 \<le> cap"
    using r(5) assms(5) by (simp add: BSIZE_def)
  have d: "u = (let s = t\<lparr>mach := m, procs := ps\<rparr>; a = unat (rq_sector (vd_ops s ! 0)) * 512;
       D = medium_store a (take BSIZE (b_data (bufs s b))) (disk s);
       v = (if rq_type (vd_ops s ! 0) = VIRTIO_BLK_T_OUT then s\<lparr>disk := D, dlog := dlog s @ map (\<lambda>k. (k, D k)) (touched a BSIZE)\<rparr>
            else b_upd b (b_data_update (\<lambda>d. medium_load a BSIZE (disk s) @ drop BSIZE d)) s)
     in v\<lparr>vd_info_status := (vd_info_status s)[0 := 0],
          vd_used_ring := (vd_used_ring s)[unat (vd_used_idx s) mod NUM := of_nat 0], vd_used_idx := vd_used_idx s + 1\<rparr>)"
    unfolding u_def Let_def by (rule assms(6)[unfolded virtio_blk_device_def Let_def, rule_format, OF rq cp])
  have tf: "disk t = disk s" "dlog t = dlog s" "bufs t = (bufs s)(b := (bufs s b)\<lparr>b_disk := True\<rparr>)"
    "vd_used_idx t = vd_used_idx s" "vd_used_ring t = vd_used_ring s" "vd_looked t = vd_used_idx s"
    "vd_avail_idx t = vd_used_idx s + 1"
    using assms(1) by (simp_all add: t_def submitted_def vd_idle_def)
  have a: "unat (rq_sector (vd_ops t ! 0)) * 512 = b_blockno (bufs s b) * BSIZE" using r(5) by (simp add: BSIZE_def)
  have rt: "rq_type (vd_ops t ! 0) = VIRTIO_BLK_T_OUT \<longleftrightarrow> w" using r(4) by (simp add: params)
  note bt = block_transfer[OF assms(3,4), of "b_blockno (bufs s b)"]
  let ?k = "b_blockno (bufs s b)" and ?f = "\<lambda>v. v\<lparr>vd_info_status := (vd_info_status t)[0 := 0],
    vd_used_ring := (vd_used_ring s)[unat (vd_used_idx s) mod NUM := 0], vd_used_idx := vd_used_idx s + 1\<rparr>"
  have u1: "u = ?f (t\<lparr>mach := m, procs := ps, disk := (disk s)(?k := b_data (bufs s b)),
      dlog := dlog s @ [(?k, b_data (bufs s b))]\<rparr>)" if w
    unfolding d Let_def using that by (simp add: rt) (simp add: tf a bt assms(3))
  have bu: "b_data_update (\<lambda>d. X @ drop BSIZE d) ((bufs s b)\<lparr>b_disk := True\<rparr>) = (bufs s b)\<lparr>b_data := X, b_disk := True\<rparr>" for X
    using assms(3) by (cases "bufs s b") simp
  have u0: "u = ?f (t\<lparr>mach := m, procs := ps, bufs := (bufs s)(b := (bufs s b)\<lparr>b_data := disk s ?k, b_disk := True\<rparr>)\<rparr>)" if "\<not> w"
    unfolding d Let_def using that by (simp add: rt) (simp add: tf a bt bu b_upd_def)
  have "mach u = m \<and> procs u = ps \<and> vd_free u = vd_free t \<and> vd_desc u = vd_desc t \<and> vd_info_b u = vd_info_b t \<and>
    vd_info_status u = (vd_info_status t)[0 := 0] \<and>
    vd_used_idx u = vd_used_idx s + 1 \<and> vd_looked u = vd_used_idx s \<and> vd_avail_idx u = vd_used_idx s + 1 \<and>
    vd_used_ring u = (vd_used_ring s)[unat (vd_used_idx s) mod NUM := 0] \<and>
    vd_avail_ring u = vd_avail_ring t \<and> vd_ops u = vd_ops t \<and>
    bufs u = (bufs s)(b := (bufs (disk_rw b w s) b)\<lparr>b_disk := True\<rparr>) \<and>
    disk u = disk (disk_rw b w s) \<and> dlog u = dlog (disk_rw b w s)"
  proof (cases w)
    case True
    then show ?thesis unfolding u1[OF True] by (simp add: tf disk_rw_def Let_def)
  next
    case False
    then show ?thesis unfolding u0[OF False] by (simp add: tf disk_rw_def Let_def b_upd_def)
  qed
  then show "mach u = m" "procs u = ps" "vd_free u = vd_free t" "vd_desc u = vd_desc t" "vd_info_b u = vd_info_b t"
    "vd_info_status u = (vd_info_status t)[0 := 0]"
    "vd_used_idx u = vd_used_idx s + 1" "vd_looked u = vd_used_idx s" "vd_avail_idx u = vd_used_idx s + 1"
    "vd_used_ring u = (vd_used_ring s)[unat (vd_used_idx s) mod NUM := 0]"
    "vd_avail_ring u = vd_avail_ring t" "vd_ops u = vd_ops t"
    "bufs u = (bufs s)(b := (bufs (disk_rw b w s) b)\<lparr>b_disk := True\<rparr>)"
    "disk u = disk (disk_rw b w s)" "dlog u = dlog (disk_rw b w s)"
    by blast+
qed

lemma rw_finishes:
  assumes "mach s = entered LVdisk m" "quiet m" "chain3 0 1 2 s" "\<not> b_disk (bufs s b)" "length (procs s) = NPROC"
  shows "\<exists>t. rw_wait b 0 s = Ok () t \<and> io_same (s\<lparr>vd_info_b := (vd_info_b s)[0 := None]\<rparr>) t \<and>
    vd_free t = (vd_free s)[0 := True, 1 := True, 2 := True] \<and> length (vd_desc t) = length (vd_desc s) \<and>
    mach t = norm m"
proof -
  have m: "mach_ok m" "\<And>l. lock_free l m" using assms(2) by (auto simp: quiet_def)
  let ?s = "s\<lparr>vd_info_b := (vd_info_b s)[0 := None]\<rparr>"
  have "chain3 0 1 2 ?s" using assms(3) by (simp add: chain3_def)
  then obtain u where u: "free_chain 0 ?s = Ok () u" "io_same ?s u"
      "vd_free u = (vd_free s)[0 := True, 1 := True, 2 := True]" "length (vd_desc u) = length (vd_desc s)"
      "mach u = entered LVdisk m"
    using free_chain3[of 0 1 2 ?s] m assms by (auto simp: proclocks_free_def)
  then show ?thesis
    using assms(4) release_entered[OF u(5) m] by (simp add: rw_wait_def io_same_def)
qed

text \<open>
  C4: the driver implements the disk.  With no request in flight, \<open>virtio_disk_rw\<close> hands the device
  a request for a block within its capacity, notifies it and sleeps; the scheduler gets the CPU;
  whenever the device (any function that, once notified, transfers the bytes at the request's 512-byte
  sector as the virtio specification says) has served the request and \<open>virtio_disk_intr\<close> has
  run, the scheduler resumes the process, and \<open>virtio_disk_rw\<close> returns with the disk and the
  buffers as the single atomic transfer \<open>disk_rw\<close> would leave them, every descriptor free again,
  no lock held and interrupts as before.
\<close>

theorem virtio_refines_disk_rw:
  assumes idle: "vd_idle s" and q: "quiet (mach s)" and n0: "noff (mycpu (mach s)) = 0"
    and me: "myproc s = Some p" and p: "p < NPROC" and np: "length (procs s) = NPROC"
    and b: "\<not> b_disk (bufs s b)" "b_blockno (bufs s b) < 2 ^ 31" "length (b_data (bufs s b)) = BSIZE"
    and blocks: "\<forall>k. length (disk s k) = BSIZE"
    and dev: "virtio_blk_device cap dev" "b_blockno (bufs s b) * 2 + 2 \<le> cap"
  shows "\<exists>s1 s2 s3 s4 s5 s6.
    virtio_disk_rw b w s = Away s1 \<and> scheduler_back p s1 = Ok () s2 \<and>
    virtio_disk_intr (dev s2) = Ok () s3 \<and> scheduler_visit p s3 = Away s4 \<and>
    sleep_resume p LVdisk (sched_resume (intena (mycpu (mach s1))) s4) = Ok () s5 \<and>
    rw_wait b 0 s5 = Ok () s6 \<and>
    disk s6 = disk (disk_rw b w s) \<and> bufs s6 = bufs (disk_rw b w s) \<and> dlog s6 = dlog (disk_rw b w s) \<and>
    vd_idle s6 \<and> myproc s6 = Some p \<and> quiet (mach s6) \<and> intr_get (mach s6) = intr_get (mach s)"
proof -
  have ok: "mach_ok (mach s)" "\<And>l. lock_free l (mach s)" using q by (auto simp: quiet_def)
  let ?t = "submitted b w s" and ?P = "waiting b p (procs s)" and ?m2 = "norm (with_proc None (mach s))"
  let ?s1 = "?t\<lparr>mach := entered (LProc p) (mach s), procs := ?P\<rparr>" and ?s2 = "?t\<lparr>mach := ?m2, procs := ?P\<rparr>"
  note s1 = rw_sleeps[OF idle q n0 me p[folded np], of b w]
  have s2: "scheduler_back p ?s1 = Ok () ?s2"
    using scheduler_back_eq[of ?s1 p "mach s"] ok by simp
  note c = submitted_request(2,3)[OF idle b(2,3), of w]
  note d = device_serves[OF idle b(2,3) blocks[rule_format] dev(2,1), where w = w and m = ?m2 and ps = ?P]
  have len: "length (vd_info_status ?t) = NUM" "length (vd_used_ring s) = NUM" "0 < NUM" "length ?P = NPROC"
    using idle np by (simp_all add: submitted_def vd_idle_def params waiting_def)
  then obtain s3 where s3: "virtio_disk_intr (dev ?s2) = Ok () s3" "mach s3 = ?m2"
      "procs s3 = woken (ChBuf b) None ?P" "vd_looked s3 = vd_used_idx s + 1" "vd_free s3 = vd_free ?t"
      "vd_desc s3 = vd_desc ?t" "io_same (b_upd b (\<lambda>x. x\<lparr>b_disk := False\<rparr>) (dev ?s2)\<lparr>vd_looked := vd_used_idx s + 1\<rparr>) s3"
    using intr_one[of "dev ?s2" 0 b] d(1-10) c len ok by (auto simp: proclocks_free_def myproc_def)
  let ?ie = "intena (mycpu (mach ?s1))" and ?m4 = "with_proc (Some p) ?m2"
  have "p_state (procs s3 ! p) = RUNNABLE" using s3(3) p np by (simp add: wake1_def waiting_def)
  then obtain s4 where s4: "scheduler_visit p s3 = Away s4"
    "sleep_resume p LVdisk (sched_resume ?ie s4) = Ok () (s3\<lparr>mach := entered LVdisk (set_intr ?ie ?m4),
       procs := (procs s3)[p := (procs s3 ! p)\<lparr>p_state := RUNNING, p_chan := ChNone\<rparr>]\<rparr>)" (is "_ = Ok () ?s5")
    using scheduler_resumes_sleeper[of s3 p LVdisk ?ie] s3(2,3) ok n0 p len by auto
  have m5: "quiet (set_intr ?ie ?m4)" using ok n0 by (simp add: quiet_def mach_ok_def)
  have "\<not> b_disk (bufs ?s5 b)" "chain3 0 1 2 ?s5" "length (procs ?s5) = NPROC"
    using s3(3,5-7) c(1) len by (simp_all add: io_same_def b_upd_def chain3_def)
  then obtain s6 where s6: "rw_wait b 0 ?s5 = Ok () s6" "io_same (?s5\<lparr>vd_info_b := (vd_info_b ?s5)[0 := None]\<rparr>) s6"
      "vd_free s6 = (vd_free ?t)[0 := True, 1 := True, 2 := True]" "length (vd_desc s6) = length (vd_desc ?t)"
      "mach s6 = norm (set_intr ?ie ?m4)"
    using rw_finishes[of ?s5 "set_intr ?ie ?m4" b] m5 s3(5,6) by auto
  have free: "vd_free s6 = replicate NUM True"
    unfolding s6(3) by (simp add: submitted_def params numeral_eq_Suc)
  have "vd_idle s6"
    unfolding vd_idle_def using s6(2,4) s3(7) d(5-12) len idle free
    by (simp add: io_same_def b_upd_def submitted_def vd_idle_def)
  moreover have "disk s6 = disk (disk_rw b w s)" "dlog s6 = dlog (disk_rw b w s)" "bufs s6 = bufs (disk_rw b w s)"
    using s6(2) s3(7) d(13-15) b(1) by (auto simp: io_same_def b_upd_def disk_rw_def Let_def fun_eq_iff)
  moreover have "?ie = intr_get (mach s)" using n0 by (simp add: entered_def push_off_def Let_def)
  then have "quiet (mach s6)" "intr_get (mach s6) = intr_get (mach s)" "myproc s6 = Some p"
    using m5 s6(5) by (simp_all add: myproc_def)
  ultimately show ?thesis using s1 s2 s3(1) s4 s6(1) by blast
qed

text \<open>A device that serves one request, and a system at rest.\<close>

definition example_device :: "'a virtio_scheme \<Rightarrow> 'a virtio_scheme" where
  "example_device s =
     (let h = vd_avail_ring s ! (unat (vd_used_idx s) mod NUM);
          d0 = vd_desc s ! unat h; d1 = vd_desc s ! unat (d_next d0); d2 = vd_desc s ! unat (d_next d1);
          n = unat (d_len d1)
      in case (d_addr d0, d_addr d1, d_addr d2) of
           (DmaOp q, DmaData b, DmaStatus st) \<Rightarrow>
             (let a = unat (rq_sector (vd_ops s ! q)) * 512;
                  D = medium_store a (take n (b_data (bufs s b))) (disk s);
                  t = (if rq_type (vd_ops s ! q) = VIRTIO_BLK_T_OUT
                       then s\<lparr>disk := D, dlog := dlog s @ map (\<lambda>k. (k, D k)) (touched a n)\<rparr>
                       else b_upd b (b_data_update (\<lambda>d. medium_load a n (disk s) @ drop n d)) s)
              in t\<lparr>vd_info_status := (vd_info_status s)[st := 0],
                   vd_used_ring := (vd_used_ring s)[unat (vd_used_idx s) mod NUM := ucast h],
                   vd_used_idx := vd_used_idx s + 1\<rparr>)
         | _ \<Rightarrow> s)"

lemma example_device: "virtio_blk_device cap example_device"
proof -
  have "ucast (of_nat h :: ushort) = (of_nat h :: uint)" if "h < NUM" for h
    using that by (intro word_unat_eq_iff[THEN iffD2]) (simp add: unsigned_ucast_eq unat_small take_bit_nat_eq_self params)
  then show ?thesis
    by (auto simp: virtio_blk_device_def request_def Let_def example_device_def unat_small(1))
qed

definition example_virtio :: virtio where
  "example_virtio = kern.extend (files.extend example_files (kern.fields 0))
     (virtio.fields (\<lambda>_ _. 0) [] (replicate NUM zero_desc) 0 (replicate NUM 0) 0 (replicate NUM 0)
       (replicate NUM True) 0 (replicate NUM None) (replicate NUM 0)
       (replicate NUM \<lparr>rq_type = 0, rq_reserved = 0, rq_sector = 0\<rparr>))"

theorem virtio_refines_disk_rw_witness:
  "\<exists>s1 s2 s3 s4 s5 s6. virtio_disk_rw 3 True example_virtio = Away s1 \<and> scheduler_back 0 s1 = Ok () s2 \<and>
    virtio_disk_intr (example_device s2) = Ok () s3 \<and> scheduler_visit 0 s3 = Away s4 \<and>
    sleep_resume 0 LVdisk (sched_resume (intena (mycpu (mach s1))) s4) = Ok () s5 \<and>
    rw_wait 3 0 s5 = Ok () s6 \<and> disk s6 = disk (disk_rw 3 True example_virtio) \<and> vd_idle s6"
proof -
  have "vd_idle example_virtio" "quiet (mach example_virtio)" "noff (mycpu (mach example_virtio)) = 0"
    "myproc example_virtio = Some 0" "length (procs example_virtio) = NPROC" "0 < NPROC"
    "\<not> b_disk (bufs example_virtio 3)" "b_blockno (bufs example_virtio 3) < 2 ^ 31"
    "length (b_data (bufs example_virtio 3)) = BSIZE" "\<forall>k. length (disk example_virtio k) = BSIZE"
    "b_blockno (bufs example_virtio 3) * 2 + 2 \<le> 2 * FSSIZE"
    by (simp_all add: example_virtio_def kern.defs virtio.defs vd_idle_def example_files_def console.defs files.defs
        example_console_def fs.defs logging.defs example_log_def base.defs memory.defs bio.defs
        example_base_def example_proc_def myproc_def zero_buf_def params)
  from virtio_refines_disk_rw[OF this(1-4,6,5,7-10) example_device this(11), of True] show ?thesis by blast
qed

section \<open>The loop of free_chain ends\<close>

lemma wakeup_one_outcome:
  "wakeup_one c i s \<noteq> Undef" "wakeup_one c i s = Ok u t \<Longrightarrow> vd_free t = vd_free s"
  for s :: "'a virtio_scheme"
  by (auto simp: wakeup_one_def acquire_def release_def on_mach_def acquire_m_def release_m_def pop_off_def
      set_proc_def Let_def split: res.splits if_splits)

lemma wakeup_outcome:
  fixes s :: "'a virtio_scheme"
  shows "wakeup c s \<noteq> Undef" "wakeup c s = Ok u t \<Longrightarrow> vd_free t = vd_free s"
proof -
  have "foreach is (wakeup_one c) s \<noteq> Undef" for "is" and s :: "'a virtio_scheme"
  proof (induction "is" arbitrary: s)
    case (Cons i "is")
    show ?case by (cases "wakeup_one c i s") (auto simp: Cons.IH wakeup_one_outcome(1))
  qed simp
  then show "wakeup c s \<noteq> Undef" by (simp add: wakeup_def)
  show "wakeup c s = Ok u t \<Longrightarrow> vd_free t = vd_free s"
    unfolding wakeup_def
    by (erule foreach_invariant[where I = "\<lambda>t. vd_free t = vd_free s"]) (auto dest: wakeup_one_outcome(2))
qed

lemma filter_Not_update:
  "i < length xs \<Longrightarrow> \<not> xs ! i \<Longrightarrow> length (filter Not xs) = Suc (length (filter Not (xs[i := True])))"
  by (induction xs arbitrary: i) (auto split: nat.splits)

lemma free_chain_n_enough:
  fixes s :: "'a virtio_scheme"
  assumes "length (vd_free s) = NUM" "length (filter Not (vd_free s)) < n"
  shows "free_chain_n n i s \<noteq> Undef \<and> free_chain_n (Suc n) i s = free_chain_n n i s"
  using assms
proof (induction n arbitrary: i s)
  case (Suc n)
  show ?case
  proof (cases "free_desc i s")
    case (Ok u t)
    then have i: "i < NUM" "\<not> vd_free s ! i"
      and "wakeup ChDisk (s\<lparr>vd_desc := (vd_desc s)[i := zero_desc], vd_free := (vd_free s)[i := True]\<rparr>) = Ok u t"
      by (auto simp: free_desc_def split: if_splits)
    from this(3) have t: "vd_free t = (vd_free s)[i := True]" by (auto dest: wakeup_outcome(2))
    have "length (vd_free t) = NUM" "length (filter Not (vd_free t)) < n"
      using Suc.prems i filter_Not_update[of i "vd_free s"] unfolding t by auto
    from Suc.IH[OF this] show ?thesis using Ok by (simp add: Let_def)
  next
    case Undef
    then show ?thesis by (simp add: free_desc_def wakeup_outcome(1) split: if_splits)
  qed (simp_all add: Let_def)
qed simp

text \<open>
  C19: \<open>free_chain\<close> ends on every chain, also one that the links make circular: the bound of
  \<open>NUM + 1\<close> rounds is never what stops the loop, more rounds give the same result.
\<close>

theorem free_chain_ends:
  fixes s :: "'a virtio_scheme"
  assumes "length (vd_free s) = NUM"
  shows "free_chain i s \<noteq> Undef \<and> free_chain_n (NUM + 1 + k) i s = free_chain i s"
proof (induction k)
  case 0
  have "length (filter Not (vd_free s)) < NUM + 1"
    using assms length_filter_le[of Not "vd_free s"] by simp
  from free_chain_n_enough[OF assms this] show ?case by (simp add: free_chain_def)
next
  case (Suc k)
  have "length (filter Not (vd_free s)) < NUM + 1 + k"
    using assms length_filter_le[of Not "vd_free s"] by simp
  from free_chain_n_enough[OF assms this, of i] Suc show ?case by (simp add: add.assoc)
qed

theorem free_chain_ends_witness:
  "free_chain 0 (example_virtio\<lparr>vd_free := replicate NUM False,
     vd_desc := replicate NUM \<lparr>d_addr = DmaNull, d_len = 0, d_flags = 1, d_next = 0\<rparr>\<rparr>) \<noteq> Undef"
proof -
  let ?s = "example_virtio\<lparr>vd_free := replicate NUM False,
     vd_desc := replicate NUM \<lparr>d_addr = DmaNull, d_len = 0, d_flags = 1, d_next = 0\<rparr>\<rparr>"
  have "length (vd_free ?s) = NUM" by simp
  from free_chain_ends[OF this, of 0 0] show ?thesis by blast
qed

end
