(* ===== verification/Trap.thy ===== *)
theory Trap
  imports Virtio
begin

text \<open>
  Traps and start-up: \<open>kernel/trap.c\<close>, \<open>kernel/plic.c\<close>, \<open>kernel/main.c\<close>, \<open>kernel/start.c\<close>,
  \<open>forkret\<close> of \<open>kernel/proc.c\<close> and \<open>kvminithart\<close> of \<open>kernel/vm.c\<close>.

  The control registers of the running hart are fields of the state; the hardware sets
  \<open>scause\<close>, \<open>sepc\<close>, \<open>stval\<close> before a handler runs.  \<open>plic_next\<close> is what the interrupt controller
  answers a claim; \<open>plic_out\<close> records what is written to it.  \<open>usertrap\<close> and \<open>forkret\<close> return the
  \<open>satp\<close> value they hand to the trampoline.  A \<open>yield\<close> ends in \<open>Away\<close>; what follows it is
  \<open>usertrap_return\<close> and \<open>kerneltrap_return\<close>.
\<close>

record trap = virtio +
  stvec :: uint64
  sepc :: uint64
  scause :: uint64
  stval :: uint64
  satp :: uint64
  time_csr :: uint64
  stimecmp :: uint64
  plic_next :: uint
  plic_out :: "(uint64 \<times> uint) list"
  first :: bool
  started :: bool
  userret_off :: uint64

section \<open>kernel/plic.c\<close>

definition UART0_IRQ :: nat where [params]: "UART0_IRQ = 10"
definition VIRTIO0_IRQ :: nat where [params]: "VIRTIO0_IRQ = 1"

definition PLIC_SENABLE :: "nat \<Rightarrow> uint64" where
  "PLIC_SENABLE hartid = PLIC + 0x2080 + of_nat hartid * 0x100"

definition PLIC_SPRIORITY :: "nat \<Rightarrow> uint64" where
  "PLIC_SPRIORITY hartid = PLIC + 0x201000 + of_nat hartid * 0x2000"

definition PLIC_SCLAIM :: "nat \<Rightarrow> uint64" where
  "PLIC_SCLAIM hartid = PLIC + 0x201004 + of_nat hartid * 0x2000"

definition plic_write :: "uint64 \<Rightarrow> uint \<Rightarrow> 'a trap_scheme \<Rightarrow> 'a trap_scheme" where
  "plic_write a v s = s\<lparr>plic_out := plic_out s @ [(a, v)]\<rparr>"

definition plicinit :: "'a trap_scheme \<Rightarrow> 'a trap_scheme" where
  "plicinit s = plic_write (PLIC + of_nat (VIRTIO0_IRQ * 4)) 1 (plic_write (PLIC + of_nat (UART0_IRQ * 4)) 1 s)"

definition plicinithart :: "'a trap_scheme \<Rightarrow> 'a trap_scheme" where
  "plicinithart s =
     (let h = cpuid (mach s) in
      plic_write (PLIC_SPRIORITY h) 0
        (plic_write (PLIC_SENABLE h) (push_bit UART0_IRQ 1 OR push_bit VIRTIO0_IRQ 1) s))"

definition plic_claim :: "'a trap_scheme \<Rightarrow> int" where
  "plic_claim s = sint (plic_next s)"

definition plic_complete :: "int \<Rightarrow> 'a trap_scheme \<Rightarrow> 'a trap_scheme" where
  "plic_complete irq s = plic_write (PLIC_SCLAIM (cpuid (mach s))) (of_int irq) s"

section \<open>kernel/trap.c\<close>

definition trapinit :: "'a trap_scheme \<Rightarrow> 'a trap_scheme" where
  "trapinit s = initlock LTicks ''time'' s"

definition trapinithart :: "'a trap_scheme \<Rightarrow> 'a trap_scheme" where
  "trapinithart s = s\<lparr>stvec := kernelvec_addr s\<rparr>"

definition clockintr :: "'a trap_scheme \<Rightarrow> (unit, 'a trap_scheme) res" where
  "clockintr s =
     seq (if cpuid (mach s) = 0 then
            seq (acquire LTicks s) (\<lambda>_ s.
            seq (wakeup ChTicks (s\<lparr>ticks := ticks s + 1\<rparr>)) (\<lambda>_ s.
            release LTicks s))
          else Ok () s) (\<lambda>_ s.
     Ok () (s\<lparr>stimecmp := time_csr s + 1000000\<rparr>))"

definition devintr :: "'a trap_scheme \<Rightarrow> (nat, 'a trap_scheme) res" where
  "devintr s =
     (if scause s = 0x8000000000000009 then
        let irq = plic_claim s in
        seq (if irq = int UART0_IRQ then uartintr s
             else if irq = int VIRTIO0_IRQ then virtio_disk_intr s
             else if irq \<noteq> 0 then
               seq (kprintf (str ''unexpected interrupt irq=%d'' @ [10]) [AInt (of_int irq)] s) (\<lambda>_ s. Ok () s)
             else Ok () s) (\<lambda>_ s.
        Ok 1 (if irq \<noteq> 0 then plic_complete irq s else s))
      else if scause s = 0x8000000000000005 then seq (clockintr s) (\<lambda>_ s. Ok 2 s)
      else Ok 0 s)"

definition prepare_return :: "'a trap_scheme \<Rightarrow> (unit, 'a trap_scheme) res" where
  "prepare_return s =
     (case myproc s of None \<Rightarrow> Undef
      | Some p \<Rightarrow>
          let s = s\<lparr>mach := intr_off (mach s)\<rparr>;
              s = s\<lparr>stvec := TRAMPOLINE + uservec_off s\<rparr>;
              tf = p_trapframe (procs s ! p);
              s = upd_tf tf (\<lambda>t. t\<lparr>kernel_satp := satp s, kernel_sp := p_kstack (procs s ! p) + PGSIZE,
                    kernel_trap := usertrap_addr s, kernel_hartid := of_nat (cpuid (mach s))\<rparr>) s;
              x = (sstatus (mach s) AND NOT SSTATUS_SPP) OR SSTATUS_SPIE;
              s = s\<lparr>mach := (mach s)\<lparr>sstatus := x\<rparr>\<rparr>
          in Ok () (s\<lparr>sepc := epc (tframes s tf)\<rparr>))"

text \<open>\<open>usertrap\<close> after the \<open>yield\<close>.\<close>

definition usertrap_return :: "nat \<Rightarrow> 'a trap_scheme \<Rightarrow> (uint64, 'a trap_scheme) res" where
  "usertrap_return p s = seq (prepare_return s) (\<lambda>_ s. Ok (MAKE_SATP (p_pagetable (procs s ! p))) s)"

definition exit_if_killed :: "nat \<Rightarrow> 'a trap_scheme \<Rightarrow> (unit, 'a trap_scheme) res" where
  "exit_if_killed p s = seq (killed p s) (\<lambda>k s. if k then kexit (-1) s else Ok () s)"

definition unexpected_trap :: "nat \<Rightarrow> 'a trap_scheme \<Rightarrow> (unit, 'a trap_scheme) res" where
  "unexpected_trap p s =
     seq (kprintf (str ''usertrap(): unexpected scause 0x%lx pid=%d'' @ [10])
            [ALong (scause s), AInt (of_int (p_pid (procs s ! p)))] s) (\<lambda>_ s.
     seq (kprintf (str ''            sepc=0x%lx stval=0x%lx'' @ [10]) [ALong (sepc s), ALong (stval s)] s) (\<lambda>_ s.
     setkilled p s))"

definition usertrap :: "'a trap_scheme \<Rightarrow> (uint64, 'a trap_scheme) res" where
  "usertrap s =
     (if sstatus (mach s) AND SSTATUS_SPP \<noteq> 0 then Panic ''usertrap: not from user mode''
      else
        let s = s\<lparr>stvec := kernelvec_addr s\<rparr> in
        case myproc s of None \<Rightarrow> Undef
        | Some p \<Rightarrow>
            let tf = p_trapframe (procs s ! p); s = upd_tf tf (\<lambda>t. t\<lparr>epc := sepc s\<rparr>) s in
            seq (if scause s = 8 then
                   seq (exit_if_killed p s) (\<lambda>_ s.
                   let s = upd_tf tf (\<lambda>t. t\<lparr>epc := epc t + 4\<rparr>) s;
                       s = s\<lparr>mach := intr_on (mach s)\<rparr>
                   in seq (syscall s) (\<lambda>_ s. Ok 0 s))
                 else seq (devintr s) (\<lambda>which_dev s.
                   if which_dev \<noteq> 0 then Ok which_dev s
                   else seq (if scause s = 15 \<or> scause s = 13
                             then vmfault (p_pagetable (procs s ! p)) (stval s) (scause s = 13) s
                             else Ok 0 s) (\<lambda>pa s.
                     if pa \<noteq> 0 then Ok 0 s
                     else seq (unexpected_trap p s) (\<lambda>_ s. Ok 0 s)))) (\<lambda>which_dev s.
            seq (exit_if_killed p s) (\<lambda>_ s.
            seq (if which_dev = 2 then yield s else Ok () s) (\<lambda>_ s.
            usertrap_return p s))))"

text \<open>\<open>kerneltrap\<close> after the \<open>yield\<close>.\<close>

definition kerneltrap_return :: "uint64 \<Rightarrow> uint64 \<Rightarrow> 'a trap_scheme \<Rightarrow> (unit, 'a trap_scheme) res" where
  "kerneltrap_return pc st s = Ok () (s\<lparr>sepc := pc, mach := (mach s)\<lparr>sstatus := st\<rparr>\<rparr>)"

definition kerneltrap :: "'a trap_scheme \<Rightarrow> (unit, 'a trap_scheme) res" where
  "kerneltrap s =
     (let pc = sepc s; st = sstatus (mach s); cause = scause s in
      if st AND SSTATUS_SPP = 0 then Panic ''kerneltrap: not from supervisor mode''
      else if intr_get (mach s) then Panic ''kerneltrap: interrupts enabled''
      else seq (devintr s) (\<lambda>which_dev s.
        if which_dev = 0 then
          seq (kprintf (str ''scause=0x%lx sepc=0x%lx stval=0x%lx'' @ [10])
                 [ALong cause, ALong (sepc s), ALong (stval s)] s) (\<lambda>_ s. Panic ''kerneltrap'')
        else seq (if which_dev = 2 \<and> myproc s \<noteq> None then yield s else Ok () s) (\<lambda>_ s.
          kerneltrap_return pc st s)))"

section \<open>forkret (kernel/proc.c)\<close>

definition forkret :: "'a trap_scheme \<Rightarrow> (uint64 \<times> uint64, 'a trap_scheme) res" where
  "forkret s =
     (case myproc s of None \<Rightarrow> Undef
      | Some p \<Rightarrow>
          seq (release (LProc p) s) (\<lambda>_ s.
          seq (if first s then
                 seq (fsinit ROOTDEV s) (\<lambda>_ s.
                 seq (kexec (str ''/init'') [str ''/init''] (s\<lparr>first := False\<rparr>)) (\<lambda>r s.
                 let s = upd_tf (p_trapframe (procs s ! p)) (\<lambda>t. t\<lparr>a0 := of_int r\<rparr>) s in
                 if a0 (tframes s (p_trapframe (procs s ! p))) = -1 then Panic ''exec'' else Ok () s))
               else Ok () s) (\<lambda>_ s.
          seq (usertrap_return p s) (\<lambda>satp s.
          Ok (TRAMPOLINE + userret_off s, satp) s))))"

section \<open>kvminithart (kernel/vm.c), main (kernel/main.c)\<close>

definition kvminithart :: "'a trap_scheme \<Rightarrow> 'a trap_scheme" where
  "kvminithart s = s\<lparr>satp := MAKE_SATP (kernel_pagetable s)\<rparr>"

definition kputs :: "string \<Rightarrow> 'a trap_scheme \<Rightarrow> (unit, 'a trap_scheme) res" where
  "kputs x s = seq (kprintf (str x @ [10]) [] s) (\<lambda>_ s. Ok () s)"

text \<open>\<open>main\<close> up to the call of \<open>scheduler\<close>; a hart that waits for \<open>started\<close> spins.\<close>

definition main :: "'a trap_scheme \<Rightarrow> (unit, 'a trap_scheme) res" where
  "main s =
     (if cpuid (mach s) = 0 then
        let s = printfinit (consoleinit s) in
        seq (kputs '''' s) (\<lambda>_ s.
        seq (kputs ''xv6 kernel is booting'' s) (\<lambda>_ s.
        seq (kputs '''' s) (\<lambda>_ s.
        seq (kinit s) (\<lambda>_ s.
        seq (kvminit s) (\<lambda>_ s.
        seq (procinit (kvminithart s)) (\<lambda>_ s.
        let s = plicinithart (plicinit (trapinithart (trapinit s))) in
        seq (binit s) (\<lambda>_ s.
        seq (iinit s) (\<lambda>_ s.
        seq (virtio_disk_init (fileinit s)) (\<lambda>_ s.
        seq (userinit s) (\<lambda>_ s.
        Ok () (s\<lparr>started := True\<rparr>)))))))))))
      else if \<not> started s then Spin
      else
        seq (kprintf (str ''hart %d starting'' @ [10]) [AInt (of_nat (cpuid (mach s)))] s) (\<lambda>_ s.
        Ok () (plicinithart (trapinithart (kvminithart s)))))"

section \<open>Machine mode (kernel/start.c)\<close>

text \<open>The machine-mode registers of a hart, and the ones of supervisor mode that \<open>start\<close> sets.\<close>

record mmode =
  mhartid :: uint64
  mstatus :: uint64
  mepc :: uint64
  m_satp :: uint64
  medeleg :: uint64
  mideleg :: uint64
  sie :: uint64
  pmpaddr0 :: uint64
  pmpcfg0 :: uint64
  mie :: uint64
  menvcfg :: uint64
  mcounteren :: uint64
  m_time :: uint64
  m_stimecmp :: uint64
  m_tp :: uint64

definition MSTATUS_MPP_MASK :: uint64 where [params]: "MSTATUS_MPP_MASK = 0x1800"
definition MSTATUS_MPP_S :: uint64 where [params]: "MSTATUS_MPP_S = 0x800"
definition SIE_SEIE :: uint64 where [params]: "SIE_SEIE = 0x200"
definition SIE_STIE :: uint64 where [params]: "SIE_STIE = 0x20"
definition MIE_STIE :: uint64 where [params]: "MIE_STIE = 0x20"

definition timerinit :: "mmode \<Rightarrow> mmode" where
  "timerinit r = r\<lparr>mie := mie r OR MIE_STIE, menvcfg := menvcfg r OR push_bit 63 1,
     mcounteren := mcounteren r OR 2, m_stimecmp := m_time r + 1000000\<rparr>"

definition start :: "uint64 \<Rightarrow> mmode \<Rightarrow> mmode" where
  "start main_addr r =
     (let x = (mstatus r AND NOT MSTATUS_MPP_MASK) OR MSTATUS_MPP_S;
          r = r\<lparr>mstatus := x, mepc := main_addr, m_satp := 0, medeleg := 0xffff, mideleg := 0xffff\<rparr>;
          r = r\<lparr>sie := sie r OR SIE_SEIE OR SIE_STIE, pmpaddr0 := 0x3fffffffffffff, pmpcfg0 := 0xf\<rparr>;
          r = timerinit r
      in r\<lparr>m_tp := scast (ucast (mhartid r) :: uint)\<rparr>)"

end
