(* ===== verification/User.thy ===== *)
theory User
  imports Format CString Params
begin

text \<open>
  User programs as they see the system: \<open>user/ulib.c\<close>, the output side of \<open>user/printf.c\<close>, and the
  small programs \<open>cat\<close>, \<open>echo\<close>, \<open>kill\<close>, \<open>ln\<close>, \<open>mkdir\<close>, \<open>rm\<close>, \<open>ls\<close>, \<open>init\<close> and \<open>zombie\<close>.

  A process meets the system through the answers its system calls get.  A \<open>world\<close> holds the
  answers still to come, each a return value and the bytes the call stores in the caller's
  buffer, and the calls made so far with their answers.  A run ends in \<open>Done\<close> (the function returned), \<open>Exited\<close>,
  \<open>Blocked\<close> at a call that has no answer (a successful \<open>exec\<close> is one of them: it never returns),
  or \<open>Crash\<close>, where C has no meaning.  Loops over input end with the answers, so they are total.
  Strings are lists of bytes without the terminating NUL.
\<close>

section \<open>System calls as a process sees them\<close>

datatype ucall =
    URead int nat | UWrite int "byte list" | UOpen "byte list" uint | UClose int | UFstat int
  | UFork | UExec "byte list" "byte list list" | UWait | UKill int | UPause int
  | ULink "byte list" "byte list" | UUnlink "byte list" | UMkdir "byte list" | UMknod "byte list" int int
  | UChdir "byte list" | UDup int | UPipe | USbrk int int

type_synonym answer = "int \<times> byte list"

record world =
  answers :: "answer list"
  events :: "(ucall \<times> answer) list"

datatype 'a uout = Done 'a world | Exited int world | Blocked ucall world | Crash

primrec useq :: "'a uout \<Rightarrow> ('a \<Rightarrow> world \<Rightarrow> 'b uout) \<Rightarrow> 'b uout" where
  "useq (Done a w) f = f a w"
| "useq (Exited n w) f = Exited n w"
| "useq (Blocked c w) f = Blocked c w"
| "useq Crash f = Crash"

lemma useq_cong [fundef_cong]:
  "r = r' \<Longrightarrow> (\<And>a w. r' = Done a w \<Longrightarrow> f a w = g a w) \<Longrightarrow> useq r f = useq r' g"
  by (cases r') auto

lemma useq_Done_iff: "useq r f = Done b w \<longleftrightarrow> (\<exists>a v. r = Done a v \<and> f a v = Done b w)"
  by (cases r) auto

lemma useq_assoc: "useq (useq r f) g = useq r (\<lambda>a w. useq (f a w) g)"
  by (cases r) auto

definition ucall :: "ucall \<Rightarrow> world \<Rightarrow> answer uout" where
  "ucall c w = (case answers w of [] \<Rightarrow> Blocked c w
     | a # as \<Rightarrow> Done a (w\<lparr>answers := as, events := events w @ [(c, a)]\<rparr>))"

lemma ucall_Done:
  "ucall c w = Done a w' \<longleftrightarrow>
     (\<exists>as. answers w = a # as \<and> w' = w\<lparr>answers := as, events := events w @ [(c, a)]\<rparr>)"
  by (auto simp: ucall_def split: list.splits)

lemma ucall_less [simp]: "ucall c w = Done a w' \<Longrightarrow> length (answers w') < length (answers w)"
  by (auto simp: ucall_Done)

text \<open>A call whose result is all that counts.\<close>

definition ucall_ret :: "ucall \<Rightarrow> world \<Rightarrow> int uout" where
  "ucall_ret c w = useq (ucall c w) (\<lambda>(r, _) w. Done r w)"

lemma ucall_ret_less [simp]: "ucall_ret c w = Done a w' \<Longrightarrow> length (answers w') < length (answers w)"
  by (auto simp: ucall_ret_def useq_Done_iff)

section \<open>user/printf.c\<close>

text \<open>\<open>putc\<close> writes one byte and ignores what \<open>write\<close> answers.\<close>

definition putc :: "int \<Rightarrow> byte \<Rightarrow> world \<Rightarrow> unit uout" where
  "putc fd c w = useq (ucall (UWrite fd [c]) w) (\<lambda>_ w. Done () w)"

primrec putcs :: "int \<Rightarrow> byte list \<Rightarrow> world \<Rightarrow> unit uout" where
  "putcs fd [] w = Done () w"
| "putcs fd (c # cs) w = useq (putc fd c w) (\<lambda>_ w. putcs fd cs w)"

definition fprintf :: "int \<Rightarrow> byte list \<Rightarrow> arg list \<Rightarrow> world \<Rightarrow> unit uout" where
  "fprintf fd fmt ap w =
     (case uformat False fmt ap of None \<Rightarrow> Crash | Some out \<Rightarrow> putcs fd out w)"

definition uprintf :: "byte list \<Rightarrow> arg list \<Rightarrow> world \<Rightarrow> unit uout" where
  "uprintf fmt ap w = fprintf 1 fmt ap w"

lemma putcs_le: "putcs fd cs w = Done u w' \<Longrightarrow> length (answers w') \<le> length (answers w)"
  by (induction cs arbitrary: w)
    (fastforce simp: putc_def useq_Done_iff dest: ucall_less)+

lemma fprintf_le [simp]: "fprintf fd fmt ap w = Done u w' \<Longrightarrow> length (answers w') \<le> length (answers w)"
  by (auto simp: fprintf_def putcs_le split: option.splits)

section \<open>user/ulib.c\<close>

partial_function (option) ustrcpy :: "uint64 \<Rightarrow> uint64 \<Rightarrow> mem \<Rightarrow> mem option" where
  "ustrcpy s t m =
     (let m' = m(s := m t) in if m t = 0 then Some m' else ustrcpy (s + 1) (t + 1) m')"

partial_function (option) ustrcmp :: "(nat \<Rightarrow> byte) \<Rightarrow> (nat \<Rightarrow> byte) \<Rightarrow> int option" where
  "ustrcmp p q =
     (if p 0 \<noteq> 0 \<and> p 0 = q 0 then ustrcmp (\<lambda>i. p (i + 1)) (\<lambda>i. q (i + 1))
      else Some (uint (p 0) - uint (q 0)))"

partial_function (option) ustrlen :: "(nat \<Rightarrow> byte) \<Rightarrow> nat \<Rightarrow> nat option" where
  "ustrlen s n = (if s n = 0 then Some n else ustrlen s (n + 1))"

primrec umemset :: "uint64 \<Rightarrow> byte \<Rightarrow> nat \<Rightarrow> mem \<Rightarrow> mem" where
  "umemset dst c 0 m = m"
| "umemset dst c (Suc n) m = (umemset dst c n m)(dst + of_nat n := c)"

text \<open>The index of the first \<open>c\<close>; the end of the list is the terminating NUL.\<close>

fun ustrchr :: "byte list \<Rightarrow> byte \<Rightarrow> nat option" where
  "ustrchr [] c = None"
| "ustrchr (x # xs) c =
     (if x = 0 then None else if x = c then Some 0 else map_option Suc (ustrchr xs c))"

text \<open>\<open>gets\<close> with the bytes stored so far in \<open>bs\<close>; the result is what \<open>buf\<close> holds before the NUL.\<close>

function gets_loop :: "byte list \<Rightarrow> nat \<Rightarrow> world \<Rightarrow> byte list uout" where
  "gets_loop bs mx w =
     (if length bs + 1 < mx then
        useq (ucall (URead 0 1) w) (\<lambda>a w. case a of (cc, d) \<Rightarrow>
        if cc < 1 then Done bs w
        else (case d of [] \<Rightarrow> Crash
          | c # _ \<Rightarrow>
              if c = 10 \<or> c = 13 then Done (bs @ [c]) w else gets_loop (bs @ [c]) mx w))
      else Done bs w)"
  by pat_completeness auto
termination
  by (relation "measure (\<lambda>(_, _, w). length (answers w))") auto

declare gets_loop.simps [simp del]

definition gets :: "nat \<Rightarrow> world \<Rightarrow> byte list uout" where
  "gets mx w = gets_loop [] mx w"

text \<open>The status bytes of a file, if it can be opened.\<close>

definition ustat :: "byte list \<Rightarrow> world \<Rightarrow> answer uout" where
  "ustat n w =
     useq (ucall_ret (UOpen n O_RDONLY) w) (\<lambda>fd w.
     if fd < 0 then Done (-1, []) w
     else useq (ucall (UFstat fd) w) (\<lambda>r w.
       useq (ucall_ret (UClose fd) w) (\<lambda>_ w. Done r w)))"

lemma ustat_le: "ustat n w = Done r w' \<Longrightarrow> length (answers w') \<le> length (answers w)"
  by (auto simp: ustat_def useq_Done_iff split: if_splits dest!: ucall_less ucall_ret_less)

definition INT_MAX :: int where [params]: "INT_MAX = 2147483647"

text \<open>\<open>n*10 + *s++ - '0'\<close> on \<open>int\<close>: \<open>None\<close> where the sum overflows, which C leaves undefined.\<close>

fun atoi_loop :: "int \<Rightarrow> byte list \<Rightarrow> int option" where
  "atoi_loop n [] = Some n"
| "atoi_loop n (c # cs) =
     (if 48 \<le> c \<and> c \<le> 57 then
        if INT_MAX < n * 10 + uint c then None else atoi_loop (n * 10 + uint c - 48) cs
      else Some n)"

definition atoi :: "byte list \<Rightarrow> int option" where
  "atoi s = atoi_loop 0 s"

text \<open>Forward when the source is above the destination, backward otherwise.\<close>

definition umemmove :: "uint64 \<Rightarrow> uint64 \<Rightarrow> int \<Rightarrow> mem \<Rightarrow> mem" where
  "umemmove dst src n m =
     (if dst < src then move_up (nat n) dst src m
      else move_down (nat n) (dst + of_int n) (src + of_int n) m)"

fun umemcmp :: "(nat \<Rightarrow> byte) \<Rightarrow> (nat \<Rightarrow> byte) \<Rightarrow> nat \<Rightarrow> int" where
  "umemcmp p1 p2 0 = 0"
| "umemcmp p1 p2 (Suc n) =
     (if p1 0 \<noteq> p2 0 then uint (p1 0) - uint (p2 0) else umemcmp (\<lambda>i. p1 (i + 1)) (\<lambda>i. p2 (i + 1)) n)"

definition umemcpy :: "uint64 \<Rightarrow> uint64 \<Rightarrow> uint \<Rightarrow> mem \<Rightarrow> mem" where
  "umemcpy dst src n m = umemmove dst src (sint n) m"

definition usbrk :: "int \<Rightarrow> world \<Rightarrow> int uout" where
  "usbrk n w = ucall_ret (USbrk n 1) w"

definition sbrklazy :: "int \<Rightarrow> world \<Rightarrow> int uout" where
  "sbrklazy n w = ucall_ret (USbrk n 2) w"

text \<open>\<open>start\<close>: \<open>exit(main(argc, argv))\<close>.\<close>

definition ustart :: "(world \<Rightarrow> int uout) \<Rightarrow> world \<Rightarrow> unit uout" where
  "ustart main_fun w = useq (main_fun w) (\<lambda>r w. Exited r w)"

section \<open>cat, echo, kill, ln, mkdir, rm, zombie\<close>

function cat :: "int \<Rightarrow> world \<Rightarrow> unit uout" where
  "cat fd w =
     useq (ucall (URead fd 512) w) (\<lambda>a w. case a of (n, d) \<Rightarrow>
     if 0 < n then
       useq (ucall_ret (UWrite 1 d) w) (\<lambda>k w.
       if k \<noteq> n then useq (fprintf 2 (str ''cat: write error'' @ [10]) [] w) (\<lambda>_ w. Exited 1 w)
       else cat fd w)
     else if n < 0 then useq (fprintf 2 (str ''cat: read error'' @ [10]) [] w) (\<lambda>_ w. Exited 1 w)
     else Done () w)"
  by pat_completeness auto
termination
  by (relation "measure (\<lambda>(_, w). length (answers w))") (auto dest!: ucall_less ucall_ret_less)

declare cat.simps [simp del]

text \<open>\<open>for(i = 1; i < argc; i++)\<close> over the arguments, with a body that may end the program.\<close>

primrec uforeach :: "'x list \<Rightarrow> ('x \<Rightarrow> world \<Rightarrow> unit uout) \<Rightarrow> world \<Rightarrow> unit uout" where
  "uforeach [] f w = Done () w"
| "uforeach (x # xs) f w = useq (f x w) (\<lambda>_ w. uforeach xs f w)"

definition cat_file :: "byte list \<Rightarrow> world \<Rightarrow> unit uout" where
  "cat_file a w =
     useq (ucall_ret (UOpen a O_RDONLY) w) (\<lambda>fd w.
     if fd < 0 then
       useq (fprintf 2 (str ''cat: cannot open %s'' @ [10]) [AStr (Some a)] w) (\<lambda>_ w. Exited 1 w)
     else useq (cat fd w) (\<lambda>_ w. useq (ucall_ret (UClose fd) w) (\<lambda>_ w. Done () w)))"

definition cat_main :: "byte list list \<Rightarrow> world \<Rightarrow> unit uout" where
  "cat_main args w =
     (if args = [] then useq (cat 0 w) (\<lambda>_ w. Exited 0 w)
      else useq (uforeach args cat_file w) (\<lambda>_ w. Exited 0 w))"

fun echo_loop :: "byte list list \<Rightarrow> world \<Rightarrow> unit uout" where
  "echo_loop [] w = Done () w"
| "echo_loop (a # as) w =
     useq (ucall_ret (UWrite 1 a) w) (\<lambda>_ w.
     useq (ucall_ret (UWrite 1 (if as \<noteq> [] then str '' '' else [10])) w) (\<lambda>_ w.
     echo_loop as w))"

definition echo_main :: "byte list list \<Rightarrow> world \<Rightarrow> unit uout" where
  "echo_main args w = useq (echo_loop args w) (\<lambda>_ w. Exited 0 w)"

definition kill_main :: "byte list list \<Rightarrow> world \<Rightarrow> unit uout" where
  "kill_main args w =
     (if args = [] then useq (fprintf 2 (str ''usage: kill pid...'' @ [10]) [] w) (\<lambda>_ w. Exited 1 w)
      else useq (uforeach args (\<lambda>a w. case atoi a of None \<Rightarrow> Crash
                | Some pid \<Rightarrow> useq (ucall_ret (UKill pid) w) (\<lambda>_ w. Done () w)) w) (\<lambda>_ w. Exited 0 w))"

definition ln_main :: "byte list list \<Rightarrow> world \<Rightarrow> unit uout" where
  "ln_main args w =
     (case args of
        [old, new] \<Rightarrow>
          useq (ucall_ret (ULink old new) w) (\<lambda>r w.
          useq (if r < 0 then fprintf 2 (str ''link %s %s: failed'' @ [10]) [AStr (Some old), AStr (Some new)] w
                else Done () w) (\<lambda>_ w. Exited 0 w))
      | _ \<Rightarrow> useq (fprintf 2 (str ''Usage: ln old new'' @ [10]) [] w) (\<lambda>_ w. Exited 1 w))"

text \<open>The loop of \<open>mkdir\<close> and \<open>rm\<close>: stop at the first failure.\<close>

primrec each_or_break :: "(byte list \<Rightarrow> ucall) \<Rightarrow> byte list \<Rightarrow> byte list list \<Rightarrow> world \<Rightarrow> unit uout" where
  "each_or_break f fmt [] w = Done () w"
| "each_or_break f fmt (a # as) w =
     useq (ucall_ret (f a) w) (\<lambda>r w.
     if r < 0 then fprintf 2 fmt [AStr (Some a)] w else each_or_break f fmt as w)"

definition mkdir_main :: "byte list list \<Rightarrow> world \<Rightarrow> unit uout" where
  "mkdir_main args w =
     (if args = [] then useq (fprintf 2 (str ''Usage: mkdir files...'' @ [10]) [] w) (\<lambda>_ w. Exited 1 w)
      else useq (each_or_break UMkdir (str ''mkdir: %s failed to create'' @ [10]) args w) (\<lambda>_ w. Exited 0 w))"

definition rm_main :: "byte list list \<Rightarrow> world \<Rightarrow> unit uout" where
  "rm_main args w =
     (if args = [] then useq (fprintf 2 (str ''Usage: rm files...'' @ [10]) [] w) (\<lambda>_ w. Exited 1 w)
      else useq (each_or_break UUnlink (str ''rm: %s failed to delete'' @ [10]) args w) (\<lambda>_ w. Exited 0 w))"

definition zombie_main :: "world \<Rightarrow> unit uout" where
  "zombie_main w =
     useq (ucall_ret UFork w) (\<lambda>r w.
     useq (if 0 < r then ucall_ret (UPause 5) w else Done 0 w) (\<lambda>_ w. Exited 0 w))"

section \<open>ls\<close>

definition fmtname :: "byte list \<Rightarrow> byte list" where
  "fmtname path =
     (let p = rev (takeWhile (\<lambda>c. c \<noteq> ch CHR ''/'') (rev path)) in
      if DIRSIZ \<le> length p then p else p @ replicate (DIRSIZ - length p) (ch CHR '' ''))"

text \<open>\<open>printf("%s %d %d %d\n", fmtname(path), st.type, st.ino, (int) st.size)\<close> of a \<open>struct stat\<close>.\<close>

definition ls_entry :: "byte list \<Rightarrow> byte list \<Rightarrow> world \<Rightarrow> unit uout" where
  "ls_entry path st w =
     uprintf (str ''%s %d %d %d'' @ [10])
       [AStr (Some (fmtname path)), AInt (scast (get16 8 st)), AInt (get32 4 st), AInt (ucast (get64 16 st))] w"

function ls_dir :: "byte list \<Rightarrow> int \<Rightarrow> world \<Rightarrow> unit uout" where
  "ls_dir path fd w =
     useq (ucall (URead fd DIRENT_SIZE) w) (\<lambda>a w. case a of (n, de) \<Rightarrow>
     if n \<noteq> int DIRENT_SIZE then Done () w
     else if get16 0 de = 0 then ls_dir path fd w
     else
       let name = takeWhile (\<lambda>c. c \<noteq> 0) (path @ [ch CHR ''/''] @ drop 2 de) in
       useq (ustat name w) (\<lambda>a w. case a of (r, st) \<Rightarrow>
       useq (if r < 0 then uprintf (str ''ls: cannot stat %s'' @ [10]) [AStr (Some name)] w
             else ls_entry name st w) (\<lambda>_ w.
       ls_dir path fd w)))"
  by pat_completeness auto
termination
proof (relation "measure (\<lambda>(_, _, w). length (answers w))", goal_cases)
  case (3 path fd w a w1 n de name b w2 r st c w3)
  have "length (answers w1) < length (answers w)" using 3(1) by simp
  moreover have "length (answers w2) \<le> length (answers w1)"
    using 3(6) by (rule ustat_le)
  moreover have "length (answers w3) \<le> length (answers w2)"
    using 3(8) by (auto simp: ls_entry_def uprintf_def split: if_splits dest: fprintf_le)
  ultimately show ?case by simp
qed auto

declare ls_dir.simps [simp del]

definition ls :: "byte list \<Rightarrow> world \<Rightarrow> unit uout" where
  "ls path w =
     useq (ucall_ret (UOpen path O_RDONLY) w) (\<lambda>fd w.
     if fd < 0 then fprintf 2 (str ''ls: cannot open %s'' @ [10]) [AStr (Some path)] w
     else useq (ucall (UFstat fd) w) (\<lambda>(r, st) w.
       if r < 0 then
         useq (fprintf 2 (str ''ls: cannot stat %s'' @ [10]) [AStr (Some path)] w) (\<lambda>_ w.
         useq (ucall_ret (UClose fd) w) (\<lambda>_ w. Done () w))
       else
         let type = get16 8 st in
         useq (if type = T_DEVICE \<or> type = T_FILE then ls_entry path st w
               else if type = T_DIR then
                 if 512 < length path + 1 + DIRSIZ + 1 then uprintf (str ''ls: path too long'' @ [10]) [] w
                 else ls_dir path fd w
               else Done () w) (\<lambda>_ w.
         useq (ucall_ret (UClose fd) w) (\<lambda>_ w. Done () w))))"

definition ls_main :: "byte list list \<Rightarrow> world \<Rightarrow> unit uout" where
  "ls_main args w =
     (if args = [] then useq (ls (str ''.'') w) (\<lambda>_ w. Exited 0 w)
      else useq (uforeach args ls w) (\<lambda>_ w. Exited 0 w))"

section \<open>init\<close>

text \<open>The inner loop: reap until the shell \<open>pid\<close> has exited.\<close>

function init_reap :: "int \<Rightarrow> world \<Rightarrow> unit uout" where
  "init_reap pid w =
     useq (ucall_ret UWait w) (\<lambda>wpid w.
     if wpid = pid then Done () w
     else if wpid < 0 then
       useq (uprintf (str ''init: wait returned an error'' @ [10]) [] w) (\<lambda>_ w. Exited 1 w)
     else init_reap pid w)"
  by pat_completeness auto
termination
  by (relation "measure (\<lambda>(_, w). length (answers w))") auto

declare init_reap.simps [simp del]

lemma init_reap_less: "init_reap pid w = Done u w' \<Longrightarrow> length (answers w') < length (answers w)"
proof (induction pid w rule: init_reap.induct)
  case (1 pid w)
  from "1.prems" show ?case
    by (subst (asm) init_reap.simps)
      (auto simp: useq_Done_iff split: if_splits dest: ucall_ret_less dest!: "1.IH"[rotated])
qed

function init_loop :: "world \<Rightarrow> unit uout" where
  "init_loop w =
     useq (uprintf (str ''init: starting sh'' @ [10]) [] w) (\<lambda>_ w.
     useq (ucall_ret UFork w) (\<lambda>pid w.
     if pid < 0 then useq (uprintf (str ''init: fork failed'' @ [10]) [] w) (\<lambda>_ w. Exited 1 w)
     else if pid = 0 then
       useq (ucall_ret (UExec (str ''sh'') [str ''sh'']) w) (\<lambda>_ w.
       useq (uprintf (str ''init: exec sh failed'' @ [10]) [] w) (\<lambda>_ w. Exited 1 w))
     else useq (init_reap pid w) (\<lambda>_ w. init_loop w)))"
  by pat_completeness auto
termination
proof (relation "measure (\<lambda>w. length (answers w))", goal_cases)
  case (2 w a w1 pid w2 b w3)
  then have "length (answers w1) \<le> length (answers w)" "length (answers w2) < length (answers w1)"
    "length (answers w3) < length (answers w2)"
    by (auto simp: uprintf_def dest: fprintf_le ucall_ret_less init_reap_less)
  then show ?case by simp
qed simp

declare init_loop.simps [simp del]

definition init_main :: "world \<Rightarrow> unit uout" where
  "init_main w =
     useq (ucall_ret (UOpen (str ''console'') O_RDWR) w) (\<lambda>fd w.
     useq (if fd < 0 then
             useq (ucall_ret (UMknod (str ''console'') 1 0) w) (\<lambda>_ w.
             ucall_ret (UOpen (str ''console'') O_RDWR) w)
           else Done 0 w) (\<lambda>_ w.
     useq (ucall_ret (UDup 0) w) (\<lambda>_ w.
     useq (ucall_ret (UDup 0) w) (\<lambda>_ w.
     init_loop w))))"

section \<open>Properties of the library\<close>

lemma umemmove_wr:
  assumes "unat src + n < 2 ^ 64" "unat dst + n < 2 ^ 64"
  shows "umemmove dst src (int n) m = wr m dst (rd m src n)"
proof -
  have s: "unat (src + of_nat i) = unat src + i" "unat (dst + of_nat i) = unat dst + i" if "i < n" for i
    using that assms by (auto intro!: unat_add_of_nat)
  show ?thesis
  proof (cases "dst < src")
    case True
    have "dst + of_nat i \<noteq> src + of_nat j" if "i < j" "j < n" for i j
      using s[of i] s[of j] that True by (auto simp: word_less_nat_alt dest!: arg_cong[of _ _ unat])
    then show ?thesis using True assms by (simp add: umemmove_def move_up_wr)
  next
    case False
    have "dst + of_nat j \<noteq> src + of_nat i" if "i < j" "j < n" for i j
      using s[of i] s[of j] that False by (auto simp: word_less_nat_alt dest!: arg_cong[of _ _ unat])
    then have "move_down n (dst + of_nat n) (src + of_nat n) m = wr m dst (rd m src n)"
      using move_down_wr[of n "dst + of_nat n" "src + of_nat n" m] assms by simp
    then show ?thesis using False by (simp add: umemmove_def)
  qed
qed

text \<open>
  C23: the user library's \<open>memmove\<close> does what the kernel's does, for every overlap of the two
  regions, though one chooses the direction by comparing the addresses and the other by testing
  for an overlap.
\<close>

theorem umemmove_eq_memmove:
  assumes "unat src + n < 2 ^ 64" "unat dst + n < 2 ^ 64"
  shows "umemmove dst src (int n) m = memmove dst src n m"
  using assms by (simp add: umemmove_wr memmove_wr)

theorem umemmove_eq_memmove_witness:
  "umemmove 2 0 4 (\<lambda>a. ucast a) = memmove 2 0 4 (\<lambda>a. ucast a)"
  using umemmove_eq_memmove[of 0 4 2 "\<lambda>a. ucast a"] by simp

lemma atoi_loop_append:
  "\<forall>c \<in> set xs. 48 \<le> c \<and> c \<le> 57 \<Longrightarrow>
     atoi_loop n (xs @ ys) = (case atoi_loop n xs of None \<Rightarrow> None | Some k \<Rightarrow> atoi_loop k ys)"
  by (induction n xs rule: atoi_loop.induct) auto

lemma udigits_nth: "k < 10 \<Longrightarrow> udigits ! k = 48 + of_nat k"
proof -
  assume "k < 10"
  then have "k \<in> {0, 1, 2, 3, 4, 5, 6, 7, 8, 9}" by auto
  then show ?thesis by (auto simp: udigits_def str_def ch_def)
qed

lemma uint_digit: "k < 10 \<Longrightarrow> uint (48 + of_nat k :: byte) = 48 + int k"
  by (simp add: uint_word_ariths(1) unsigned_of_nat take_bit_nat_eq_self)

lemma digit_range: "k < 10 \<Longrightarrow> (48 :: byte) \<le> 48 + of_nat k \<and> (48 + of_nat k :: byte) \<le> 57"
  using uint_digit[of k] by (simp add: word_le_def)

lemma digit_buf_digits: "c \<in> set (digit_buf udigits 10 n) \<Longrightarrow> 48 \<le> c \<and> c \<le> 57"
proof (induction n rule: less_induct)
  case (less n)
  have "n div 10 < n" if "n div 10 \<noteq> 0" using that by (cases n) auto
  then show ?case
    using less.prems[unfolded digit_buf.simps[of udigits 10 n]] digit_range[of "n mod 10"] less.IH[of "n div 10"]
    by (auto simp: udigits_nth split: if_splits)
qed

lemma atoi_digits:
  "int n \<le> INT_MAX \<Longrightarrow>
     atoi_loop 0 (rev (digit_buf udigits 10 n)) = (if int n \<le> INT_MAX - 48 then Some (int n) else None)"
proof (induction n rule: less_induct)
  case (less n)
  let ?d = "48 + of_nat (n mod 10) :: byte" and ?q = "n div 10"
  have buf: "rev (digit_buf udigits 10 n) = (if ?q = 0 then [] else rev (digit_buf udigits 10 ?q)) @ [?d]"
    by (subst digit_buf.simps) (simp add: udigits_nth)
  have "int ?q \<le> INT_MAX - 48" using less.prems by (simp add: zdiv_int INT_MAX_def)
  then have q: "atoi_loop 0 (if ?q = 0 then [] else rev (digit_buf udigits 10 ?q)) = Some (int ?q)"
    using less.IH[of ?q] by auto
  have "\<forall>c \<in> set (if ?q = 0 then [] else rev (digit_buf udigits 10 ?q)). 48 \<le> c \<and> c \<le> 57"
    using digit_buf_digits[of _ ?q] by auto
  then have "atoi_loop 0 (rev (digit_buf udigits 10 n)) = atoi_loop (int ?q) [?d]"
    unfolding buf by (simp add: atoi_loop_append q)
  moreover have "int ?q * 10 + int (n mod 10) = int n" by (simp add: zdiv_int zmod_int)
  ultimately show ?case
    using less.prems digit_range[of "n mod 10"] uint_digit[of "n mod 10"] by (simp add: INT_MAX_def)
qed

text \<open>
  C24: what \<open>atoi\<close> makes of the characters \<open>printf\<close> prints for a \<open>%d\<close>, for every \<open>int\<close>: a number from 0 to
  \<open>INT_MAX - 48\<close> is read back; a negative number gives 0, for \<open>atoi\<close> stops at the sign; and for the 48
  numbers above \<open>INT_MAX - 48\<close> the signed sum \<open>n*10 + *s - '0'\<close>, which adds the character before it
  subtracts \<open>'0'\<close>, overflows, although the number itself fits an \<open>int\<close>.
\<close>

theorem atoi_reads_printint:
  assumes "- INT_MAX - 1 \<le> x" "x \<le> INT_MAX"
  shows "atoi (uprintint (of_int x) 10 True) = (if x < 0 then Some 0 else if x \<le> INT_MAX - 48 then Some x else None)"
proof (cases "x < 0")
  case True
  have "sint (of_int x :: uint64) = x"
    using assms by (simp add: INT_MAX_def signed_of_int signed_take_bit_int_eq_self)
  then show ?thesis
    using True by (simp add: atoi_def uprintint_def uprintint_buf_def ch_def)
next
  case False
  have u: "unat (of_int x :: uint64) = nat x"
    using assms False by (simp add: INT_MAX_def unat_eq_nat_uint uint_word_of_int_eq take_bit_int_eq_self)
  have "\<not> sint (of_int x :: uint64) < 0"
    using assms False by (simp add: INT_MAX_def signed_of_int signed_take_bit_int_eq_self)
  then show ?thesis
    using atoi_digits[of "nat x"] assms False by (simp add: atoi_def uprintint_def uprintint_buf_def u)
qed

theorem atoi_reads_printint_witness:
  "atoi (uprintint 2026 10 True) = Some 2026 \<and> atoi (uprintint (- 7) 10 True) = Some 0 \<and>
   atoi (uprintint (of_int INT_MAX) 10 True) = None"
  using atoi_reads_printint[of 2026] atoi_reads_printint[of "- 7"] atoi_reads_printint[of INT_MAX]
  by (simp add: INT_MAX_def)

end
