(* ===== verification/Textutil.thy ===== *)
theory Textutil
  imports User
begin

text \<open>
  \<open>user/grep.c\<close> and \<open>user/wc.c\<close>.  The regular expression matcher works on strings as lists; the
  programs read their input in chunks of whatever size the system returns.
\<close>

section \<open>The matcher (user/grep.c)\<close>

text \<open>\<open>re[i]\<close> for \<open>i\<close> up to the terminating NUL is \<open>fmt_at re i\<close>.\<close>

function matchhere :: "byte list \<Rightarrow> byte list \<Rightarrow> bool"
  and matchstar :: "byte \<Rightarrow> byte list \<Rightarrow> byte list \<Rightarrow> bool" where
  "matchhere re text =
     (if re = [] then True
      else if fmt_at re 1 = ch CHR ''*'' then matchstar (re ! 0) (drop 2 re) text
      else if re ! 0 = ch CHR ''$'' \<and> length re = 1 then text = []
      else if text \<noteq> [] \<and> (re ! 0 = ch CHR ''.'' \<or> re ! 0 = text ! 0) then matchhere (drop 1 re) (drop 1 text)
      else False)"
| "matchstar c re text =
     (if matchhere re text then True
      else if text \<noteq> [] \<and> (text ! 0 = c \<or> c = ch CHR ''.'') then matchstar c re (drop 1 text)
      else False)"
  by pat_completeness auto
termination
  by (relation "measures [case_sum (\<lambda>(re, _). 2 * length re) (\<lambda>(_, re, _). 2 * length re + 1),
        case_sum (\<lambda>(_, text). length text) (\<lambda>(_, _, text). length text)]")
    (auto simp: fmt_at_def ch_def split: if_splits)

declare matchhere.simps [simp del] matchstar.simps [simp del]

fun match_at :: "byte list \<Rightarrow> byte list \<Rightarrow> bool" where
  "match_at re [] = matchhere re []"
| "match_at re (c # cs) = (if matchhere re (c # cs) then True else match_at re cs)"

definition match_re :: "byte list \<Rightarrow> byte list \<Rightarrow> bool" where
  "match_re re text =
     (if re \<noteq> [] \<and> re ! 0 = ch CHR ''^'' then matchhere (drop 1 re) text else match_at re text)"

lemma ustrchr_less: "ustrchr p c = Some q \<Longrightarrow> q < length p \<and> p ! q = c \<and> (\<forall>i<q. p ! i \<noteq> c \<and> p ! i \<noteq> 0)"
proof (induction p arbitrary: q)
  case (Cons x xs)
  then show ?case by (auto split: if_splits simp: nth_Cons' less_Suc_eq_0_disj) blast+
qed simp

section \<open>grep\<close>

text \<open>The loop over the complete lines in the buffer; the result is the incomplete rest.\<close>

function grep_lines :: "byte list \<Rightarrow> byte list \<Rightarrow> world \<Rightarrow> byte list uout" where
  "grep_lines pattern p w =
     (case ustrchr p 10 of
        None \<Rightarrow> Done p w
      | Some q \<Rightarrow>
          useq (if match_re pattern (take q p) then ucall_ret (UWrite 1 (take (q + 1) p)) w else Done 0 w) (\<lambda>_ w.
          grep_lines pattern (drop (q + 1) p) w))"
  by pat_completeness auto
termination
  by (relation "measure (\<lambda>(_, p, _). length p)") (auto dest!: ustrchr_less)

declare grep_lines.simps [simp del]

text \<open>\<open>m\<close> bytes of an incomplete line are at the start of the buffer.\<close>

lemma grep_lines_le: "grep_lines pattern p w = Done r w' \<Longrightarrow> length (answers w') \<le> length (answers w)"
proof (induction pattern p w rule: grep_lines.induct)
  case (1 pattern p w)
  show ?case
  proof (cases "ustrchr p 10")
    case None
    then show ?thesis using "1.prems" by (subst (asm) grep_lines.simps) simp
  next
    case (Some q)
    then obtain a w1 where
      w1: "(if match_re pattern (take q p) then ucall_ret (UWrite 1 (take (q + 1) p)) w else Done 0 w) = Done a w1"
      "grep_lines pattern (drop (q + 1) p) w1 = Done r w'"
      using "1.prems" by (subst (asm) grep_lines.simps) (auto simp: useq_Done_iff)
    have "length (answers w1) \<le> length (answers w)"
      using w1(1) by (auto split: if_splits dest: ucall_ret_less)
    then show ?thesis using "1.IH"[OF Some w1] by simp
  qed
qed

function grep_loop :: "byte list \<Rightarrow> int \<Rightarrow> byte list \<Rightarrow> world \<Rightarrow> unit uout" where
  "grep_loop pattern fd pend w =
     useq (ucall (URead fd (1024 - length pend - 1)) w) (\<lambda>a w. case a of (n, d) \<Rightarrow>
     if 0 < n then useq (grep_lines pattern (pend @ take (nat n) d) w) (\<lambda>rest w. grep_loop pattern fd rest w)
     else Done () w)"
  by pat_completeness auto
termination
  by (relation "measure (\<lambda>(_, _, _, w). length (answers w))")
    (auto dest!: grep_lines_le ucall_less)

declare grep_loop.simps [simp del]

definition grep :: "byte list \<Rightarrow> int \<Rightarrow> world \<Rightarrow> unit uout" where
  "grep pattern fd w = grep_loop pattern fd [] w"

definition grep_file :: "byte list \<Rightarrow> byte list \<Rightarrow> world \<Rightarrow> unit uout" where
  "grep_file pattern a w =
     useq (ucall_ret (UOpen a O_RDONLY) w) (\<lambda>fd w.
     if fd < 0 then useq (uprintf (str ''grep: cannot open %s'' @ [10]) [AStr (Some a)] w) (\<lambda>_ w. Exited 1 w)
     else useq (grep pattern fd w) (\<lambda>_ w. useq (ucall_ret (UClose fd) w) (\<lambda>_ w. Done () w)))"

definition grep_main :: "byte list list \<Rightarrow> world \<Rightarrow> unit uout" where
  "grep_main args w =
     (case args of
        [] \<Rightarrow> useq (fprintf 2 (str ''usage: grep pattern [file ...]'' @ [10]) [] w) (\<lambda>_ w. Exited 1 w)
      | [pattern] \<Rightarrow> useq (grep pattern 0 w) (\<lambda>_ w. Exited 0 w)
      | pattern # files \<Rightarrow> useq (uforeach files (grep_file pattern) w) (\<lambda>_ w. Exited 0 w))"

section \<open>wc (user/wc.c)\<close>

record counts =
  wc_l :: int
  wc_w :: int
  wc_c :: int
  inword :: bool

definition wc_blank :: "byte list" where
  "wc_blank = [32, 13, 9, 10, 11]"

definition wc_step :: "byte \<Rightarrow> counts \<Rightarrow> counts" where
  "wc_step b k =
     (let k = k\<lparr>wc_c := wc_c k + 1\<rparr>;
          k = (if b = 10 then k\<lparr>wc_l := wc_l k + 1\<rparr> else k)
      in if ustrchr wc_blank b \<noteq> None then k\<lparr>inword := False\<rparr>
         else if \<not> inword k then k\<lparr>wc_w := wc_w k + 1, inword := True\<rparr> else k)"

function wc_loop :: "int \<Rightarrow> byte list \<Rightarrow> counts \<Rightarrow> world \<Rightarrow> unit uout" where
  "wc_loop fd name k w =
     useq (ucall (URead fd 512) w) (\<lambda>a w. case a of (n, d) \<Rightarrow>
     if 0 < n then
       let k = fold wc_step (take (nat n) d) k in
       if INT_MAX < wc_c k then Crash else wc_loop fd name k w
     else if n < 0 then useq (uprintf (str ''wc: read error'' @ [10]) [] w) (\<lambda>_ w. Exited 1 w)
     else uprintf (str ''%d %d %d %s'' @ [10])
            [AInt (of_int (wc_l k)), AInt (of_int (wc_w k)), AInt (of_int (wc_c k)), AStr (Some name)] w)"
  by pat_completeness auto
termination
  by (relation "measure (\<lambda>(_, _, _, w). length (answers w))") auto

declare wc_loop.simps [simp del]

definition wc :: "int \<Rightarrow> byte list \<Rightarrow> world \<Rightarrow> unit uout" where
  "wc fd name w = wc_loop fd name \<lparr>wc_l = 0, wc_w = 0, wc_c = 0, inword = False\<rparr> w"

definition wc_file :: "byte list \<Rightarrow> world \<Rightarrow> unit uout" where
  "wc_file a w =
     useq (ucall_ret (UOpen a O_RDONLY) w) (\<lambda>fd w.
     if fd < 0 then useq (uprintf (str ''wc: cannot open %s'' @ [10]) [AStr (Some a)] w) (\<lambda>_ w. Exited 1 w)
     else useq (wc fd a w) (\<lambda>_ w. useq (ucall_ret (UClose fd) w) (\<lambda>_ w. Done () w)))"

definition wc_main :: "byte list list \<Rightarrow> world \<Rightarrow> unit uout" where
  "wc_main args w =
     (if args = [] then useq (wc 0 [] w) (\<lambda>_ w. Exited 0 w)
      else useq (uforeach args wc_file w) (\<lambda>_ w. Exited 0 w))"

section \<open>What a pattern means\<close>

datatype re_item = One byte | Star byte

text \<open>The items of a pattern, and whether it ends in the end-of-line mark.\<close>

fun re_items :: "byte list \<Rightarrow> re_item list \<times> bool" where
  "re_items [] = ([], False)"
| "re_items [c] = (if c = ch CHR ''$'' then ([], True) else ([One c], False))"
| "re_items (c # d # r) =
     (if d = ch CHR ''*'' then (Star c # fst (re_items r), snd (re_items r))
      else (One c # fst (re_items (d # r)), snd (re_items (d # r))))"

definition fits :: "byte \<Rightarrow> byte \<Rightarrow> bool" where
  "fits c x \<longleftrightarrow> c = ch CHR ''.'' \<or> c = x"

fun re_lang :: "re_item list \<Rightarrow> byte list \<Rightarrow> bool" where
  "re_lang [] xs \<longleftrightarrow> xs = []"
| "re_lang (One c # r) xs \<longleftrightarrow> (\<exists>x ys. xs = x # ys \<and> fits c x \<and> re_lang r ys)"
| "re_lang (Star c # r) xs \<longleftrightarrow> (\<exists>us vs. xs = us @ vs \<and> (\<forall>x \<in> set us. fits c x) \<and> re_lang r vs)"

text \<open>A prefix of the t is in the language, all of it if the pattern ends in the mark.\<close>

definition begins :: "re_item list \<times> bool \<Rightarrow> byte list \<Rightarrow> bool" where
  "begins p t \<longleftrightarrow> (\<exists>pre suf. t = pre @ suf \<and> re_lang (fst p) pre \<and> (snd p \<longrightarrow> suf = []))"

lemma begins_Nil: "begins ([], e) t \<longleftrightarrow> (e \<longrightarrow> t = [])"
  by (auto simp: begins_def)

lemma begins_One:
  "begins (One c # r, e) t \<longleftrightarrow> (\<exists>x ys. t = x # ys \<and> fits c x \<and> begins (r, e) ys)"
proof
  assume "begins (One c # r, e) t"
  then obtain pre suf where 1: "t = pre @ suf" "re_lang (One c # r) pre" "e \<longrightarrow> suf = []"
    unfolding begins_def fst_conv snd_conv by blast
  then obtain x ys where 2: "pre = x # ys" "fits c x" "re_lang r ys" by auto
  then have "begins (r, e) (ys @ suf)" using 1(3) unfolding begins_def fst_conv snd_conv by blast
  then show "\<exists>x ys. t = x # ys \<and> fits c x \<and> begins (r, e) ys"
    using 1(1) 2 by simp
next
  assume "\<exists>x ys. t = x # ys \<and> fits c x \<and> begins (r, e) ys"
  then obtain x pre suf where 1: "t = x # pre @ suf" "fits c x" "re_lang r pre" "e \<longrightarrow> suf = []"
    unfolding begins_def fst_conv snd_conv by blast
  then have "re_lang (One c # r) (x # pre)" by simp
  then show "begins (One c # r, e) t"
    unfolding begins_def fst_conv snd_conv using 1 by (intro exI[of _ "x # pre"] exI[of _ suf]) simp
qed

lemma begins_Star:
  "begins (Star c # r, e) t \<longleftrightarrow> (\<exists>us vs. t = us @ vs \<and> (\<forall>x \<in> set us. fits c x) \<and> begins (r, e) vs)"
proof
  assume "begins (Star c # r, e) t"
  then obtain pre suf where 1: "t = pre @ suf" "re_lang (Star c # r) pre" "e \<longrightarrow> suf = []"
    unfolding begins_def fst_conv snd_conv by blast
  then obtain us vs where 2: "pre = us @ vs" "\<forall>x \<in> set us. fits c x" "re_lang r vs" by auto
  then have "begins (r, e) (vs @ suf)" using 1(3) unfolding begins_def fst_conv snd_conv by blast
  then show "\<exists>us vs. t = us @ vs \<and> (\<forall>x \<in> set us. fits c x) \<and> begins (r, e) vs"
    using 1(1) 2 by (intro exI[of _ us] exI[of _ "vs @ suf"]) simp
next
  assume "\<exists>us vs. t = us @ vs \<and> (\<forall>x \<in> set us. fits c x) \<and> begins (r, e) vs"
  then obtain us pre suf where 1: "t = us @ pre @ suf" "\<forall>x \<in> set us. fits c x" "re_lang r pre" "e \<longrightarrow> suf = []"
    unfolding begins_def fst_conv snd_conv by blast
  then have "re_lang (Star c # r) (us @ pre)" by (simp only: re_lang.simps) blast
  then show "begins (Star c # r, e) t"
    unfolding begins_def fst_conv snd_conv using 1 by (intro exI[of _ "us @ pre"] exI[of _ suf]) simp
qed

lemma begins_Star_step:
  "begins (Star c # r, e) t \<longleftrightarrow>
     begins (r, e) t \<or> (t \<noteq> [] \<and> fits c (t ! 0) \<and> begins (Star c # r, e) (drop 1 t))"
proof (cases t)
  case (Cons x ys)
  have "(\<exists>us vs. x # ys = us @ vs \<and> (\<forall>z \<in> set us. fits c z) \<and> begins (r, e) vs) \<longleftrightarrow>
    begins (r, e) (x # ys) \<or> fits c x \<and> (\<exists>us vs. ys = us @ vs \<and> (\<forall>z \<in> set us. fits c z) \<and> begins (r, e) vs)"
    (is "?l \<longleftrightarrow> ?r")
  proof
    assume ?l
    then obtain us vs where "x # ys = us @ vs" "\<forall>z \<in> set us. fits c z" "begins (r, e) vs" by blast
    then show ?r by (cases us) auto
  next
    assume ?r
    then show ?l
    proof
      assume "begins (r, e) (x # ys)"
      then show ?l by (intro exI[of _ "[]"] exI[of _ "x # ys"]) simp
    next
      assume "fits c x \<and> (\<exists>us vs. ys = us @ vs \<and> (\<forall>z \<in> set us. fits c z) \<and> begins (r, e) vs)"
      then obtain us vs where "fits c x" "ys = us @ vs" "\<forall>z \<in> set us. fits c z" "begins (r, e) vs" by blast
      then show ?l by (intro exI[of _ "x # us"] exI[of _ vs]) simp
    qed
  qed
  then show ?thesis
    unfolding Cons begins_Star by (simp only: One_nat_def drop_Suc_Cons drop_0 nth_Cons_0) simp
qed (simp add: begins_Star)

lemma matchhere_begins:
  "matchhere re t \<longleftrightarrow> begins (re_items re) t"
  "matchstar c re t \<longleftrightarrow> begins (Star c # fst (re_items re), snd (re_items re)) t"
proof (induction re t and c re t rule: matchhere_matchstar.induct)
  case (1 re t)
  consider "re = []" | c where "re = [c]" | c d r where "re = c # d # r"
    by (metis list.exhaust)
  then show ?case
  proof cases
    case 1
    then show ?thesis by (simp add: matchhere.simps begins_Nil)
  next
    case (2 c)
    then show ?thesis using "1.IH"(2)
      by (subst matchhere.simps)
        (cases t; auto simp: fmt_at_def ch_def begins_Nil begins_One fits_def)
  next
    case (3 c d r)
    then show ?thesis using "1.IH"
      by (subst matchhere.simps)
        (cases t; auto simp: fmt_at_def begins_One fits_def)
  qed
next
  case (2 c re t)
  show ?case
    unfolding begins_Star_step[of c "fst (re_items re)" "snd (re_items re)" t]
    using "2.IH" by (subst matchstar.simps) (auto simp: fits_def)
qed

lemma match_at_begins: "match_at re t \<longleftrightarrow> (\<exists>skip rest. t = skip @ rest \<and> begins (re_items re) rest)"
proof (induction t)
  case (Cons c cs)
  then show ?case by (auto simp: matchhere_begins Cons_eq_append_conv)
qed (simp add: matchhere_begins)

text \<open>
  C20: \<open>grep\<close>'s matcher decides the language of the pattern.  Read as items (a character, \<open>.\<close> for any
  character, a starred one, a final \<open>$\<close>), the pattern matches a line exactly when some substring of
  the line is in the language of the items: at the start of the line if the pattern begins with
  \<open>^\<close>, up to its end if it ends in \<open>$\<close>.  Backtracking loses no match and invents none.
\<close>

theorem match_re_decides_language:
  "match_re re t \<longleftrightarrow>
     (let anchored = (re \<noteq> [] \<and> hd re = ch CHR ''^''); (items, eol) = re_items (if anchored then tl re else re) in
      \<exists>skip pre suf. t = skip @ pre @ suf \<and> (anchored \<longrightarrow> skip = []) \<and> re_lang items pre \<and> (eol \<longrightarrow> suf = []))"
proof (cases "re \<noteq> [] \<and> hd re = ch CHR ''^''")
  case True
  then show ?thesis
    by (cases re) (auto simp: match_re_def matchhere_begins begins_def Let_def split: prod.splits)
next
  case False
  then have "match_re re t \<longleftrightarrow> (\<exists>skip rest. t = skip @ rest \<and> begins (re_items re) rest)"
    by (auto simp: match_re_def hd_conv_nth match_at_begins)
  also have "\<dots> \<longleftrightarrow> (\<exists>skip pre suf. t = skip @ pre @ suf \<and> re_lang (fst (re_items re)) pre \<and> (snd (re_items re) \<longrightarrow> suf = []))"
    unfolding begins_def by blast
  finally have eq: "match_re re t \<longleftrightarrow> (\<exists>skip pre suf. t = skip @ pre @ suf \<and> re_lang (fst (re_items re)) pre \<and>
    (snd (re_items re) \<longrightarrow> suf = []))" .
  have "(re \<noteq> [] \<and> hd re = ch CHR ''^'') = False" using False by blast
  then show ?thesis
    by (simp only: Let_def eq if_False simp_thms case_prod_beta)
qed

theorem match_re_decides_language_witness: "match_re (str ''^a*b$'') (str ''aab'')"
proof -
  have r: "re_items (tl (str ''^a*b$'')) = ([Star (ch CHR ''a''), One (ch CHR ''b'')], True)"
    "hd (str ''^a*b$'') = ch CHR ''^''" "str ''^a*b$'' \<noteq> []"
    by (simp_all add: str_def ch_def)
  have "re_lang [Star (ch CHR ''a''), One (ch CHR ''b'')] (str ''aab'')"
    unfolding re_lang.simps
    by (intro exI[of _ "str ''aa''"] exI[of _ "str ''b''"] conjI exI[of _ "ch CHR ''b''"] exI[of _ "[]"])
      (simp_all add: str_def fits_def)
  moreover have "str ''aab'' = [] @ str ''aab'' @ []" by simp
  ultimately show ?thesis
    using match_re_decides_language[of "str ''^a*b$''" "str ''aab''"]
    by (simp only: r Let_def simp_thms if_True prod.case) blast
qed

section \<open>Input and output of a run\<close>

text \<open>The bytes a run has written to \<open>fd\<close>, and the bytes its reads of \<open>fd\<close> have returned.\<close>

fun written :: "int \<Rightarrow> (ucall \<times> answer) list \<Rightarrow> byte list" where
  "written fd [] = []"
| "written fd ((UWrite f bs, _) # es) = (if f = fd then bs else []) @ written fd es"
| "written fd (_ # es) = written fd es"

fun input :: "int \<Rightarrow> (ucall \<times> answer) list \<Rightarrow> byte list" where
  "input fd [] = []"
| "input fd ((URead f k, n, d) # es) = (if f = fd \<and> 0 < n then take (nat n) d else []) @ input fd es"
| "input fd (_ # es) = input fd es"

lemma written_append [simp]: "written fd (xs @ ys) = written fd xs @ written fd ys"
  by (induction fd xs rule: written.induct) auto

lemma input_append [simp]: "input fd (xs @ ys) = input fd xs @ input fd ys"
  by (induction fd xs rule: input.induct) auto

text \<open>\<open>w'\<close> is \<open>w\<close> after the events \<open>es\<close>, which used up their answers.\<close>

definition after :: "world \<Rightarrow> (ucall \<times> answer) list \<Rightarrow> world \<Rightarrow> bool" where
  "after w es w' \<longleftrightarrow> events w' = events w @ es \<and> answers w = map snd es @ answers w'"

lemma after_ucall: "ucall c w = Done a w' \<Longrightarrow> after w [(c, a)] w'"
  by (auto simp: ucall_Done after_def)

lemma after_ret: "ucall_ret c w = Done r w' \<Longrightarrow> \<exists>d. after w [(c, r, d)] w'"
  by (auto simp: ucall_ret_def useq_Done_iff dest!: after_ucall)

lemma after_refl: "after w [] w"
  by (simp add: after_def)

lemma after_trans: "after u xs v \<Longrightarrow> after v ys w \<Longrightarrow> after u (xs @ ys) w"
  by (simp add: after_def)

lemma putcs_after:
  "putcs fd cs w = Done u w' \<Longrightarrow>
     \<exists>es. after w es w' \<and> written fd es = cs \<and> (\<forall>g. g \<noteq> fd \<longrightarrow> written g es = []) \<and> (\<forall>g. input g es = [])"
proof (induction cs arbitrary: w)
  case Nil
  then show ?case by (intro exI[of _ "[]"]) (simp add: after_def)
next
  case (Cons c cs)
  then obtain a v where v: "ucall (UWrite fd [c]) w = Done a v" "putcs fd cs v = Done u w'"
    by (auto simp: putc_def useq_Done_iff)
  from Cons.IH[OF v(2)] obtain es where es: "after v es w'" "written fd es = cs"
    "\<forall>g. g \<noteq> fd \<longrightarrow> written g es = []" "\<forall>g. input g es = []" by blast
  then show ?case
    using after_trans[OF after_ucall[OF v(1)] es(1)]
    by (intro exI[of _ "(UWrite fd [c], a) # es"]) (cases a; auto)
qed

section \<open>grep prints the matching lines\<close>

text \<open>The complete lines of a text, without their newlines, and the incomplete rest.\<close>

fun lines_of :: "byte list \<Rightarrow> byte list \<times> byte list list \<Rightarrow> byte list \<times> byte list list" where
  "lines_of [] (cur, acc) = (cur, acc)"
| "lines_of (c # cs) (cur, acc) =
     (if c = 10 then lines_of cs ([], acc @ [cur]) else lines_of cs (cur @ [c], acc))"

definition complete_lines :: "byte list \<Rightarrow> byte list list" where
  "complete_lines bs = snd (lines_of bs ([], []))"

definition grep_output :: "byte list \<Rightarrow> byte list list \<Rightarrow> byte list" where
  "grep_output pattern acc = concat (map (\<lambda>l. l @ [10]) (filter (match_re pattern) acc))"

lemma lines_of_append: "lines_of (xs @ ys) st = lines_of ys (lines_of xs st)"
  by (induction xs st rule: lines_of.induct) auto

lemma lines_of_ls: "lines_of bs (cur, acc) = (fst (lines_of bs (cur, [])), acc @ snd (lines_of bs (cur, [])))"
proof (induction bs arbitrary: cur acc)
  case (Cons c cs)
  show ?case
    using Cons[of "[]" "acc @ [cur]"] Cons[of "[]" "[cur]"] Cons[of "cur @ [c]" acc] Cons[of "cur @ [c]" "[]"]
    by simp
qed simp

lemma lines_of_no_newline: "10 \<notin> set xs \<Longrightarrow> lines_of xs (cur, acc) = (cur @ xs, acc)"
  by (induction xs arbitrary: cur) auto

lemma lines_of_newline:
  "10 \<notin> set xs \<Longrightarrow> lines_of (xs @ 10 # ys) ([], acc) = lines_of ys ([], acc @ [xs])"
  by (simp add: lines_of_append lines_of_no_newline)

lemma ustrchr_None: "ustrchr p c = None \<Longrightarrow> 0 \<notin> set p \<Longrightarrow> c \<notin> set p"
  by (induction p) (auto split: if_splits)

lemma ustrchr_split:
  assumes "ustrchr p 10 = Some q"
  shows "p = take q p @ 10 # drop (q + 1) p" "10 \<notin> set (take q p)" "take (q + 1) p = take q p @ [10]"
proof -
  have q: "q < length p" "p ! q = 10" "\<forall>i<q. p ! i \<noteq> 10" using ustrchr_less[OF assms] by auto
  show "p = take q p @ 10 # drop (q + 1) p" using id_take_nth_drop[OF q(1)] q(2) by simp
  show "10 \<notin> set (take q p)" using q by (auto simp: in_set_conv_nth)
  show "take (q + 1) p = take q p @ [10]" using q by (simp add: take_Suc_conv_app_nth)
qed

lemma grep_lines_spec:
  assumes "grep_lines pattern p w = Done r w'" "0 \<notin> set p"
  shows "\<exists>es. after w es w' \<and> lines_of p ([], []) = (r, snd (lines_of p ([], []))) \<and>
    written 1 es = grep_output pattern (snd (lines_of p ([], []))) \<and> input fd es = [] \<and> 10 \<notin> set r \<and> 0 \<notin> set r"
  using assms
proof (induction pattern p w rule: grep_lines.induct)
  case (1 pattern p w)
  show ?case
  proof (cases "ustrchr p 10")
    case None
    then have "r = p" "w' = w" using "1.prems"(1) by (auto simp: grep_lines.simps[of pattern p w])
    then show ?thesis
      using ustrchr_None[OF None "1.prems"(2)] "1.prems"(2) lines_of_no_newline[of p "[]" "[]"] after_refl[of w]
      by (intro exI[of _ "[]"]) (simp add: grep_output_def)
  next
    case (Some q)
    let ?l = "take q p" and ?p = "drop (q + 1) p"
    obtain a w1 where
      w1: "(if match_re pattern ?l then ucall_ret (UWrite 1 (take (q + 1) p)) w else Done 0 w) = Done a w1"
      "grep_lines pattern ?p w1 = Done r w'"
      using "1.prems" Some by (subst (asm) grep_lines.simps) (auto simp: useq_Done_iff)
    have "0 \<notin> set ?p" using "1.prems"(2) by (meson in_set_dropD)
    from "1.IH"[OF Some w1 this] obtain es where es: "after w1 es w'"
      "lines_of ?p ([], []) = (r, snd (lines_of ?p ([], [])))"
      "written 1 es = grep_output pattern (snd (lines_of ?p ([], [])))" "input fd es = []" "10 \<notin> set r \<and> 0 \<notin> set r"
      by blast
    note sp = ustrchr_split[OF Some]
    have "lines_of p ([], []) = lines_of ?p ([], [?l])"
      using lines_of_newline[OF sp(2), of ?p "[]"] sp(1) by simp
    also have "\<dots> = (r, ?l # snd (lines_of ?p ([], [])))"
      using arg_cong[OF es(2), of fst] lines_of_ls[of ?p "[]" "[?l]"] by simp
    finally have ln: "lines_of p ([], []) = (r, ?l # snd (lines_of ?p ([], [])))" .
    obtain es1 where es1: "after w es1 w1" "input fd es1 = []"
      "written 1 es1 = (if match_re pattern ?l then ?l @ [10] else [])"
    proof (cases "match_re pattern ?l")
      case True
      then obtain d where "after w [(UWrite 1 (?l @ [10]), a, d)] w1"
        using w1(1) after_ret[of "UWrite 1 (?l @ [10])" w a w1] sp(3) by auto
      then show thesis using True by (intro that) auto
    next
      case False
      then show thesis using w1(1) after_refl[of w] by (intro that[of "[]"]) auto
    qed
    have "after w (es1 @ es) w'" using after_trans[OF es1(1) es(1)] .
    then show ?thesis
      using es(3-5) es1(2,3) unfolding ln by (intro exI[of _ "es1 @ es"]) (auto simp: grep_output_def)
  qed
qed

lemma grep_loop_spec:
  assumes "grep_loop pattern fd pend w = Done () w'" "10 \<notin> set pend" "0 \<notin> set pend"
    and "\<forall>(n, d) \<in> set (answers w). 0 \<notin> set d"
  shows "\<exists>es. after w es w' \<and> written 1 es = grep_output pattern (complete_lines (pend @ input fd es))"
  using assms
proof (induction pattern fd pend w rule: grep_loop.induct)
  case (1 pattern fd pend w)
  let ?c = "URead fd (1024 - length pend - 1)"
  obtain n d w1 where w1: "ucall ?c w = Done (n, d) w1" "(if 0 < n then
      useq (grep_lines pattern (pend @ take (nat n) d) w1) (\<lambda>rest w. grep_loop pattern fd rest w) else Done () w1) = Done () w'"
    using "1.prems"(1) by (subst (asm) grep_loop.simps) (auto simp: useq_Done_iff)
  note a1 = after_ucall[OF w1(1)]
  show ?case
  proof (cases "0 < n")
    case False
    then show ?thesis
      using w1 a1 lines_of_no_newline[OF "1.prems"(2), of "[]" "[]"]
      by (intro exI[of _ "[(?c, n, d)]"]) (auto simp: complete_lines_def grep_output_def)
  next
    case True
    let ?p = "pend @ take (nat n) d"
    obtain rest w2 where w2: "grep_lines pattern ?p w1 = Done rest w2" "grep_loop pattern fd rest w2 = Done () w'"
      using w1(2) True by (auto simp: useq_Done_iff)
    have "0 \<notin> set ?p" using "1.prems"(3,4) a1 by (auto simp: after_def dest: in_set_takeD)
    from grep_lines_spec[OF w2(1) this, of fd] obtain e1 where e1: "after w1 e1 w2"
      "lines_of ?p ([], []) = (rest, snd (lines_of ?p ([], [])))"
      "written 1 e1 = grep_output pattern (snd (lines_of ?p ([], [])))" "input fd e1 = []"
      "10 \<notin> set rest" "0 \<notin> set rest" by blast
    have "\<forall>(n, d) \<in> set (answers w2). 0 \<notin> set d"
      using "1.prems"(4) a1 e1(1) by (auto simp: after_def)
    from "1.IH"[OF w1(1) refl True w2 e1(5,6) this] obtain e2 where e2: "after w2 e2 w'"
      "written 1 e2 = grep_output pattern (complete_lines (rest @ input fd e2))" by blast
    let ?es = "[(?c, n, d)] @ e1 @ e2"
    have "lines_of (?p @ x) ([], []) = lines_of x (rest, snd (lines_of ?p ([], [])))" for x
      using e1(2) lines_of_append[of ?p x "([], [])"] by simp
    moreover have "lines_of x (rest, []) = lines_of (rest @ x) ([], [])" for x
      using lines_of_no_newline[OF e1(5), of "[]" "[]"] by (simp add: lines_of_append)
    ultimately have "complete_lines (?p @ x) = snd (lines_of ?p ([], [])) @ complete_lines (rest @ x)" for x
      unfolding complete_lines_def using lines_of_ls[of x rest "snd (lines_of ?p ([], []))"] by simp
    moreover have "after w ?es w'" using after_trans[OF a1 after_trans[OF e1(1) e2(1)]] .
    ultimately show ?thesis
      using e1(3,4) e2(2) True by (intro exI[of _ ?es]) (simp add: grep_output_def)
  qed
qed

text \<open>
  C21: \<open>grep\<close> prints exactly the matching lines.  However the system cuts the input into reads, when
  \<open>grep\<close> returns it has written, in order and each with its newline, the lines of what it has read
  that match the pattern, and nothing else.  (Input with NUL bytes is excluded: the C string
  functions end there.)
\<close>

theorem grep_prints_matching_lines:
  assumes "grep pattern fd w = Done () w'" "\<forall>(n, d) \<in> set (answers w). 0 \<notin> set d"
  shows "\<exists>es. events w' = events w @ es \<and>
    written 1 es = grep_output pattern (complete_lines (input fd es))"
  using grep_loop_spec[of pattern fd "[]" w w'] assms by (auto simp: grep_def after_def)

definition example_input :: world where
  "example_input = \<lparr>answers = [(4, str ''ab'' @ [10, 99]), (2, str ''d'' @ [10]), (0, [])], events = []\<rparr>"

theorem grep_prints_matching_lines_witness:
  "\<exists>w' es. grep (str ''b'') 0 example_input = Done () w' \<and> events w' = es \<and>
    written 1 es = grep_output (str ''b'') (complete_lines (input 0 es))"
proof -
  have m: "match_re [98] [97, 98]" "\<not> match_re [98] [99, 100]"
    by (simp_all add: match_re_def matchhere.simps fmt_at_def ch_def)
  have "\<exists>w'. grep (str ''b'') 0 example_input = Done () w'"
    using m by (simp add: grep_def example_input_def grep_loop.simps grep_lines.simps ucall_ret_def ucall_def str_def ch_def)
  then obtain w' where "grep (str ''b'') 0 example_input = Done () w'" by blast
  moreover have "\<forall>(n, d) \<in> set (answers example_input). 0 \<notin> set d"
    by (simp add: example_input_def str_def ch_def)
  ultimately show ?thesis
    using grep_prints_matching_lines[of "str ''b''" 0 example_input w'] by (auto simp: example_input_def)
qed

section \<open>wc counts\<close>

definition blank :: "byte \<Rightarrow> bool" where
  "blank b \<longleftrightarrow> b \<in> {32, 13, 9, 10, 11}"

text \<open>A word starts at a byte that is not blank and follows the start of the text or a blank.\<close>

definition words :: "byte list \<Rightarrow> nat" where
  "words bs = length (filter (\<lambda>i. \<not> blank (bs ! i) \<and> (i = 0 \<or> blank (bs ! (i - 1)))) [0..<length bs])"

lemma ustrchr_blank: "ustrchr wc_blank b \<noteq> None \<longleftrightarrow> blank b"
  by (auto simp: wc_blank_def blank_def)

lemma words_snoc: "words (bs @ [b]) = words bs + (if \<not> blank b \<and> (bs = [] \<or> blank (last bs)) then 1 else 0)"
proof -
  have "filter (\<lambda>i. \<not> blank ((bs @ [b]) ! i) \<and> (i = 0 \<or> blank ((bs @ [b]) ! (i - 1)))) [0..<length bs] =
    filter (\<lambda>i. \<not> blank (bs ! i) \<and> (i = 0 \<or> blank (bs ! (i - 1)))) [0..<length bs]"
    by (rule filter_cong) (auto simp: nth_append)
  then show ?thesis
    by (cases "bs = []") (auto simp: words_def nth_append last_conv_nth)
qed

lemma wc_fold:
  "fold wc_step bs \<lparr>wc_l = 0, wc_w = 0, wc_c = 0, inword = False\<rparr> =
     \<lparr>wc_l = int (length (filter (\<lambda>b. b = 10) bs)), wc_w = int (words bs), wc_c = int (length bs),
      inword = (bs \<noteq> [] \<and> \<not> blank (last bs))\<rparr>"
proof (induction bs rule: rev_induct)
  case Nil
  then show ?case by (simp add: words_def)
next
  case (snoc b bs)
  then show ?case
    by (auto simp: wc_step_def Let_def ustrchr_blank[unfolded not_None_eq] words_snoc blank_def)
qed

lemma wc_loop_spec:
  assumes "wc_loop fd name (fold wc_step pre \<lparr>wc_l = 0, wc_w = 0, wc_c = 0, inword = False\<rparr>) w = Done () w'"
    and "fd \<noteq> 1"
  shows "\<exists>es. after w es w' \<and> (let bs = pre @ input fd es in
    uformat False (str ''%d %d %d %s'' @ [10])
      [AInt (of_nat (length (filter (\<lambda>b. b = 10) bs))), AInt (of_nat (words bs)), AInt (of_nat (length bs)), AStr (Some name)]
    = Some (written 1 es))"
  using assms(1)
proof (induction "length (answers w)" arbitrary: w pre rule: less_induct)
  case less
  let ?k = "\<lambda>bs. fold wc_step bs \<lparr>wc_l = 0, wc_w = 0, wc_c = 0, inword = False\<rparr>"
  let ?fmt = "str ''%d %d %d %s'' @ [10]"
  obtain n d w1 where w1: "ucall (URead fd 512) w = Done (n, d) w1" "(if 0 < n then
       let k = fold wc_step (take (nat n) d) (?k pre) in if INT_MAX < wc_c k then Crash else wc_loop fd name k w1
     else if n < 0 then useq (uprintf (str ''wc: read error'' @ [10]) [] w1) (\<lambda>_ w. Exited 1 w)
     else uprintf ?fmt [AInt (of_int (wc_l (?k pre))), AInt (of_int (wc_w (?k pre))), AInt (of_int (wc_c (?k pre))), AStr (Some name)] w1)
     = Done () w'"
    using less.prems[unfolded wc_loop.simps[of fd name "?k pre" w]] by (auto simp: useq_Done_iff)
  note a1 = after_ucall[OF w1(1)]
  consider "0 < n" | "n < 0" | "n = 0" by linarith
  then show ?case
  proof cases
    case 1
    then have "wc_loop fd name (?k (pre @ take (nat n) d)) w1 = Done () w'"
      using w1(2) by (simp add: Let_def split: if_splits)
    from less.hyps[OF ucall_less[OF w1(1)] this] obtain es where es: "after w1 es w'"
      "let bs = (pre @ take (nat n) d) @ input fd es in
        uformat False ?fmt
          [AInt (of_nat (length (filter (\<lambda>b. b = 10) bs))), AInt (of_nat (words bs)), AInt (of_nat (length bs)), AStr (Some name)]
        = Some (written 1 es)" by blast
    then show ?thesis
      using after_trans[OF a1 es(1)] 1 by (intro exI[of _ "[(URead fd 512, n, d)] @ es"]) simp
  next
    case 2
    then show ?thesis using w1(2) by (auto simp: useq_Done_iff)
  next
    case 3
    then obtain out where out: "uformat False ?fmt
        [AInt (of_int (wc_l (?k pre))), AInt (of_int (wc_w (?k pre))), AInt (of_int (wc_c (?k pre))), AStr (Some name)] = Some out"
      "putcs 1 out w1 = Done () w'"
      using w1(2) by (auto simp: uprintf_def fprintf_def split: option.splits)
    from putcs_after[OF out(2)] obtain es where es: "after w1 es w'" "written 1 es = out" "input fd es = []" by blast
    then show ?thesis
      using after_trans[OF a1 es(1)] 3 out(1) by (intro exI[of _ "[(URead fd 512, n, d)] @ es"]) (simp add: wc_fold)
  qed
qed

text \<open>
  C22: \<open>wc\<close> prints the numbers of newlines, words and bytes of what it has read, in this order and
  followed by the name, however the system cuts the input into reads: a word that two reads share
  counts once.
\<close>

theorem wc_prints_counts:
  assumes "wc fd name w = Done () w'" "fd \<noteq> 1"
  shows "\<exists>es. events w' = events w @ es \<and> (let bs = input fd es in
    uformat False (str ''%d %d %d %s'' @ [10])
      [AInt (of_nat (length (filter (\<lambda>b. b = 10) bs))), AInt (of_nat (words bs)), AInt (of_nat (length bs)), AStr (Some name)]
    = Some (written 1 es))"
  using wc_loop_spec[of fd name "[]" w w'] assms by (auto simp: wc_def after_def)

definition example_text :: world where
  "example_text = \<lparr>answers = [(2, [97, 98]), (3, [99, 32, 100]), (0, []), (1, []), (1, []), (1, []), (1, []),
     (1, []), (1, []), (1, [])], events = []\<rparr>"

theorem wc_prints_counts_witness:
  "\<exists>w' es. wc 0 [] example_text = Done () w' \<and> events w' = es \<and>
    (let bs = input 0 es in uformat False (str ''%d %d %d %s'' @ [10])
      [AInt (of_nat (length (filter (\<lambda>b. b = 10) bs))), AInt (of_nat (words bs)), AInt (of_nat (length bs)), AStr (Some [])]
    = Some (written 1 es))"
proof -
  have f: "uformat False (str ''%d %d %d %s'' @ [10]) [AInt 0, AInt 2, AInt 5, AStr (Some [])] =
      Some [48, 32, 50, 32, 53, 32, 10]" by code_simp
  have "wc 0 [] example_text = uprintf (str ''%d %d %d %s'' @ [10]) [AInt 0, AInt 2, AInt 5, AStr (Some [])]
      \<lparr>answers = drop 3 (answers example_text), events = [(URead 0 512, 2, [97, 98]), (URead 0 512, 3, [99, 32, 100]),
        (URead 0 512, 0, [])]\<rparr>"
    by (simp add: example_text_def wc_def wc_loop.simps ucall_def wc_step_def Let_def wc_blank_def INT_MAX_def)
  then have "\<exists>w'. wc 0 [] example_text = Done () w'"
    by (simp add: f uprintf_def fprintf_def putc_def ucall_def example_text_def)
  then obtain w' where "wc 0 [] example_text = Done () w'" by blast
  from wc_prints_counts[OF this] show ?thesis
    using \<open>wc 0 [] example_text = Done () w'\<close> by (auto simp: example_text_def)
qed

end
