(* ===== verification/Sh.thy ===== *)
theory Sh
  imports Textutil
begin

text \<open>
  The shell \<open>user/sh.c\<close>.  The command line is the list of its bytes without the final NUL; a
  \<open>char*\<close> into it is an index, and \<open>*s\<close> is \<open>fmt_at b s\<close>, which is 0 at the end.  A parsed command
  refers to its words by the indices of their first byte and of the byte after the last, as
  \<open>argv\<close>/\<open>eargv\<close> and \<open>file\<close>/\<open>efile\<close> do; \<open>nulterminate\<close> then writes a NUL after each word.  \<open>malloc\<close> is
  taken to succeed, so the constructors of \<open>cmd\<close> are the constructor functions.

  The four parsing functions are mutually recursive and take fuel; \<open>parsecmd_comes_back\<close> shows that
  what \<open>parsecmd\<close> gives them is enough for every command line.
\<close>

section \<open>Commands\<close>

definition MAXARGS :: nat where [params]: "MAXARGS = 10"

datatype cmd =
    ExecCmd "(nat \<times> nat) list"
  | RedirCmd cmd nat nat uint int
  | PipeCmd cmd cmd
  | ListCmd cmd cmd
  | BackCmd cmd

section \<open>Tokens\<close>

definition whitespace :: "byte list" where
  "whitespace = [32, 9, 13, 10, 11]"

definition symbols :: "byte list" where
  "symbols = str ''<|>&;()''"

function skip_ws :: "byte list \<Rightarrow> nat \<Rightarrow> nat" where
  "skip_ws b s = (if s < length b \<and> ustrchr whitespace (b ! s) \<noteq> None then skip_ws b (s + 1) else s)"
  by pat_completeness auto
termination
  by (relation "measure (\<lambda>(b, s). length b - s)") auto

declare skip_ws.simps [simp del]

function skip_word :: "byte list \<Rightarrow> nat \<Rightarrow> nat" where
  "skip_word b s =
     (if s < length b \<and> ustrchr whitespace (b ! s) = None \<and> ustrchr symbols (b ! s) = None
      then skip_word b (s + 1) else s)"
  by pat_completeness auto
termination
  by (relation "measure (\<lambda>(b, s). length b - s)") auto

declare skip_word.simps [simp del]

text \<open>The kind of the token at \<open>q\<close> and where it ends.\<close>

definition token_at :: "byte list \<Rightarrow> nat \<Rightarrow> byte \<times> nat" where
  "token_at b q =
     (let c = fmt_at b q in
      if c = 0 then (c, q)
      else if c \<in> set (str ''|();&<'') then (c, q + 1)
      else if c = ch CHR ''>'' then
        if fmt_at b (q + 1) = ch CHR ''>'' then (ch CHR ''+'', q + 2) else (c, q + 1)
      else (ch CHR ''a'', skip_word b q))"

text \<open>The kind of the next token, where it starts and ends, and where the one after it starts.\<close>

definition gettoken :: "byte list \<Rightarrow> nat \<Rightarrow> byte \<times> nat \<times> nat \<times> nat" where
  "gettoken b s =
     (let q = skip_ws b s in case token_at b q of (ret, eq) \<Rightarrow> (ret, q, eq, skip_ws b eq))"

definition peek :: "byte list \<Rightarrow> nat \<Rightarrow> string \<Rightarrow> bool \<times> nat" where
  "peek b s toks =
     (let s = skip_ws b s; c = fmt_at b s in (c \<noteq> 0 \<and> ustrchr (str toks) c \<noteq> None, s))"

text \<open>\<open>gettoken(ps, es, 0, 0)\<close>: only the position moves.\<close>

definition skip_token :: "byte list \<Rightarrow> nat \<Rightarrow> nat" where
  "skip_token b s = snd (snd (snd (gettoken b s)))"

section \<open>The parser\<close>

datatype 'a parse = Parsed 'a nat | SyntaxError string | OutOfFuel

primrec pbind :: "'a parse \<Rightarrow> ('a \<Rightarrow> nat \<Rightarrow> 'b parse) \<Rightarrow> 'b parse" where
  "pbind (Parsed a s) f = f a s"
| "pbind (SyntaxError m) f = SyntaxError m"
| "pbind OutOfFuel f = OutOfFuel"

lemma pbind_cong [fundef_cong]:
  "r = r' \<Longrightarrow> (\<And>a s. r' = Parsed a s \<Longrightarrow> f a s = g a s) \<Longrightarrow> pbind r f = pbind r' g"
  by (cases r') auto

lemma skip_ws_ge: "s \<le> skip_ws b s"
  by (induction b s rule: skip_ws.induct) (subst skip_ws.simps, auto)

lemma skip_word_ge: "s \<le> skip_word b s"
  by (induction b s rule: skip_word.induct) (subst skip_word.simps, auto)

lemma skip_ws_le: "s \<le> length b \<Longrightarrow> skip_ws b s \<le> length b"
  by (induction b s rule: skip_ws.induct) (subst skip_ws.simps, simp)

lemma skip_word_le: "s \<le> length b \<Longrightarrow> skip_word b s \<le> length b"
  by (induction b s rule: skip_word.induct) (subst skip_word.simps, simp)

lemma skip_ws_stops: "skip_ws b s < length b \<Longrightarrow> ustrchr whitespace (b ! skip_ws b s) = None"
proof (induction b s rule: skip_ws.induct)
  case (1 b s)
  then show ?case
    by (cases "s < length b \<and> ustrchr whitespace (b ! s) \<noteq> None") (auto simp: skip_ws.simps[of b s])
qed

lemma skip_ws_idem: "skip_ws b (skip_ws b s) = skip_ws b s"
  using skip_ws_stops[of b s] by (subst skip_ws.simps) auto

text \<open>A token is read from where the blanks end; only the empty one makes no progress.\<close>

lemma gettoken_start: "gettoken b s = (r, q, eq, u) \<Longrightarrow> q = skip_ws b s \<and> token_at b q = (r, eq) \<and> u = skip_ws b eq"
  by (auto simp: gettoken_def Let_def split: prod.splits)

lemma symbol_cases:
  "c \<in> set (str ''|();&<'') \<or> c = ch CHR ''>'' \<longleftrightarrow> c \<noteq> 0 \<and> ustrchr symbols c \<noteq> None"
  by (auto simp: symbols_def str_def ch_def)

lemma token_at_word:
  assumes "token_at b q = (ch CHR ''a'', eq)"
  shows "fmt_at b q \<noteq> 0 \<and> ustrchr symbols (fmt_at b q) = None \<and> eq = skip_word b q"
proof -
  have "ch CHR ''a'' \<notin> set (str ''|();&<'')" "ch CHR ''a'' \<noteq> ch CHR ''>''" "ch CHR ''a'' \<noteq> 0" "ch CHR ''a'' \<noteq> ch CHR ''+''"
    by (simp_all add: str_def ch_def)
  then show ?thesis
    using assms symbol_cases[of "fmt_at b q"] unfolding token_at_def Let_def by (force split: if_splits)
qed

lemma gettoken_word:
  assumes "gettoken b s = (ch CHR ''a'', q, eq, u)"
  shows "q < eq \<and> eq = skip_word b q \<and> q < length b"
proof -
  have q: "q = skip_ws b s" and "token_at b q = (ch CHR ''a'', eq)" using gettoken_start[OF assms] by blast+
  from token_at_word[OF this(2)] have c: "fmt_at b q \<noteq> 0" "ustrchr symbols (fmt_at b q) = None" "eq = skip_word b q"
    by simp_all
  have l: "q < length b" by (rule fmt_at_nonzero[OF c(1)])
  then have f: "fmt_at b q = b ! q" by (simp add: fmt_at_def)
  have "ustrchr whitespace (b ! q) = None" by (rule skip_ws_stops[of b s, folded q, OF l])
  with l f c(2) have "skip_word b q = skip_word b (q + 1)" by (simp add: skip_word.simps[of b q])
  with c(3) l show ?thesis using skip_word_ge[of "q + 1" b] by linarith
qed

lemma gettoken_cases:
  assumes "gettoken b s = (r, q, eq, u)"
  shows "(r = 0 \<and> eq = q \<and> fmt_at b q = 0) \<or> r = ch CHR ''a'' \<or>
    (r \<noteq> 0 \<and> fmt_at b q \<noteq> 0 \<and> (eq = q + 1 \<or> eq = q + 2 \<and> fmt_at b (q + 1) \<noteq> 0))"
proof -
  have "ch CHR ''>'' \<noteq> 0" "ch CHR ''+'' \<noteq> 0" by (simp_all add: ch_def)
  then show ?thesis
    using gettoken_start[OF assms, THEN conjunct2, THEN conjunct1] symbol_cases[of "fmt_at b q"]
    by (cases "fmt_at b q = 0"; cases "fmt_at b q \<in> set (str ''|();&<'')"; cases "fmt_at b q = ch CHR ''>''";
        cases "fmt_at b (q + 1) = ch CHR ''>''") (simp_all add: token_at_def Let_def)
qed

lemma gettoken_eq:
  assumes "gettoken b s = (r, q, eq, u)"
  shows "q \<le> eq" "r \<noteq> 0 \<Longrightarrow> q < eq \<and> q < length b" "s \<le> length b \<Longrightarrow> eq \<le> length b"
proof -
  have "q \<le> eq \<and> (r \<noteq> 0 \<longrightarrow> q < eq \<and> q < length b) \<and> (s \<le> length b \<longrightarrow> eq \<le> length b)"
    using gettoken_cases[OF assms]
  proof (elim disjE conjE)
    assume "r = 0" "eq = q" "fmt_at b q = 0"
    then show ?thesis using gettoken_start[OF assms] skip_ws_le[of s b] by simp
  next
    assume "r = ch CHR ''a''"
    then show ?thesis using gettoken_word[of b s q eq u] assms skip_word_le[of q b] by auto
  qed (use fmt_at_nonzero[of b q] fmt_at_nonzero[of b "q + 1"] in auto)
  then show "q \<le> eq" "r \<noteq> 0 \<Longrightarrow> q < eq \<and> q < length b" "s \<le> length b \<Longrightarrow> eq \<le> length b" by auto
qed

lemma gettoken_pos:
  assumes "gettoken b s = (r, q, eq, u)"
  shows "s \<le> u" "r \<noteq> 0 \<Longrightarrow> s < u \<and> s < length b" "s \<le> length b \<Longrightarrow> u \<le> length b"
  using gettoken_eq[OF assms] gettoken_start[OF assms] skip_ws_ge[of s b] skip_ws_ge[of eq b] skip_ws_le[of eq b]
  by auto

lemma peek_pos: "peek b s toks = (r, u) \<Longrightarrow> s \<le> u \<and> u = skip_ws b s \<and> (r \<longrightarrow> u < length b \<and> fmt_at b u \<noteq> 0)"
  using skip_ws_ge[of s b] fmt_at_nonzero[of b "skip_ws b s"] by (auto simp: peek_def Let_def)

lemma skip_token_progress:
  assumes "peek b s toks = (True, u)"
  shows "s < skip_token b u" "skip_token b u \<le> length b"
proof -
  obtain r q eq v where g: "gettoken b u = (r, q, eq, v)" by (metis prod_cases4)
  have u: "s \<le> u" "u = skip_ws b s" "u < length b" "fmt_at b u \<noteq> 0" using peek_pos[OF assms] by auto
  then have "q = u" using gettoken_start[OF g] skip_ws_idem[of b s] by simp
  then have "r \<noteq> 0" using gettoken_cases[OF g] u(4) by (auto simp: ch_def)
  then show "s < skip_token b u" "skip_token b u \<le> length b"
    using gettoken_pos[OF g] u g by (auto simp: skip_token_def)
qed

lemma peek_less: "peek b s toks = (True, u) \<Longrightarrow> length b - skip_token b u < length b - s"
  using skip_token_progress[of b s toks u] by linarith

lemma gettoken_less:
  "peek b s toks = (True, u) \<Longrightarrow> gettoken b u = (r, q, eq, v) \<Longrightarrow> gettoken b v = (r', q', eq', w) \<Longrightarrow>
     length b - w < length b - s"
  using skip_token_progress[of b s toks u] gettoken_pos(1)[of b v r' q' eq' w] by (simp add: skip_token_def)

text \<open>The redirections at position \<open>s\<close>: file, mode and descriptor of each, in order.\<close>

type_synonym redir = "nat \<times> nat \<times> uint \<times> int"

definition redir_of :: "byte \<Rightarrow> nat \<Rightarrow> nat \<Rightarrow> redir" where
  "redir_of tok q eq =
     (if tok = ch CHR ''<'' then (q, eq, O_RDONLY, 0)
      else if tok = ch CHR ''>'' then (q, eq, O_WRONLY OR O_CREATE OR O_TRUNC, 1)
      else (q, eq, O_WRONLY OR O_CREATE, 1))"

function parseredirs :: "byte list \<Rightarrow> nat \<Rightarrow> redir list \<Rightarrow> redir list parse" where
  "parseredirs b s rs =
     (case peek b s ''<>'' of (again, s1) \<Rightarrow>
      if \<not> again then Parsed rs s1
      else case gettoken b s1 of (tok, _, _, s2) \<Rightarrow>
        case gettoken b s2 of (t, q, eq, s3) \<Rightarrow>
          if t \<noteq> ch CHR ''a'' then SyntaxError ''missing file for redirection''
          else parseredirs b s3 (rs @ [redir_of tok q eq]))"
  by pat_completeness auto
termination
  by (relation "measure (\<lambda>(b, s, _). length b - s)", simp)
    (clarsimp, metis peek_less gettoken_less)

declare parseredirs.simps [simp del]

definition add_redirs :: "cmd \<Rightarrow> redir list \<Rightarrow> cmd" where
  "add_redirs c rs = foldl (\<lambda>c (q, eq, mode, fd). RedirCmd c q eq mode fd) c rs"

text \<open>
  The loop of \<open>parseexec\<close>.  The words go into the \<open>execcmd\<close>, which the redirections seen so far
  already wrap.
\<close>

function parseargs :: "byte list \<Rightarrow> nat \<Rightarrow> (nat \<times> nat) list \<Rightarrow> redir list \<Rightarrow> cmd parse" where
  "parseargs b s args rs =
     (case peek b s ''|)&;'' of (stop, s1) \<Rightarrow>
      if stop then Parsed (add_redirs (ExecCmd args) rs) s1
      else case gettoken b s1 of (tok, q, eq, s2) \<Rightarrow>
        if tok = 0 then Parsed (add_redirs (ExecCmd args) rs) s2
        else if tok \<noteq> ch CHR ''a'' then SyntaxError ''syntax''
        else if MAXARGS \<le> length args + 1 then SyntaxError ''too many args''
        else pbind (parseredirs b s2 rs) (\<lambda>rs s. parseargs b s (args @ [(q, eq)]) rs))"
  by pat_completeness auto
termination
  by (relation "measure (\<lambda>(_, _, args, _). MAXARGS - length args)") auto

declare parseargs.simps [simp del]

text \<open>\<open>while(peek(ps, es, "&"))\<close>\<close>

function parseback :: "byte list \<Rightarrow> nat \<Rightarrow> cmd \<Rightarrow> cmd \<times> nat" where
  "parseback b s c =
     (case peek b s ''&'' of (again, s1) \<Rightarrow>
      if again then parseback b (skip_token b s1) (BackCmd c) else (c, s1))"
  by pat_completeness auto
termination
  by (relation "measure (\<lambda>(b, s, _). length b - s)", simp)
    (clarsimp, metis peek_less)

declare parseback.simps [simp del]

fun parseline :: "nat \<Rightarrow> byte list \<Rightarrow> nat \<Rightarrow> cmd parse"
  and parsepipe :: "nat \<Rightarrow> byte list \<Rightarrow> nat \<Rightarrow> cmd parse"
  and parseexec :: "nat \<Rightarrow> byte list \<Rightarrow> nat \<Rightarrow> cmd parse"
  and parseblock :: "nat \<Rightarrow> byte list \<Rightarrow> nat \<Rightarrow> cmd parse" where
  "parseline 0 b s = OutOfFuel"
| "parseline (Suc n) b s =
     pbind (parsepipe n b s) (\<lambda>c s.
     case parseback b s c of (c, s) \<Rightarrow>
       case peek b s '';'' of (again, s) \<Rightarrow>
         if again then pbind (parseline n b (skip_token b s)) (\<lambda>r s. Parsed (ListCmd c r) s)
         else Parsed c s)"
| "parsepipe 0 b s = OutOfFuel"
| "parsepipe (Suc n) b s =
     pbind (parseexec n b s) (\<lambda>c s.
     case peek b s ''|'' of (again, s) \<Rightarrow>
       if again then pbind (parsepipe n b (skip_token b s)) (\<lambda>r s. Parsed (PipeCmd c r) s)
       else Parsed c s)"
| "parseexec 0 b s = OutOfFuel"
| "parseexec (Suc n) b s =
     (case peek b s ''('' of (block, s) \<Rightarrow>
      if block then parseblock n b s
      else pbind (parseredirs b s []) (\<lambda>rs s. parseargs b s [] rs))"
| "parseblock 0 b s = OutOfFuel"
| "parseblock (Suc n) b s =
     (case peek b s ''('' of (ok, s) \<Rightarrow>
      if \<not> ok then SyntaxError ''parseblock''
      else pbind (parseline n b (skip_token b s)) (\<lambda>c s.
        case peek b s '')'' of (ok, s) \<Rightarrow>
          if \<not> ok then SyntaxError ''syntax - missing )''
          else pbind (parseredirs b (skip_token b s) []) (\<lambda>rs s. Parsed (add_redirs c rs) s)))"

text \<open>\<open>parsecmd\<close> up to the call of \<open>nulterminate\<close>.\<close>

definition parse_fuel :: "byte list \<Rightarrow> nat" where
  "parse_fuel b = 4 * length b + 4"

definition parsecmd :: "byte list \<Rightarrow> cmd parse" where
  "parsecmd b =
     pbind (parseline (parse_fuel b) b 0) (\<lambda>c s.
     case peek b s '''' of (_, s) \<Rightarrow>
       if s \<noteq> length b then SyntaxError ''syntax'' else Parsed c s)"

section \<open>nulterminate\<close>

text \<open>The bytes that \<open>nulterminate\<close> overwrites, in its order.\<close>

fun word_ends :: "cmd \<Rightarrow> nat list" where
  "word_ends (ExecCmd args) = map snd args"
| "word_ends (RedirCmd c q eq mode fd) = word_ends c @ [eq]"
| "word_ends (PipeCmd l r) = word_ends l @ word_ends r"
| "word_ends (ListCmd l r) = word_ends l @ word_ends r"
| "word_ends (BackCmd c) = word_ends c"

definition nulterminate :: "cmd \<Rightarrow> byte list \<Rightarrow> byte list" where
  "nulterminate c b = fold (\<lambda>i b. b[i := 0]) (word_ends c) (b @ [0])"

text \<open>The C string at an index of the buffer.\<close>

definition cstring :: "byte list \<Rightarrow> nat \<Rightarrow> byte list" where
  "cstring b q = takeWhile (\<lambda>c. c \<noteq> 0) (drop q b)"

section \<open>Running a command\<close>

definition upanic :: "string \<Rightarrow> world \<Rightarrow> 'a uout" where
  "upanic m w = useq (fprintf 2 (str ''%s'' @ [10]) [AStr (Some (str m))] w) (\<lambda>_ w. Exited 1 w)"

definition fork1 :: "world \<Rightarrow> int uout" where
  "fork1 w = useq (ucall_ret UFork w) (\<lambda>pid w. if pid = -1 then upanic ''fork'' w else Done pid w)"

text \<open>The calls of a list, one after the other, with their results ignored.\<close>

definition ucalls :: "ucall list \<Rightarrow> world \<Rightarrow> unit uout" where
  "ucalls cs w = uforeach cs (\<lambda>c w. useq (ucall c w) (\<lambda>_ w. Done () w)) w"

fun runcmd :: "byte list \<Rightarrow> cmd \<Rightarrow> world \<Rightarrow> unit uout" where
  "runcmd b (ExecCmd args) w =
     (case args of
        [] \<Rightarrow> Exited 1 w
      | (q, _) # _ \<Rightarrow>
          useq (ucall (UExec (cstring b q) (map (\<lambda>(q, _). cstring b q) args)) w) (\<lambda>_ w.
          useq (fprintf 2 (str ''exec %s failed'' @ [10]) [AStr (Some (cstring b q))] w) (\<lambda>_ w.
          Exited 0 w)))"
| "runcmd b (RedirCmd c q eq mode fd) w =
     useq (ucall (UClose fd) w) (\<lambda>_ w.
     useq (ucall_ret (UOpen (cstring b q) mode) w) (\<lambda>r w.
     if r < 0 then
       useq (fprintf 2 (str ''open %s failed'' @ [10]) [AStr (Some (cstring b q))] w) (\<lambda>_ w. Exited 1 w)
     else runcmd b c w))"
| "runcmd b (ListCmd l r) w =
     useq (fork1 w) (\<lambda>pid w.
     if pid = 0 then runcmd b l w
     else useq (ucall UWait w) (\<lambda>_ w. runcmd b r w))"
| "runcmd b (PipeCmd l r) w =
     useq (ucall UPipe w) (\<lambda>(res, d) w.
     if res < 0 then upanic ''pipe'' w
     else
       let p0 = sint (get32 0 d); p1 = sint (get32 4 d) in
       useq (fork1 w) (\<lambda>pid w.
       if pid = 0 then
         useq (ucalls [UClose 1, UDup p1, UClose p0, UClose p1] w) (\<lambda>_ w. runcmd b l w)
       else useq (fork1 w) (\<lambda>pid w.
         if pid = 0 then
           useq (ucalls [UClose 0, UDup p0, UClose p0, UClose p1] w) (\<lambda>_ w. runcmd b r w)
         else useq (ucalls [UClose p0, UClose p1, UWait, UWait] w) (\<lambda>_ w. Exited 0 w))))"
| "runcmd b (BackCmd c) w =
     useq (fork1 w) (\<lambda>pid w. if pid = 0 then runcmd b c w else Exited 0 w)"

section \<open>The main loop\<close>

text \<open>\<open>runcmd(parsecmd(cmd))\<close> in the child; the rest of the line is shown before the panic.\<close>

definition run_line :: "byte list \<Rightarrow> world \<Rightarrow> unit uout" where
  "run_line b w =
     (case parsecmd b of
        Parsed c s \<Rightarrow> runcmd (nulterminate c b) c w
      | SyntaxError m \<Rightarrow>
          useq (case parseline (parse_fuel b) b 0 of
                  Parsed c s \<Rightarrow> fprintf 2 (str ''leftovers: %s'' @ [10]) [AStr (Some (drop (skip_ws b s) b))] w
                | _ \<Rightarrow> Done () w) (\<lambda>_ w. upanic m w)
      | OutOfFuel \<Rightarrow> Crash)"

text \<open>The command line, or nothing at the end of the input.\<close>

definition getcmd :: "world \<Rightarrow> byte list option uout" where
  "getcmd w =
     useq (ucall (UWrite 2 (str ''$ '')) w) (\<lambda>_ w.
     useq (gets 100 w) (\<lambda>buf w.
     let b = takeWhile (\<lambda>c. c \<noteq> 0) buf in Done (if b = [] then None else Some b) w))"

lemma gets_loop_le: "gets_loop bs mx w = Done r w' \<Longrightarrow> length (answers w') \<le> length (answers w)"
proof (induction "length (answers w)" arbitrary: bs w rule: less_induct)
  case less
  show ?case
  proof (cases "length bs + 1 < mx")
    case True
    then obtain cc d v where v: "ucall (URead 0 1) w = Done (cc, d) v"
      "(if cc < 1 then Done bs v else (case d of [] \<Rightarrow> Crash
          | c # _ \<Rightarrow> if c = 10 \<or> c = 13 then Done (bs @ [c]) v else gets_loop (bs @ [c]) mx v)) = Done r w'"
      using less.prems[unfolded gets_loop.simps[of bs mx w]] by (auto simp: useq_Done_iff)
    have "length (answers v) < length (answers w)" using v(1) by simp
    then show ?thesis
      using v(2) less.hyps[of v] by (fastforce split: if_splits list.splits)
  next
    case False
    then show ?thesis using less.prems[unfolded gets_loop.simps[of bs mx w]] by simp
  qed
qed

lemma getcmd_less: "getcmd w = Done r w' \<Longrightarrow> length (answers w') < length (answers w)"
  by (auto simp: getcmd_def gets_def useq_Done_iff Let_def dest!: gets_loop_le ucall_less)

lemma fork1_less: "fork1 w = Done r w' \<Longrightarrow> length (answers w') < length (answers w)"
  by (auto simp: fork1_def upanic_def useq_Done_iff split: if_splits dest: ucall_ret_less)

function sh_loop :: "world \<Rightarrow> unit uout" where
  "sh_loop w =
     useq (getcmd w) (\<lambda>line w.
     case line of None \<Rightarrow> Exited 0 w
     | Some buf \<Rightarrow>
         let cmd = dropWhile (\<lambda>c. c = 32 \<or> c = 9) buf in
         if cmd \<noteq> [] \<and> hd cmd = 10 then sh_loop w
         else if take 3 cmd = str ''cd '' then
           let dir = drop 3 (butlast cmd) in
           useq (ucall_ret (UChdir dir) w) (\<lambda>r w.
           useq (if r < 0 then fprintf 2 (str ''cannot cd %s'' @ [10]) [AStr (Some dir)] w else Done () w) (\<lambda>_ w.
           sh_loop w))
         else
           useq (fork1 w) (\<lambda>pid w.
           if pid = 0 then run_line cmd w
           else useq (ucall UWait w) (\<lambda>_ w. sh_loop w)))"
  by pat_completeness auto
termination
proof (relation "measure (\<lambda>w. length (answers w))", goal_cases)
  case 1
  then show ?case by simp
next
  case 2
  then show ?case using getcmd_less by simp
next
  case prems: (3 w a w1 buf cmd dir r w2 x w3)
  have "length (answers w1) < length (answers w)" "length (answers w2) < length (answers w1)"
    using prems getcmd_less by auto
  moreover have "length (answers w3) \<le> length (answers w2)"
    using prems by (auto split: if_splits dest: fprintf_le)
  ultimately show ?case by simp
next
  case prems: (4 w a w1 buf cmd pid w2 x w3)
  have "length (answers w1) < length (answers w)" "length (answers w2) < length (answers w1)"
    "length (answers w3) < length (answers w2)"
    using prems getcmd_less fork1_less by auto
  then show ?case by simp
qed

declare sh_loop.simps [simp del]

text \<open>\<open>while((fd = open("console", O_RDWR)) >= 0)\<close>: fill the first three descriptors.\<close>

function open_console :: "world \<Rightarrow> unit uout" where
  "open_console w =
     useq (ucall_ret (UOpen (str ''console'') O_RDWR) w) (\<lambda>fd w.
     if fd < 0 then Done () w
     else if 3 \<le> fd then useq (ucall (UClose fd) w) (\<lambda>_ w. Done () w)
     else open_console w)"
  by pat_completeness auto
termination
  by (relation "measure (\<lambda>w. length (answers w))") auto

declare open_console.simps [simp del]

definition sh_main :: "world \<Rightarrow> unit uout" where
  "sh_main w = useq (open_console w) (\<lambda>_ w. sh_loop w)"

end
