(* ===== verification/Shparse.thy ===== *)
theory Shparse
  imports Sh
begin

text \<open>
  What the parser of \<open>user/sh.c\<close> promises: it always comes back, the commands it builds are well formed, the
  NULs that \<open>nulterminate\<close> writes cut out exactly the words that were read, and a pipeline written out with
  any blanks between its words is parsed into that pipeline.
\<close>

section \<open>Induction over the loops of the parser\<close>

lemma parseredirs_rule:
  assumes stop: "\<And>s rs u. peek b s ''<>'' = (False, u) \<Longrightarrow> P s rs (Parsed rs u)"
    and err: "\<And>s rs m. P s rs (SyntaxError m)"
    and step: "\<And>s rs s1 tok x y s2 q eq s3 r.
      peek b s ''<>'' = (True, s1) \<Longrightarrow> gettoken b s1 = (tok, x, y, s2) \<Longrightarrow> gettoken b s2 = (ch CHR ''a'', q, eq, s3) \<Longrightarrow>
      P s3 (rs @ [redir_of tok q eq]) r \<Longrightarrow> P s rs r"
  shows "P s rs (parseredirs b s rs)"
proof (induction "length b - s" arbitrary: s rs rule: less_induct)
  case less
  obtain again s1 where p: "peek b s ''<>'' = (again, s1)" by fastforce
  obtain tok x y s2 where g: "gettoken b s1 = (tok, x, y, s2)" by (metis prod_cases4)
  obtain t q eq s3 where h: "gettoken b s2 = (t, q, eq, s3)" by (metis prod_cases4)
  have eqn: "parseredirs b s rs = (if \<not> again then Parsed rs s1 else if t \<noteq> ch CHR ''a''
      then SyntaxError ''missing file for redirection'' else parseredirs b s3 (rs @ [redir_of tok q eq]))"
    by (simp add: parseredirs.simps[of b s rs] p g h)
  show ?case
  proof (cases "again \<and> t = ch CHR ''a''")
    case True
    then have p': "peek b s ''<>'' = (True, s1)" and h': "gettoken b s2 = (ch CHR ''a'', q, eq, s3)" using p h by simp_all
    from step[OF p' g h' less[OF gettoken_less[OF p' g h']]] show ?thesis using eqn True by simp
  next
    case False
    then show ?thesis using eqn stop[of s s1 rs] err p by (cases again) simp_all
  qed
qed

lemma parseargs_rule:
  assumes stop: "\<And>s args rs u. s \<le> u \<Longrightarrow> P s args rs (Parsed (add_redirs (ExecCmd args) rs) u)"
    and err: "\<And>s args rs m. P s args rs (SyntaxError m)"
    and step: "\<And>s args rs s1 q eq s2 rs' s3 r.
      s \<le> s1 \<Longrightarrow> gettoken b s1 = (ch CHR ''a'', q, eq, s2) \<Longrightarrow> length args + 1 < MAXARGS \<Longrightarrow>
      parseredirs b s2 rs = Parsed rs' s3 \<Longrightarrow> P s3 (args @ [(q, eq)]) rs' r \<Longrightarrow> P s args rs r"
  shows "P s args rs (parseargs b s args rs)"
proof (induction "MAXARGS - length args" arbitrary: s args rs rule: less_induct)
  case less
  obtain stp s1 where p: "peek b s ''|)&;'' = (stp, s1)" by fastforce
  obtain t q eq s2 where g: "gettoken b s1 = (t, q, eq, s2)" by (metis prod_cases4)
  have le: "s \<le> s1" "s1 \<le> s2" using peek_pos[OF p] gettoken_pos(1)[OF g] by simp_all
  have eqn: "parseargs b s args rs = (if stp then Parsed (add_redirs (ExecCmd args) rs) s1
      else if t = 0 then Parsed (add_redirs (ExecCmd args) rs) s2
      else if t \<noteq> ch CHR ''a'' then SyntaxError ''syntax''
      else if MAXARGS \<le> length args + 1 then SyntaxError ''too many args''
      else pbind (parseredirs b s2 rs) (\<lambda>rs s. parseargs b s (args @ [(q, eq)]) rs))"
    by (simp add: parseargs.simps[of b s args rs] p g)
  show ?case
  proof (cases "\<not> stp \<and> t = ch CHR ''a'' \<and> length args + 1 < MAXARGS")
    case True
    then have "t \<noteq> 0" by (simp add: ch_def)
    with True eqn have e: "parseargs b s args rs = pbind (parseredirs b s2 rs) (\<lambda>rs s. parseargs b s (args @ [(q, eq)]) rs)"
      by simp
    have g': "gettoken b s1 = (ch CHR ''a'', q, eq, s2)" using g True by simp
    show ?thesis
    proof (cases "parseredirs b s2 rs")
      case (Parsed rs' s3)
      have "P s3 (args @ [(q, eq)]) rs' (parseargs b s3 (args @ [(q, eq)]) rs')"
        using True by (intro less) auto
      from step[OF le(1) g' _ Parsed this] show ?thesis using e Parsed True by simp
    next
      case (SyntaxError m)
      then show ?thesis using e err by simp
    next
      case OutOfFuel
      have "parseredirs b s2 rs \<noteq> OutOfFuel" by (rule parseredirs_rule) simp_all
      then show ?thesis using OutOfFuel by simp
    qed
  next
    case False
    then show ?thesis using eqn stop[of s s1] stop[of s s2] le err by auto
  qed
qed

lemma parseback_rule:
  assumes "\<And>s c u. s \<le> u \<Longrightarrow> P s c (c, u)"
    and "\<And>s c u r. s \<le> u \<Longrightarrow> P u (BackCmd c) r \<Longrightarrow> P s c r"
  shows "P s c (parseback b s c)"
proof (induction "length b - s" arbitrary: s c rule: less_induct)
  case less
  obtain again s1 where p: "peek b s ''&'' = (again, s1)" by fastforce
  show ?case
  proof (cases again)
    case True
    then have p': "peek b s ''&'' = (True, s1)" using p by simp
    have "P s c (parseback b (skip_token b s1) (BackCmd c))"
      using assms(2)[OF _ less[OF peek_less[OF p']]] skip_token_progress(1)[OF p'] by simp
    then show ?thesis by (simp add: parseback.simps[of b s] p')
  next
    case False
    then show ?thesis using p assms(1) peek_pos[OF p] by (simp add: parseback.simps[of b s])
  qed
qed

section \<open>The parser comes back\<close>

lemma parseredirs_total: "parseredirs b s rs \<noteq> OutOfFuel" "parseredirs b s rs = Parsed rs' u \<Longrightarrow> s \<le> u"
proof -
  have "parseredirs b s rs \<noteq> OutOfFuel \<and> (\<forall>rs' u. parseredirs b s rs = Parsed rs' u \<longrightarrow> s \<le> u)"
  proof (rule parseredirs_rule[where P = "\<lambda>s rs r. r \<noteq> OutOfFuel \<and> (\<forall>rs' u. r = Parsed rs' u \<longrightarrow> s \<le> u)"], goal_cases)
    case (1 s rs u)
    then show ?case using peek_pos by auto
  next
    case (3 s rs s1 tok x y s2 q eq s3 r)
    then have "s \<le> s3" using peek_pos[OF 3(1)] gettoken_pos(1)[OF 3(2)] gettoken_pos(1)[OF 3(3)] by linarith
    then show ?case using 3(4) by fastforce
  qed simp
  then show "parseredirs b s rs \<noteq> OutOfFuel" "parseredirs b s rs = Parsed rs' u \<Longrightarrow> s \<le> u" by auto
qed

lemma parseargs_total: "parseargs b s args rs \<noteq> OutOfFuel" "parseargs b s args rs = Parsed c u \<Longrightarrow> s \<le> u"
proof -
  have "parseargs b s args rs \<noteq> OutOfFuel \<and> (\<forall>c u. parseargs b s args rs = Parsed c u \<longrightarrow> s \<le> u)"
  proof (rule parseargs_rule[where P = "\<lambda>s args rs r. r \<noteq> OutOfFuel \<and> (\<forall>c u. r = Parsed c u \<longrightarrow> s \<le> u)"], goal_cases)
    case (3 s args rs s1 q eq s2 rs' s3 r)
    then have "s \<le> s3" using gettoken_pos(1)[OF 3(2)] parseredirs_total(2)[OF 3(4)] by linarith
    then show ?case using 3(5) by fastforce
  qed simp_all
  then show "parseargs b s args rs \<noteq> OutOfFuel" "parseargs b s args rs = Parsed c u \<Longrightarrow> s \<le> u" by auto
qed

lemma parseback_pos: "s \<le> snd (parseback b s c)"
  by (rule parseback_rule) simp_all

lemma pbind_Parsed: "pbind r f = Parsed c u \<longleftrightarrow> (\<exists>a s. r = Parsed a s \<and> f a s = Parsed c u)"
  by (cases r) auto

lemma pbind_OutOfFuel: "pbind r f = OutOfFuel \<longleftrightarrow> r = OutOfFuel \<or> (\<exists>a s. r = Parsed a s \<and> f a s = OutOfFuel)"
  by (cases r) auto

text \<open>What the leaves have and the constructors keep, every parsed command has.\<close>

definition parsed_with :: "(cmd \<Rightarrow> bool) \<Rightarrow> nat \<Rightarrow> cmd parse \<Rightarrow> bool" where
  "parsed_with Q s r \<longleftrightarrow> (\<forall>c u. r = Parsed c u \<longrightarrow> Q c \<and> s \<le> u)"

lemma parsed_with_pbind:
  assumes "parsed_with Q s r" "\<And>c u. Q c \<Longrightarrow> s \<le> u \<Longrightarrow> parsed_with R s (f c u)"
  shows "parsed_with R s (pbind r f)"
  using assms by (cases r) (auto simp: parsed_with_def)

lemma parsed_with_le: "parsed_with Q s r \<Longrightarrow> s' \<le> s \<Longrightarrow> parsed_with Q s' r"
  by (fastforce simp: parsed_with_def)

lemma parse_rule:
  assumes args: "\<And>s s' rs c u. parseredirs b s [] = Parsed rs s' \<Longrightarrow> parseargs b s' [] rs = Parsed c u \<Longrightarrow> Q c"
    and redirs: "\<And>s c rs u. Q c \<Longrightarrow> parseredirs b s [] = Parsed rs u \<Longrightarrow> Q (add_redirs c rs)"
    and bk: "\<And>c. Q c \<Longrightarrow> Q (BackCmd c)"
    and lst: "\<And>c d. Q c \<Longrightarrow> Q d \<Longrightarrow> Q (ListCmd c d)"
    and pipe: "\<And>c d. Q c \<Longrightarrow> Q d \<Longrightarrow> Q (PipeCmd c d)"
  shows "parsed_with Q s (parseline n b s) \<and> parsed_with Q s (parsepipe n b s) \<and>
         parsed_with Q s (parseexec n b s) \<and> parsed_with Q s (parseblock n b s)"
proof (induction n arbitrary: s)
  case 0
  then show ?case by (simp add: parsed_with_def)
next
  case (Suc n)
  note IH = Suc[THEN conjunct1] Suc[THEN conjunct2, THEN conjunct1]
    Suc[THEN conjunct2, THEN conjunct2, THEN conjunct1] Suc[THEN conjunct2, THEN conjunct2, THEN conjunct2]
  have tok: "peek b u toks = (True, v) \<Longrightarrow> s \<le> u \<Longrightarrow> s \<le> skip_token b v" for u v toks
    using skip_token_progress(1)[of b u toks v] by linarith
  have fin: "peek b u toks = (x, v) \<Longrightarrow> s \<le> u \<Longrightarrow> s \<le> v" for u v toks x
    using peek_pos[of b u toks x v] by linarith
  have "parsed_with Q s (parseline (Suc n) b s)"
    unfolding parseline.simps(2)
  proof (rule parsed_with_pbind[OF IH(2)], goal_cases)
    case (1 c u)
    have bq: "\<forall>s c. Q c \<longrightarrow> Q (fst (parseback b s c))"
      using parseback_rule[of "\<lambda>s c r. Q c \<longrightarrow> Q (fst r)"] bk by auto
    obtain d v where d: "parseback b u c = (d, v)" by fastforce
    have "Q d" using bq[rule_format, OF 1(1), of u] d by simp
    have "s \<le> v" using 1 parseback_pos[of u b c] d by simp
    obtain x z where p: "peek b v '';'' = (x, z)" by fastforce
    then have "parsed_with Q s (pbind (parseline n b (skip_token b z)) (\<lambda>r s. Parsed (ListCmd d r) s))" if x
      using parsed_with_le[OF IH(1) tok[OF _ \<open>s \<le> v\<close>]] p that \<open>Q d\<close> lst
      by (intro parsed_with_pbind[where Q = Q]) (auto simp: parsed_with_def)
    then show ?case using d p \<open>Q d\<close> fin[OF p \<open>s \<le> v\<close>] by (simp add: parsed_with_def)
  qed
  moreover have "parsed_with Q s (parsepipe (Suc n) b s)"
    unfolding parsepipe.simps(2)
  proof (rule parsed_with_pbind[OF IH(3)], goal_cases)
    case (1 c u)
    obtain x z where p: "peek b u ''|'' = (x, z)" by fastforce
    moreover have "parsed_with Q s (pbind (parsepipe n b (skip_token b z)) (\<lambda>r s. Parsed (PipeCmd c r) s))" if x
      using parsed_with_le[OF IH(2) tok[OF _ 1(2)]] p that 1(1) pipe
      by (intro parsed_with_pbind[where Q = Q]) (auto simp: parsed_with_def)
    ultimately show ?case using 1 fin[OF p] by (auto simp: parsed_with_def)
  qed
  moreover have "parsed_with Q s (parseexec (Suc n) b s)"
  proof -
    obtain x z where p: "peek b s ''('' = (x, z)" by fastforce
    have "s \<le> z" using fin[OF p] by simp
    then have "parsed_with Q s (pbind (parseredirs b z []) (\<lambda>rs s. parseargs b s [] rs))"
      using args[of z] parseredirs_total(2)[of b z "[]"] parseargs_total(2)[of b]
      by (fastforce simp: parsed_with_def pbind_Parsed)
    then show ?thesis using p parsed_with_le[OF IH(4) \<open>s \<le> z\<close>] by simp
  qed
  moreover have "parsed_with Q s (parseblock (Suc n) b s)"
  proof -
    obtain x z where p: "peek b s ''('' = (x, z)" by fastforce
    have "parsed_with Q s (pbind (parseline n b (skip_token b z)) (\<lambda>c s.
        case peek b s '')'' of (ok, s) \<Rightarrow> if \<not> ok then SyntaxError ''syntax - missing )''
          else pbind (parseredirs b (skip_token b s) []) (\<lambda>rs s. Parsed (add_redirs c rs) s)))" if x
    proof (rule parsed_with_pbind[OF parsed_with_le[OF IH(1)]], goal_cases)
      case 1
      then show ?case using tok[of s "''(''" z] p that by simp
    next
      case (2 c u)
      obtain y v where y: "peek b u '')'' = (y, v)" by fastforce
      show ?case using y tok[of u "'')''" v] 2 redirs[OF 2(1)] parseredirs_total(2)[of b "skip_token b v" "[]"]
        by (fastforce simp: parsed_with_def pbind_Parsed)
    qed
    then show ?thesis using p by (auto simp: parsed_with_def)
  qed
  ultimately show ?case by simp
qed

lemma parse_pos:
  "parseline n b s = Parsed c u \<Longrightarrow> s \<le> u" "parsepipe n b s = Parsed c u \<Longrightarrow> s \<le> u"
  "parseexec n b s = Parsed c u \<Longrightarrow> s \<le> u"
  using parse_rule[of b "\<lambda>_. True" s n] by (simp_all add: parsed_with_def)

text \<open>
  Each level of the grammar costs one unit, and between two calls of \<open>parseline\<close> at least one byte is consumed.
\<close>

lemma parse_fuel_enough:
  "(4 * (length b - s) + 4 \<le> n \<longrightarrow> parseline n b s \<noteq> OutOfFuel) \<and>
   (4 * (length b - s) + 3 \<le> n \<longrightarrow> parsepipe n b s \<noteq> OutOfFuel) \<and>
   (4 * (length b - s) + 2 \<le> n \<longrightarrow> parseexec n b s \<noteq> OutOfFuel) \<and>
   (4 * (length b - s) + 1 \<le> n \<longrightarrow> parseblock n b s \<noteq> OutOfFuel)"
proof (induction n arbitrary: s)
  case (Suc n)
  note IH = Suc[THEN conjunct1, rule_format] Suc[THEN conjunct2, THEN conjunct1, rule_format]
    Suc[THEN conjunct2, THEN conjunct2, THEN conjunct1, rule_format]
    Suc[THEN conjunct2, THEN conjunct2, THEN conjunct2, rule_format]
  have shorter: "4 * (length b - skip_token b v) + 4 \<le> 4 * (length b - s)"
    if "peek b u toks = (True, v)" "s \<le> u" for u v toks
    using peek_less[OF that(1)] that(2) by linarith
  have "parseline (Suc n) b s \<noteq> OutOfFuel" if f: "4 * (length b - s) + 4 \<le> Suc n"
  proof
    assume "parseline (Suc n) b s = OutOfFuel"
    then obtain c u where c: "parsepipe n b s = Parsed c u" "(case parseback b u c of (c, s) \<Rightarrow>
       case peek b s '';'' of (again, s) \<Rightarrow>
         if again then pbind (parseline n b (skip_token b s)) (\<lambda>r s. Parsed (ListCmd c r) s)
         else Parsed c s) = OutOfFuel"
      using IH(2)[of s] f by (auto simp: pbind_OutOfFuel)
    obtain d v x z where d: "parseback b u c = (d, v)" "peek b v '';'' = (x, z)" by fastforce
    have "s \<le> v" using parse_pos(2)[OF c(1)] parseback_pos[of u b c] d(1) by simp
    then have "parseline n b (skip_token b z) \<noteq> OutOfFuel" if x
      using shorter[of v "'';''" z] d(2) that f by (intro IH(1)) simp
    then show False using c(2) d by (auto simp: pbind_OutOfFuel split: if_splits)
  qed
  moreover have "parsepipe (Suc n) b s \<noteq> OutOfFuel" if f: "4 * (length b - s) + 3 \<le> Suc n"
  proof
    assume "parsepipe (Suc n) b s = OutOfFuel"
    then obtain c u where c: "parseexec n b s = Parsed c u" "(case peek b u ''|'' of (again, s) \<Rightarrow>
         if again then pbind (parsepipe n b (skip_token b s)) (\<lambda>r s. Parsed (PipeCmd c r) s)
         else Parsed c s) = OutOfFuel"
      using IH(3)[of s] f by (auto simp: pbind_OutOfFuel)
    obtain x z where d: "peek b u ''|'' = (x, z)" by fastforce
    have "s \<le> u" using parse_pos(3)[OF c(1)] .
    then have "parsepipe n b (skip_token b z) \<noteq> OutOfFuel" if x
      using shorter[of u "''|''" z] d that f by (intro IH(2)) simp
    then show False using c(2) d by (auto simp: pbind_OutOfFuel split: if_splits)
  qed
  moreover have "parseexec (Suc n) b s \<noteq> OutOfFuel" if f: "4 * (length b - s) + 2 \<le> Suc n"
  proof -
    obtain x z where p: "peek b s ''('' = (x, z)" by fastforce
    have "s \<le> z" using peek_pos[OF p] by simp
    then have "parseblock n b z \<noteq> OutOfFuel" using f by (intro IH(4)) linarith
    then show ?thesis using p by (auto simp: pbind_OutOfFuel parseredirs_total(1) parseargs_total(1))
  qed
  moreover have "parseblock (Suc n) b s \<noteq> OutOfFuel" if f: "4 * (length b - s) + 1 \<le> Suc n"
  proof -
    obtain x z where p: "peek b s ''('' = (x, z)" by fastforce
    have "parseline n b (skip_token b z) \<noteq> OutOfFuel" if x
      using shorter[of s "''(''" z] p that f by (intro IH(1)) simp
    then show ?thesis using p by (auto simp: pbind_OutOfFuel parseredirs_total(1) split: prod.splits if_splits)
  qed
  ultimately show ?case by blast
qed simp

text \<open>
  C26: The parser of the shell comes back on every command line: the fuel \<open>parsecmd\<close> gives the mutually recursive
  functions is never used up, so each line is either parsed into a command, up to its last byte, or refused with
  a message.
\<close>

theorem parsecmd_comes_back: "(\<exists>c. parsecmd b = Parsed c (length b)) \<or> (\<exists>m. parsecmd b = SyntaxError m)"
proof (cases "parseline (parse_fuel b) b 0")
  case (Parsed c u)
  then show ?thesis by (simp add: parsecmd_def peek_def Let_def)
next
  case OutOfFuel
  then show ?thesis using parse_fuel_enough[of b 0 "parse_fuel b"] by (simp add: parse_fuel_def)
qed (simp add: parsecmd_def)

section \<open>The words of a command\<close>

definition word_char :: "byte \<Rightarrow> bool" where
  "word_char c \<longleftrightarrow> ustrchr whitespace c = None \<and> ustrchr symbols c = None"

text \<open>A word is a longest run of bytes that are neither blank nor a symbol.\<close>

definition word_ok :: "byte list \<Rightarrow> nat \<times> nat \<Rightarrow> bool" where
  "word_ok b w \<longleftrightarrow> fst w < snd w \<and> snd w \<le> length b \<and> (\<forall>i\<in>{fst w..<snd w}. word_char (b ! i)) \<and>
     (snd w < length b \<longrightarrow> \<not> word_char (b ! snd w))"

primrec cmd_ok :: "byte list \<Rightarrow> cmd \<Rightarrow> bool" where
  "cmd_ok b (ExecCmd args) \<longleftrightarrow> length args < MAXARGS \<and> (\<forall>w\<in>set args. word_ok b w)"
| "cmd_ok b (RedirCmd c q eq mode fd) \<longleftrightarrow> cmd_ok b c \<and> word_ok b (q, eq) \<and>
     (fd = 0 \<and> mode = O_RDONLY \<or> fd = 1 \<and> mode = O_WRONLY OR O_CREATE OR O_TRUNC \<or> fd = 1 \<and> mode = O_WRONLY OR O_CREATE)"
| "cmd_ok b (PipeCmd l r) \<longleftrightarrow> cmd_ok b l \<and> cmd_ok b r"
| "cmd_ok b (ListCmd l r) \<longleftrightarrow> cmd_ok b l \<and> cmd_ok b r"
| "cmd_ok b (BackCmd c) \<longleftrightarrow> cmd_ok b c"

lemma skip_word_run:
  "(\<forall>i\<in>{s..<skip_word b s}. word_char (b ! i)) \<and> (skip_word b s < length b \<longrightarrow> \<not> word_char (b ! skip_word b s))"
proof (induction b s rule: skip_word.induct)
  case (1 b s)
  show ?case
  proof (cases "s < length b \<and> word_char (b ! s)")
    case True
    then have e: "skip_word b s = skip_word b (s + 1)" by (simp add: skip_word.simps[of b s] word_char_def)
    have IH: "(\<forall>i\<in>{s + 1..<skip_word b (s + 1)}. word_char (b ! i)) \<and>
        (skip_word b (s + 1) < length b \<longrightarrow> \<not> word_char (b ! skip_word b (s + 1)))"
      using True by (intro 1) (simp add: word_char_def)
    have "word_char (b ! i)" if "i \<in> {s..<skip_word b (s + 1)}" for i
      using True IH[THEN conjunct1, rule_format, of i] that by (cases "i = s") simp_all
    with IH show ?thesis by (simp only: e) blast
  next
    case False
    then show ?thesis by (auto simp: skip_word.simps[of b s] word_char_def)
  qed
qed

lemma gettoken_word_ok: "gettoken b s = (ch CHR ''a'', q, eq, u) \<Longrightarrow> word_ok b (q, eq)"
  using gettoken_word[of b s q eq u] skip_word_run[of q b] skip_word_le[of q b] by (simp add: word_ok_def)

definition redir_ok :: "byte list \<Rightarrow> redir \<Rightarrow> bool" where
  "redir_ok b r \<longleftrightarrow> (case r of (q, eq, mode, fd) \<Rightarrow> word_ok b (q, eq) \<and>
     (fd = 0 \<and> mode = O_RDONLY \<or> fd = 1 \<and> mode = O_WRONLY OR O_CREATE OR O_TRUNC \<or> fd = 1 \<and> mode = O_WRONLY OR O_CREATE))"

lemma add_redirs_ok: "cmd_ok b (add_redirs c rs) \<longleftrightarrow> cmd_ok b c \<and> (\<forall>r\<in>set rs. redir_ok b r)"
  unfolding add_redirs_def by (induction rs arbitrary: c) (auto simp: redir_ok_def)

lemma redir_of_ok: "word_ok b (q, eq) \<Longrightarrow> redir_ok b (redir_of tok q eq)"
  unfolding redir_ok_def redir_of_def
  by (cases "tok = ch CHR ''<''"; cases "tok = ch CHR ''>''") simp_all

lemma parseredirs_ok:
  assumes "parseredirs b s rs = Parsed rs' u" "\<forall>r\<in>set rs. redir_ok b r"
  shows "\<forall>r\<in>set rs'. redir_ok b r"
proof -
  have "(\<forall>r\<in>set rs. redir_ok b r) \<longrightarrow> (\<forall>rs' u. parseredirs b s rs = Parsed rs' u \<longrightarrow> (\<forall>r\<in>set rs'. redir_ok b r))"
  proof (rule parseredirs_rule[where P =
        "\<lambda>s rs r. (\<forall>r\<in>set rs. redir_ok b r) \<longrightarrow> (\<forall>rs' u. r = Parsed rs' u \<longrightarrow> (\<forall>r\<in>set rs'. redir_ok b r))"], goal_cases)
    case (3 s rs s1 tok x y s2 q eq s3 r)
    then show ?case using redir_of_ok[OF gettoken_word_ok[OF 3(3)], of tok] by simp
  qed simp_all
  from this[THEN mp, OF assms(2), THEN spec, THEN spec, THEN mp, OF assms(1)] show ?thesis .
qed

lemma parseargs_ok:
  assumes "parseargs b s args rs = Parsed c u" "cmd_ok b (ExecCmd args)" "\<forall>r\<in>set rs. redir_ok b r"
  shows "cmd_ok b c"
proof -
  have "cmd_ok b (ExecCmd args) \<and> (\<forall>r\<in>set rs. redir_ok b r) \<longrightarrow> (\<forall>c u. parseargs b s args rs = Parsed c u \<longrightarrow> cmd_ok b c)"
  proof (rule parseargs_rule[where P =
        "\<lambda>s args rs r. cmd_ok b (ExecCmd args) \<and> (\<forall>r\<in>set rs. redir_ok b r) \<longrightarrow> (\<forall>c u. r = Parsed c u \<longrightarrow> cmd_ok b c)"],
      goal_cases)
    case (1 s args rs u)
    then show ?case by (auto simp: add_redirs_ok)
  next
    case (3 s args rs s1 q eq s2 rs' s3 r)
    then show ?case using gettoken_word_ok[OF 3(2)] parseredirs_ok[OF 3(4)] by simp
  qed simp
  from this[THEN mp, OF conjI, OF assms(2,3), THEN spec, THEN spec, THEN mp, OF assms(1)] show ?thesis .
qed

lemma parseline_ok: "parseline n b s = Parsed c u \<Longrightarrow> cmd_ok b c"
proof -
  have "parsed_with (cmd_ok b) s (parseline n b s)"
  proof (rule parse_rule[of b "cmd_ok b" s n, THEN conjunct1], goal_cases)
    case (1 s s' rs c u)
    then show ?case using parseargs_ok[OF 1(2)] parseredirs_ok[OF 1(1)] by (simp add: MAXARGS_def)
  next
    case (2 s c rs u)
    then show ?case using parseredirs_ok[OF 2(2)] by (simp add: add_redirs_ok)
  qed simp_all
  then show "parseline n b s = Parsed c u \<Longrightarrow> cmd_ok b c" by (simp add: parsed_with_def)
qed

lemma parsecmd_ok: "parsecmd b = Parsed c u \<Longrightarrow> cmd_ok b c"
  by (cases "parseline (parse_fuel b) b 0") (auto simp: parsecmd_def peek_def Let_def split: if_splits dest: parseline_ok)

text \<open>
  C28: Every command the parser builds is well formed: each \<open>execcmd\<close> has room for its words and the final null
  pointer, each word is a non-empty longest run of ordinary bytes inside the line, and each redirection opens its
  file for reading on descriptor 0 or for writing on descriptor 1.
\<close>

theorem parsecmd_builds_commands:
  assumes "parsecmd b = Parsed c u"
  shows "cmd_ok b c \<and> u = length b"
  using assms parsecmd_ok[OF assms]
  by (cases "parseline (parse_fuel b) b 0") (auto simp: parsecmd_def peek_def Let_def split: if_splits)

theorem parsecmd_builds_commands_witness:
  "parsecmd [97, 62, 98, 10] = Parsed (RedirCmd (ExecCmd [(0, 1)]) 2 3 (O_WRONLY OR O_CREATE OR O_TRUNC) 1) 4 \<and>
   cmd_ok [97, 62, 98, 10] (RedirCmd (ExecCmd [(0, 1)]) 2 3 (O_WRONLY OR O_CREATE OR O_TRUNC) 1)"
proof -
  have "parsecmd [97, 62, 98, 10] = Parsed (RedirCmd (ExecCmd [(0, 1)]) 2 3 (O_WRONLY OR O_CREATE OR O_TRUNC) 1) 4"
    by code_simp
  then show ?thesis using parsecmd_builds_commands by blast
qed

section \<open>nulterminate\<close>

fun cmd_words :: "cmd \<Rightarrow> (nat \<times> nat) list" where
  "cmd_words (ExecCmd args) = args"
| "cmd_words (RedirCmd c q eq mode fd) = cmd_words c @ [(q, eq)]"
| "cmd_words (PipeCmd l r) = cmd_words l @ cmd_words r"
| "cmd_words (ListCmd l r) = cmd_words l @ cmd_words r"
| "cmd_words (BackCmd c) = cmd_words c"

lemma word_ends_words: "word_ends c = map snd (cmd_words c)"
  by (induction c) auto

lemma cmd_ok_words: "cmd_ok b c \<Longrightarrow> w \<in> set (cmd_words c) \<Longrightarrow> word_ok b w"
  by (induction c) auto

lemma length_clear: "length (fold (\<lambda>i b. b[i := 0]) is b) = length b"
  by (induction "is" arbitrary: b) auto

lemma nth_clear: "j < length b \<Longrightarrow> fold (\<lambda>i b. b[i := 0]) is b ! j = (if j \<in> set is then 0 else b ! j)"
  by (induction "is" arbitrary: b) (auto simp: nth_list_update)

text \<open>No word's end lies inside another word.\<close>

lemma word_ends_apart:
  assumes "word_ok b v" "word_ok b w" "i \<in> {fst w..<snd w}"
  shows "i \<noteq> snd v"
  using assms by (force simp: word_ok_def)

lemma nulterminate_inside:
  assumes "\<forall>v\<in>set (cmd_words c). word_ok b v" "word_ok b w" "i \<in> {fst w..<snd w}"
  shows "nulterminate c b ! i = b ! i"
proof -
  have "i \<notin> set (word_ends c)" using word_ends_apart[OF _ assms(2,3)] assms(1) by (auto simp: word_ends_words)
  moreover have "i < length b" using assms(2,3) by (simp add: word_ok_def)
  ultimately show ?thesis by (simp add: nulterminate_def nth_clear nth_append)
qed

lemma cstring_run:
  assumes "q \<le> e" "e < length b" "b ! e = 0" "\<forall>i\<in>{q..<e}. b ! i \<noteq> 0"
  shows "cstring b q = take (e - q) (drop q b)"
proof -
  have "drop e b = drop (e - q) (drop q b)" using assms(1) by simp
  then have "drop q b = take (e - q) (drop q b) @ drop e b" by (simp only: append_take_drop_id)
  moreover have "drop e b = 0 # drop (Suc e) b" using Cons_nth_drop_Suc[OF assms(2)] assms(3) by simp
  moreover have "\<forall>x\<in>set (take (e - q) (drop q b)). x \<noteq> 0"
  proof
    fix x assume "x \<in> set (take (e - q) (drop q b))"
    then obtain k where "k < e - q" "x = b ! (q + k)" using assms(1,2) by (auto simp: in_set_conv_nth)
    then show "x \<noteq> 0" using assms(4) by simp
  qed
  ultimately show ?thesis
    using takeWhile_append2[of "take (e - q) (drop q b)" "\<lambda>c. c \<noteq> 0" "drop e b"] by (simp add: cstring_def)
qed

lemma nulterminate_word:
  assumes "\<forall>v\<in>set (cmd_words c). word_ok b v" "w \<in> set (cmd_words c)" "0 \<notin> set b"
  shows "cstring (nulterminate c b) (fst w) = take (snd w - fst w) (drop (fst w) b)"
proof -
  have w: "word_ok b w" using assms by blast
  then have le: "fst w < snd w" "snd w \<le> length b" by (simp_all add: word_ok_def)
  have len: "length (nulterminate c b) = length b + 1" by (simp add: nulterminate_def length_clear)
  have ends: "nulterminate c b ! snd w = 0"
    using assms(2) le by (simp add: nulterminate_def nth_clear word_ends_words)
  have ins: "nulterminate c b ! i = b ! i" if "i \<in> {fst w..<snd w}" for i
    using nulterminate_inside[OF assms(1) w that] .
  have "cstring (nulterminate c b) (fst w) = take (snd w - fst w) (drop (fst w) (nulterminate c b))"
    using le len ends ins assms(3) by (intro cstring_run) (auto simp: in_set_conv_nth)
  also have "\<dots> = take (snd w - fst w) (drop (fst w) b)"
    using le len ins by (intro nth_equalityI) auto
  finally show ?thesis .
qed

text \<open>
  C27: After \<open>nulterminate\<close> each word of a parsed command is a C string of its own: at its first byte starts the
  text that was read from the command line, and writing the NUL after one word never cuts another one short.
\<close>

theorem nulterminate_separates_words:
  assumes "parsecmd b = Parsed c u" "0 \<notin> set b" "w \<in> set (cmd_words c)"
  shows "cstring (nulterminate c b) (fst w) = take (snd w - fst w) (drop (fst w) b)"
  using nulterminate_word[of c b w] cmd_ok_words[OF parsecmd_ok[OF assms(1)]] assms by blast

theorem nulterminate_separates_words_witness:
  "cstring (nulterminate (ExecCmd [(0, 1)]) [97, 10]) 0 = take 1 (drop 0 [97, 10])"
proof -
  have "parsecmd [97, 10] = Parsed (ExecCmd [(0, 1)]) 2" by code_simp
  from nulterminate_separates_words[OF this, of "(0, 1)"] show ?thesis by simp
qed

section \<open>Reading a pipeline back\<close>

text \<open>
  A command of a pipeline is a list of words, each with the blanks before it, and the blanks that follow the last
  word.
\<close>

type_synonym padded = "(byte list \<times> byte list) list \<times> byte list"

definition is_ws :: "byte \<Rightarrow> bool" where
  "is_ws c \<longleftrightarrow> ustrchr whitespace c \<noteq> None"

fun show_words :: "(byte list \<times> byte list) list \<Rightarrow> byte list" where
  "show_words [] = []"
| "show_words ((bl, w) # ws) = bl @ w @ show_words ws"

fun show_pipeline :: "padded list \<Rightarrow> byte list" where
  "show_pipeline [] = []"
| "show_pipeline [(ws, t)] = show_words ws @ t"
| "show_pipeline ((ws, t) # ps) = show_words ws @ t @ ch CHR ''|'' # show_pipeline ps"

definition padded_ok :: "padded \<Rightarrow> bool" where
  "padded_ok p \<longleftrightarrow> length (fst p) < MAXARGS \<and> list_all is_ws (snd p) \<and>
     list_all (\<lambda>(bl, w). list_all is_ws bl \<and> w \<noteq> [] \<and> list_all (\<lambda>c. word_char c \<and> c \<noteq> 0) w) (fst p) \<and>
     list_all (\<lambda>(bl, w). bl \<noteq> []) (tl (fst p))"

text \<open>The argument vectors of a pipeline, from left to right.\<close>

fun pipeline_argv :: "byte list \<Rightarrow> cmd \<Rightarrow> byte list list list option" where
  "pipeline_argv b (ExecCmd args) = Some [map (\<lambda>(q, _). cstring b q) args]"
| "pipeline_argv b (PipeCmd (ExecCmd args) r) = map_option ((#) (map (\<lambda>(q, _). cstring b q) args)) (pipeline_argv b r)"
| "pipeline_argv b _ = None"

lemma skip_ws_drop: "skip_ws b s = s + length (takeWhile is_ws (drop s b))"
proof (induction b s rule: skip_ws.induct)
  case (1 b s)
  show ?case
  proof (cases "s < length b")
    case True
    then have d: "drop s b = b ! s # drop (s + 1) b" using Cons_nth_drop_Suc[OF True] by simp
    show ?thesis
    proof (cases "is_ws (b ! s)")
      case t: True
      then have "skip_ws b (s + 1) = s + 1 + length (takeWhile is_ws (drop (s + 1) b))"
        using True by (intro 1) (simp add: is_ws_def)
      then show ?thesis using True t unfolding d by (simp add: skip_ws.simps[of b s, folded is_ws_def])
    next
      case False
      then show ?thesis unfolding d by (simp add: skip_ws.simps[of b s, folded is_ws_def])
    qed
  qed (simp add: skip_ws.simps[of b s])
qed

lemma skip_word_drop: "skip_word b s = s + length (takeWhile word_char (drop s b))"
proof (induction b s rule: skip_word.induct)
  case (1 b s)
  show ?case
  proof (cases "s < length b")
    case True
    then have d: "drop s b = b ! s # drop (s + 1) b" using Cons_nth_drop_Suc[OF True] by simp
    show ?thesis
    proof (cases "word_char (b ! s)")
      case t: True
      then have "skip_word b (s + 1) = s + 1 + length (takeWhile word_char (drop (s + 1) b))"
        using True by (intro 1) (simp add: word_char_def)
      then show ?thesis using True t unfolding d by (simp add: skip_word.simps[of b s, folded word_char_def])
    next
      case False
      then show ?thesis unfolding d by (simp add: skip_word.simps[of b s, folded word_char_def])
    qed
  qed (simp add: skip_word.simps[of b s])
qed

lemma drop_past: "drop s b = x @ r \<Longrightarrow> drop (s + length x) b = r"
  by (metis add.commute append_eq_conv_conj drop_drop)

lemma fmt_at_hd: "fmt_at b s = (case drop s b of [] \<Rightarrow> 0 | c # _ \<Rightarrow> c)"
proof (cases "s < length b")
  case True
  then show ?thesis using Cons_nth_drop_Suc[OF True, symmetric] by (simp add: fmt_at_def)
qed (simp add: fmt_at_def)

lemma takeWhile_run: "list_all P x \<Longrightarrow> r = [] \<or> \<not> P (hd r) \<Longrightarrow> takeWhile P (x @ r) = x"
  by (induction x) (auto simp: takeWhile_eq_Nil_iff)

lemma skip_ws_over:
  assumes "drop s b = bl @ r" "list_all is_ws bl" "r = [] \<or> \<not> is_ws (hd r)"
  shows "skip_ws b s = s + length bl" "drop (skip_ws b s) b = r"
  using takeWhile_run[OF assms(2,3)] assms(1) drop_past[OF assms(1)] by (simp_all add: skip_ws_drop)

text \<open>Where the parser stands only matters up to blanks.\<close>

lemma peek_skip: "peek b (skip_ws b s) toks = peek b s toks"
  by (simp add: peek_def skip_ws_idem)

lemma parseredirs_skip: "parseredirs b (skip_ws b s) rs = parseredirs b s rs"
  by (simp add: parseredirs.simps[of b "skip_ws b s"] parseredirs.simps[of b s] peek_skip)

lemma parseargs_skip: "parseargs b (skip_ws b s) args rs = parseargs b s args rs"
  by (simp add: parseargs.simps[of b "skip_ws b s"] parseargs.simps[of b s] peek_skip)

lemma parsepipe_skip: "parsepipe (Suc (Suc n)) b (skip_ws b s) = parsepipe (Suc (Suc n)) b s"
  by (simp add: peek_skip)

lemma parseredirs_none: "ustrchr (str ''<>'') (fmt_at b (skip_ws b s)) = None \<Longrightarrow> parseredirs b s rs = Parsed rs (skip_ws b s)"
  by (simp add: parseredirs.simps[of b s] peek_def Let_def)

lemma word_char_facts:
  assumes "word_char c"
  shows "\<not> is_ws c" "ustrchr (str ''<>'') c = None" "ustrchr (str ''|)&;'') c = None" "ustrchr (str ''('') c = None"
    "c \<notin> set (str ''|();&<'')" "c \<noteq> ch CHR ''>''"
  using assms by (auto simp: word_char_def is_ws_def symbols_def str_def ch_def split: if_splits)

definition words_ok :: "(byte list \<times> byte list) list \<Rightarrow> bool" where
  "words_ok ws \<longleftrightarrow>
     list_all (\<lambda>(bl, w). list_all is_ws bl \<and> w \<noteq> [] \<and> list_all (\<lambda>c. word_char c \<and> c \<noteq> 0) w) ws \<and>
     list_all (\<lambda>(bl, w). bl \<noteq> []) (tl ws)"

lemma words_ok_Cons:
  assumes "words_ok ((bl, w) # ws)"
  shows "list_all is_ws bl" "w \<noteq> []" "list_all word_char w" "hd w \<noteq> 0" "word_char (hd w)" "words_ok ws"
    "list_all (\<lambda>(bl, w). bl \<noteq> []) ws"
proof -
  show "list_all is_ws bl" "w \<noteq> []" "list_all word_char w" "list_all (\<lambda>(bl, w). bl \<noteq> []) ws"
    using assms by (auto simp: words_ok_def list_all_iff)
  show "hd w \<noteq> 0" "word_char (hd w)" using assms hd_in_set[of w] by (auto simp: words_ok_def list_all_iff)
  show "words_ok ws" using assms by (cases ws) (simp_all add: words_ok_def)
qed

text \<open>What follows the words of a command: blanks, then the end of the line or a bar.\<close>

definition tail_ok :: "byte list \<Rightarrow> byte list \<Rightarrow> bool" where
  "tail_ok t r \<longleftrightarrow> list_all is_ws t \<and> (r = [] \<or> hd r = ch CHR ''|'')"

lemma bar_facts: "\<not> is_ws (ch CHR ''|'')" "\<not> word_char (ch CHR ''|'')" "ch CHR ''|'' \<noteq> 0"
  by (simp_all add: is_ws_def word_char_def whitespace_def symbols_def str_def ch_def)

lemma tail_start: "tail_ok t r \<Longrightarrow> r = [] \<or> \<not> is_ws (hd r)"
  using bar_facts(1) by (auto simp: tail_ok_def)

lemma ws_not_word: "is_ws c \<Longrightarrow> \<not> word_char c"
  by (auto simp: is_ws_def word_char_def)

lemma after_word:
  assumes "list_all (\<lambda>(bl, w). bl \<noteq> []) ws" "words_ok ws" "tail_ok t r"
  shows "show_words ws @ t @ r = [] \<or> \<not> word_char (hd (show_words ws @ t @ r))"
proof (cases ws)
  case Nil
  then show ?thesis using assms(3) bar_facts(2) ws_not_word by (cases t; cases r) (auto simp: tail_ok_def)
next
  case (Cons a ws')
  then obtain c bl w where "a = (c # bl, w)" using assms(1) by (cases a; cases "fst a") auto
  then show ?thesis using assms(2) Cons ws_not_word by (simp add: words_ok_def)
qed

lemma next_byte:
  assumes "drop p b = show_words ws @ t @ r" "words_ok ws" "tail_ok t r"
  shows "fmt_at b (skip_ws b p) = 0 \<or> fmt_at b (skip_ws b p) = ch CHR ''|'' \<or> word_char (fmt_at b (skip_ws b p))"
proof (cases ws)
  case Nil
  then have "drop (skip_ws b p) b = r"
    using skip_ws_over(2)[of p b t r] assms tail_start[OF assms(3)] by (simp add: tail_ok_def)
  then show ?thesis using assms(3) by (auto simp: fmt_at_hd tail_ok_def split: list.splits)
next
  case (Cons a ws')
  obtain bl w where a: "a = (bl, w)" by fastforce
  note w = words_ok_Cons[OF assms(2)[unfolded Cons a]]
  have "drop (skip_ws b p) b = w @ show_words ws' @ t @ r"
    using w(2) word_char_facts(1)[OF w(5)] assms(1) Cons a by (intro skip_ws_over(2)[OF _ w(1)]) auto
  then show ?thesis using w(2,5) by (cases w) (auto simp: fmt_at_hd)
qed

lemma next_symbol:
  assumes "drop p b = show_words ws @ t @ r" "words_ok ws" "tail_ok t r"
  shows "ustrchr (str ''<>'') (fmt_at b (skip_ws b p)) = None" "ustrchr (str ''('') (fmt_at b (skip_ws b p)) = None"
proof -
  have *: "ustrchr (str ''<>'') c = None \<and> ustrchr (str ''('') c = None" if "c = 0 \<or> c = ch CHR ''|'' \<or> word_char c" for c
    using that word_char_facts(2,4)[of c] by (elim disjE) (simp_all add: str_def ch_def)
  show "ustrchr (str ''<>'') (fmt_at b (skip_ws b p)) = None" "ustrchr (str ''('') (fmt_at b (skip_ws b p)) = None"
    using *[OF next_byte[OF assms]] by blast+
qed

fun ranges :: "nat \<Rightarrow> (byte list \<times> byte list) list \<Rightarrow> (nat \<times> nat) list" where
  "ranges s [] = []"
| "ranges s ((bl, w) # ws) = (s + length bl, s + length bl + length w) # ranges (s + length bl + length w) ws"

lemma gettoken_at_word:
  assumes "drop s b = w @ x" "w \<noteq> []" "list_all word_char w" "hd w \<noteq> 0" "x = [] \<or> \<not> word_char (hd x)"
  shows "gettoken b s = (ch CHR ''a'', s, s + length w, skip_ws b (s + length w))"
proof -
  have c: "word_char (hd w)" using assms(2,3) by (cases w) auto
  have "drop s b = [] @ w @ x" using assms(1) by simp
  from skip_ws_over(1)[OF this] have ws: "skip_ws b s = s" using word_char_facts(1)[OF c] assms(2) by simp
  have "fmt_at b s = hd w" using assms(1,2) by (cases w) (auto simp: fmt_at_hd)
  moreover have "skip_word b s = s + length w" using takeWhile_run[OF assms(3,5)] assms(1) by (simp add: skip_word_drop)
  ultimately have "token_at b s = (ch CHR ''a'', s + length w)"
    using assms(4) word_char_facts(5,6)[OF c] by (simp add: token_at_def Let_def)
  then show ?thesis by (simp add: gettoken_def ws)
qed

lemma parseargs_words:
  assumes "drop s b = show_words ws @ t @ r" "words_ok ws" "tail_ok t r" "length args + length ws < MAXARGS"
  shows "parseargs b s args [] = Parsed (ExecCmd (args @ ranges s ws)) (s + length (show_words ws @ t))"
  using assms
proof (induction ws arbitrary: s args)
  case Nil
  then have d: "drop s b = t @ r" by simp
  have s1: "skip_ws b s = s + length t" "drop (s + length t) b = r"
    using skip_ws_over[OF d _ tail_start[OF Nil(3)]] Nil(3) by (simp_all add: tail_ok_def)
  have st: "skip_ws b (s + length t) = s + length t" using skip_ws_idem[of b s] s1(1) by simp
  show ?case
  proof (cases r)
    case r: Nil
    then have "fmt_at b (s + length t) = 0" using s1(2) by (simp add: fmt_at_hd)
    then show ?thesis
      by (simp add: parseargs.simps[of b s] peek_def gettoken_def token_at_def Let_def s1(1) st add_redirs_def)
  next
    case (Cons c r')
    then have "fmt_at b (s + length t) = ch CHR ''|''" using s1(2) Nil(3) by (simp add: fmt_at_hd tail_ok_def)
    then show ?thesis
      using bar_facts(3) by (simp add: parseargs.simps[of b s] peek_def Let_def s1(1) add_redirs_def str_def)
  qed
next
  case (Cons a ws)
  obtain bl w where a: "a = (bl, w)" by fastforce
  note w = words_ok_Cons[OF Cons.prems(2)[unfolded a]]
  define x where "x = show_words ws @ t @ r"
  have x: "x = [] \<or> \<not> word_char (hd x)" unfolding x_def by (rule after_word[OF w(7,6) Cons.prems(3)])
  have d: "drop s b = bl @ w @ x" using Cons.prems(1) a by (simp add: x_def)
  have s1: "skip_ws b s = s + length bl" "drop (s + length bl) b = w @ x"
    using skip_ws_over[OF d w(1)] w(2) word_char_facts(1)[OF w(5)] by auto
  have g: "gettoken b (s + length bl) =
      (ch CHR ''a'', s + length bl, s + length bl + length w, skip_ws b (s + length bl + length w))"
    by (rule gettoken_at_word[OF s1(2) w(2,3,4) x])
  have d2: "drop (s + length bl + length w) b = show_words ws @ t @ r"
    using drop_past[OF s1(2)] by (simp add: x_def)
  note rd = parseredirs_none[OF next_symbol(1)[OF d2 w(6) Cons.prems(3)], of "[]"]
  have "fmt_at b (s + length bl) = hd w" using s1(2) w(2) by (cases w) (auto simp: fmt_at_hd)
  then have p: "peek b s ''|)&;'' = (False, s + length bl)"
    using word_char_facts(3)[OF w(5)] by (simp add: peek_def s1(1) Let_def)
  have "ch CHR ''a'' \<noteq> 0" by (simp add: ch_def)
  then have "parseargs b s args [] =
      parseargs b (s + length bl + length w) (args @ [(s + length bl, s + length bl + length w)]) []"
    using Cons.prems(4) rd by (simp add: parseargs.simps[of b s] p g parseargs_skip parseredirs_skip)
  also have "\<dots> = Parsed (ExecCmd (args @ ranges s (a # ws))) (s + length (show_words (a # ws) @ t))"
    using Cons.IH[OF d2 w(6) Cons.prems(3)] Cons.prems(4) a by (simp add: add.assoc)
  finally show ?case .
qed

fun pipe_ranges :: "nat \<Rightarrow> padded list \<Rightarrow> cmd" where
  "pipe_ranges s [] = ExecCmd []"
| "pipe_ranges s [(ws, t)] = ExecCmd (ranges s ws)"
| "pipe_ranges s ((ws, t) # ps) = PipeCmd (ExecCmd (ranges s ws)) (pipe_ranges (s + length (show_words ws @ t) + 1) ps)"

lemma padded_ok_iff: "padded_ok (ws, t) \<longleftrightarrow> length ws < MAXARGS \<and> list_all is_ws t \<and> words_ok ws"
  by (auto simp: padded_ok_def words_ok_def)

lemma parseexec_words:
  assumes "drop s b = show_words ws @ t @ r" "words_ok ws" "tail_ok t r" "length ws < MAXARGS"
  shows "parseexec (Suc n) b s = Parsed (ExecCmd (ranges s ws)) (s + length (show_words ws @ t))"
proof -
  have "peek b s ''('' = (False, skip_ws b s)"
    using next_symbol(2)[OF assms(1,2,3)] by (simp add: peek_def Let_def)
  moreover have "parseredirs b (skip_ws b s) [] = Parsed [] (skip_ws b s)"
    using parseredirs_none[OF next_symbol(1)[OF assms(1,2,3)]] by (simp add: parseredirs_skip)
  ultimately show ?thesis
    using parseargs_words[OF assms(1,2,3), of "[]"] assms(4) by (simp add: parseargs_skip)
qed

lemma skip_token_bar:
  assumes "drop s b = ch CHR ''|'' # r"
  shows "peek b s ''|'' = (True, s)" "skip_token b s = skip_ws b (s + 1)"
proof -
  have ws: "skip_ws b s = s" using skip_ws_over(1)[of s b "[]"] assms bar_facts(1) by simp
  have c: "fmt_at b s = ch CHR ''|''" using assms by (simp add: fmt_at_hd)
  show "peek b s ''|'' = (True, s)" using bar_facts(3) by (simp add: peek_def Let_def ws c str_def)
  show "skip_token b s = skip_ws b (s + 1)"
    using bar_facts(3) by (simp add: skip_token_def gettoken_def token_at_def Let_def ws c str_def)
qed

lemma parsepipe_pipeline:
  assumes "drop s b = show_pipeline ps" "list_all padded_ok ps" "ps \<noteq> []" "length ps + 1 \<le> n" "s \<le> length b"
  shows "parsepipe n b s = Parsed (pipe_ranges s ps) (length b)"
  using assms
proof (induction s ps arbitrary: n rule: pipe_ranges.induct)
  case (2 s ws t)
  then obtain m where m: "n = Suc (Suc m)" by (auto simp: le_iff_add)
  have d: "drop s b = show_words ws @ t @ []" using 2(1) by simp
  have "parseexec (Suc m) b s = Parsed (ExecCmd (ranges s ws)) (s + length (show_words ws @ t))"
    using 2(2) by (intro parseexec_words[OF d]) (simp_all add: padded_ok_iff tail_ok_def)
  moreover have "s + length (show_words ws @ t) = length b" using arg_cong[OF d, of length] 2(5) by simp
  moreover have "peek b (length b) ''|'' = (False, length b)"
    by (simp add: peek_def Let_def fmt_at_def skip_ws.simps)
  ultimately show ?case unfolding m by simp
next
  case (3 s ws t p ps)
  then obtain m where m: "n = Suc (Suc m)" by (auto simp: le_iff_add)
  define u where "u = s + length (show_words ws @ t)"
  have d: "drop s b = show_words ws @ t @ ch CHR ''|'' # show_pipeline (p # ps)" using 3(2) by simp
  have e: "parseexec (Suc m) b s = Parsed (ExecCmd (ranges s ws)) u"
    unfolding u_def using 3(3) by (intro parseexec_words[OF d]) (simp_all add: padded_ok_iff tail_ok_def)
  have du: "drop u b = ch CHR ''|'' # show_pipeline (p # ps)"
    using drop_past[of s b "show_words ws @ t"] d by (simp add: u_def)
  have "u < length b" using du by (metis drop_all list.distinct(1) not_le)
  then have "parsepipe (Suc m) b (u + 1) = Parsed (pipe_ranges (u + 1) (p # ps)) (length b)"
    using 3(3,5) drop_past[of u b "[ch CHR ''|'']"] du m by (intro 3(1)[folded u_def]) simp_all
  moreover obtain m' where "m = Suc m'" using 3(5) m by (cases m) simp_all
  ultimately have "parsepipe (Suc m) b (skip_ws b (u + 1)) = Parsed (pipe_ranges (u + 1) (p # ps)) (length b)"
    using parsepipe_skip[of m' b "u + 1"] by simp
  then show ?case
    unfolding m using e skip_token_bar[OF du] by (simp add: u_def del: parseexec.simps)
qed simp_all

lemma parsecmd_pipeline:
  assumes "list_all padded_ok ps" "ps \<noteq> []"
  shows "parsecmd (show_pipeline ps) = Parsed (pipe_ranges 0 ps) (length (show_pipeline ps))"
proof -
  let ?b = "show_pipeline ps"
  have len: "length ps \<le> length ?b + 1" using assms(2) by (induction ps rule: show_pipeline.induct) auto
  have at_end: "peek ?b (length ?b) toks = (False, length ?b)" for toks
    by (simp add: peek_def Let_def fmt_at_def skip_ws.simps)
  obtain n where n: "n = 4 * length ?b + 3" "parse_fuel ?b = Suc n" by (simp add: parse_fuel_def)
  have "parsepipe n ?b 0 = Parsed (pipe_ranges 0 ps) (length ?b)"
    using len assms n by (intro parsepipe_pipeline) simp_all
  then show ?thesis
    by (simp add: parsecmd_def n(2) parseback.simps[of ?b "length ?b"] at_end)
qed

lemma show_words_nonzero: "words_ok ws \<Longrightarrow> 0 \<notin> set (show_words ws)"
proof (induction ws rule: show_words.induct)
  case (2 bl w ws)
  note w = words_ok_Cons[OF 2(2)]
  have "0 \<notin> set bl" using w(1) by (auto simp: list_all_iff is_ws_def whitespace_def)
  moreover have "0 \<notin> set w" using 2(2) by (auto simp: words_ok_def list_all_iff)
  ultimately show ?case using 2(1) w(6) by simp
qed simp

lemma show_pipeline_nonzero: "list_all padded_ok ps \<Longrightarrow> 0 \<notin> set (show_pipeline ps)"
proof (induction ps rule: show_pipeline.induct)
  case (2 ws t)
  then show ?case using show_words_nonzero[of ws] by (auto simp: padded_ok_iff list_all_iff is_ws_def whitespace_def)
next
  case (3 ws t p ps)
  then have "0 \<notin> set t" by (auto simp: padded_ok_iff list_all_iff is_ws_def whitespace_def)
  then show ?case using 3 show_words_nonzero[of ws] by (simp add: padded_ok_iff ch_def)
qed simp

lemma ranges_text:
  "drop s b = show_words ws @ x \<Longrightarrow> map (\<lambda>(q, e). take (e - q) (drop q b)) (ranges s ws) = map snd ws"
proof (induction s ws rule: ranges.induct)
  case (2 s bl w ws)
  have d: "drop (s + length bl) b = w @ show_words ws @ x" using drop_past[of s b bl] 2(2) by simp
  then have "drop (s + length bl + length w) b = show_words ws @ x" by (rule drop_past)
  from 2(1)[OF this] show ?case using d by simp
qed simp

lemma pipeline_argv_text:
  assumes "\<forall>w\<in>set (cmd_words (pipe_ranges s ps)). cstring B (fst w) = take (snd w - fst w) (drop (fst w) b)"
    "drop s b = show_pipeline ps" "ps \<noteq> []"
  shows "pipeline_argv B (pipe_ranges s ps) = Some (map (\<lambda>p. map snd (fst p)) ps)"
  using assms
proof (induction s ps rule: pipe_ranges.induct)
  case (2 s ws t)
  have "map (\<lambda>(q, _). cstring B q) (ranges s ws) = map (\<lambda>(q, e). take (e - q) (drop q b)) (ranges s ws)"
    using 2(1) by (auto simp: case_prod_beta)
  then show ?case using ranges_text[of s b ws t] 2(2) by simp
next
  case (3 s ws t p ps)
  have "map (\<lambda>(q, _). cstring B q) (ranges s ws) = map (\<lambda>(q, e). take (e - q) (drop q b)) (ranges s ws)"
    using 3(2) by (auto simp: case_prod_beta)
  moreover have "drop (s + length (show_words ws @ t) + 1) b = show_pipeline (p # ps)"
    using drop_past[of s b "show_words ws @ t @ [ch CHR ''|'']"] 3(3) by simp
  ultimately show ?case using ranges_text[of s b ws] 3 by simp
qed simp

text \<open>
  C25: A pipeline is read back as it was written: for commands of fewer than \<open>MAXARGS\<close> words, separated by any
  blanks and joined by bars, the shell's parser followed by \<open>nulterminate\<close> gives the pipeline whose commands,
  from left to right, get exactly those words as their argument vectors.
\<close>

theorem parsecmd_reads_pipeline:
  assumes "list_all padded_ok ps" "ps \<noteq> []"
  shows "\<exists>c. parsecmd (show_pipeline ps) = Parsed c (length (show_pipeline ps)) \<and>
    pipeline_argv (nulterminate c (show_pipeline ps)) c = Some (map (\<lambda>p. map snd (fst p)) ps)"
proof -
  note p = parsecmd_pipeline[OF assms]
  have "\<forall>w\<in>set (cmd_words (pipe_ranges 0 ps)). word_ok (show_pipeline ps) w"
    using cmd_ok_words[OF parsecmd_ok[OF p]] by blast
  from nulterminate_word[OF this _ show_pipeline_nonzero[OF assms(1)]]
  have "pipeline_argv (nulterminate (pipe_ranges 0 ps) (show_pipeline ps)) (pipe_ranges 0 ps)
      = Some (map (\<lambda>p. map snd (fst p)) ps)"
    using assms(2) by (intro pipeline_argv_text[where b = "show_pipeline ps"]) simp_all
  then show ?thesis using p by blast
qed

theorem parsecmd_reads_pipeline_witness:
  "let ps = [([([], [108, 115]), ([32], [45, 108])], [32]), ([([32, 9], [119, 99])], [10])]; b = show_pipeline ps in
   list_all padded_ok ps \<and> (\<exists>c. parsecmd b = Parsed c (length b) \<and>
     pipeline_argv (nulterminate c b) c = Some [[[108, 115], [45, 108]], [[119, 99]]])"
  using parsecmd_reads_pipeline[of "[([([], [108, 115]), ([32], [45, 108])], [32]), ([([32, 9], [119, 99])], [10])]"]
  by (simp add: padded_ok_def MAXARGS_def is_ws_def word_char_def whitespace_def symbols_def str_def ch_def)

end
