(* ===== verification/Fslaws.thy ===== *)
theory Fslaws
  imports Fs
begin

text \<open>
  What the file system does to the blocks a transaction sees, \<open>view s\<close>: the block allocator, the mapping from
  the blocks of a file to blocks of the disk, and reading and writing a file.  Everything is proved from the
  laws of the block store, so buffers and log do not appear again.
\<close>

section \<open>Frames\<close>

lemma tx_frame_fs:
  fixes s :: "'a fs_scheme"
  assumes "tx_frame s t"
  shows "sb t = sb s" "itable t = itable s" "fs.more t = fs.more s" "ino ip t = ino ip s"
proof -
  have "logging.more t = logging.more s" using assms by (simp add: tx_frame_def log_frame_def)
  then show "sb t = sb s" "itable t = itable s" "fs.more t = fs.more s" by (cases s; cases t; simp)+
  then show "ino ip t = ino ip s" by (simp add: ino_def)
qed

lemma tx_ok_less: "tx_ok D H k s \<Longrightarrow> j \<le> k \<Longrightarrow> tx_ok D H j s"
  by (simp add: tx_ok_def log_room_def)

lemma tx_frame_loggable: "tx_frame s t \<Longrightarrow> loggable t = loggable s"
  by (rule tx.frame_loggable)

section \<open>The bitmap\<close>

lemma bit_used_bit: "bit_used d i \<longleftrightarrow> bit (d ! (i div 8)) (i mod 8)"
  by (simp add: bit_used_def bmask_def and_exp_eq_0_iff_not_bit)

lemma bit_bmask: "n < 8 \<Longrightarrow> bit (bmask i) n \<longleftrightarrow> n = i mod 8"
  by (auto simp: bmask_def bit_exp_iff)

lemma length_mark [simp]: "length (mark_used d i) = length d" "length (mark_free d i) = length d"
  by (simp_all add: mark_used_def mark_free_def)

lemma same_bit: "i div 8 = j div 8 \<Longrightarrow> i mod 8 = j mod 8 \<Longrightarrow> i = (j :: nat)"
  by (metis div_mult_mod_eq)

lemma bit_used_mark:
  assumes "i < 8 * length d" "j < 8 * length d"
  shows "bit_used (mark_used d i) j \<longleftrightarrow> j = i \<or> bit_used d j"
    and "bit_used (mark_free d i) j \<longleftrightarrow> j \<noteq> i \<and> bit_used d j"
proof -
  have b: "i div 8 < length d" using assms(1) by linarith
  have m: "bit (bmask i) (j mod 8) \<longleftrightarrow> j mod 8 = i mod 8" by (rule bit_bmask) simp
  have e: "j = i \<longleftrightarrow> i div 8 = j div 8 \<and> j mod 8 = i mod 8" using same_bit[of i j] by metis
  show "bit_used (mark_used d i) j \<longleftrightarrow> j = i \<or> bit_used d j"
  proof (cases "i div 8 = j div 8")
    case True
    then have "mark_used d i ! (j div 8) = d ! (j div 8) OR bmask i" using b by (simp add: mark_used_def)
    then show ?thesis unfolding e bit_used_bit using True m by (simp only: bit_or_iff) blast
  qed (simp add: e bit_used_bit mark_used_def)
  show "bit_used (mark_free d i) j \<longleftrightarrow> j \<noteq> i \<and> bit_used d j"
  proof (cases "i div 8 = j div 8")
    case True
    then have "mark_free d i ! (j div 8) = d ! (j div 8) AND NOT (bmask i)" using b by (simp add: mark_free_def)
    then show ?thesis unfolding e bit_used_bit using True m by (simp add: bit_and_iff bit_not_iff) blast
  qed (simp add: e bit_used_bit mark_free_def)
qed

text \<open>Block \<open>b\<close> is marked in the bitmap that the transaction sees.\<close>

definition used :: "superblock \<Rightarrow> (nat \<Rightarrow> byte list) \<Rightarrow> nat \<Rightarrow> bool" where
  "used B V b \<longleftrightarrow> bit_used (V (BBLOCK b B)) (b mod BPB)"

definition mark_block :: "superblock \<Rightarrow> nat \<Rightarrow> (nat \<Rightarrow> byte list) \<Rightarrow> nat \<Rightarrow> byte list" where
  "mark_block B b V = V(BBLOCK b B := mark_used (V (BBLOCK b B)) (b mod BPB))"

definition alloc_block :: "superblock \<Rightarrow> nat \<Rightarrow> (nat \<Rightarrow> byte list) \<Rightarrow> nat \<Rightarrow> byte list" where
  "alloc_block B b V = (mark_block B b V)(b := replicate BSIZE 0)"

lemma bzero_law:
  fixes s :: "'a fs_scheme"
  assumes "tx_ok D H (Suc k) s" "H b = None" "card (dom H) \<le> 2" "b \<notin> D" "loggable s b"
  shows "\<exists>s'. bzero ROOTDEV b s = Ok () s' \<and> tx_ok D H k s' \<and> view s' = (view s)(b := replicate BSIZE 0) \<and> tx_frame s s'"
proof -
  obtain i s1 s2 s3 where s: "bread ROOTDEV b s = Ok i s1" "log_write i (set_bdata i (replicate BSIZE 0) s1) = Ok () s2"
    "brelse i s2 = Ok () s3" "tx_ok D H k s3" "view s3 = (view s)(b := replicate BSIZE 0)" "tx_frame s s3"
    using tx.update_block[OF assms, of "\<lambda>_. replicate BSIZE 0"] by auto
  then show ?thesis by (intro exI[of _ s3]) (simp add: bzero_def Let_def)
qed

lemma find_app: "find P (xs @ ys) = (case find P xs of None \<Rightarrow> find P ys | Some x \<Rightarrow> Some x)"
  by (induction xs) auto

lemma find_map: "find P (map f xs) = map_option f (find (\<lambda>x. P (f x)) xs)"
  by (induction xs) auto

lemma find_cong_list: "(\<And>x. x \<in> set xs \<Longrightarrow> P x = Q x) \<Longrightarrow> find P xs = find Q xs"
  by (induction xs) auto

lemma BPB_pos: "0 < BPB" "BPB = 8 * BSIZE"
  by (simp_all add: BPB_def BSIZE_def)

lemma BBLOCK_start:
  assumes "BPB dvd b" "bi < BPB"
  shows "BBLOCK (b + bi) B = BBLOCK b B" "(b + bi) mod BPB = bi" "b mod BPB = 0"
  using assms by (auto simp: BBLOCK_def)

text \<open>The blocks that the bitmap block starting at \<open>b\<close> is responsible for.\<close>

definition covered :: "superblock \<Rightarrow> nat \<Rightarrow> nat list" where
  "covered B b = map ((+) b) [0..<min BPB (sb_size B - b)]"

lemma balloc_from_law:
  fixes s :: "'a fs_scheme"
  assumes "tx_ok D H (Suc (Suc k)) s" "card (dom H) \<le> 2"
    "\<And>b. b \<in> set bs \<Longrightarrow> BPB dvd b \<and> H (BBLOCK b (sb s)) = None \<and> BBLOCK b (sb s) \<notin> D \<and> loggable s (BBLOCK b (sb s))"
    "\<And>x. \<not> used (sb s) (view s) x \<Longrightarrow> x < sb_size (sb s) \<Longrightarrow> H x = None \<and> x \<notin> D \<and> loggable s x"
  shows "\<exists>s'. balloc_from ROOTDEV bs s =
      Ok (case find (\<lambda>x. \<not> used (sb s) (view s) x) (concat (map (covered (sb s)) bs)) of None \<Rightarrow> 0 | Some x \<Rightarrow> x) s' \<and>
    tx_ok D H k s' \<and> tx_frame s s' \<and>
    view s' = (case find (\<lambda>x. \<not> used (sb s) (view s) x) (concat (map (covered (sb s)) bs)) of
      None \<Rightarrow> view s | Some x \<Rightarrow> alloc_block (sb s) x (view s))"
  using assms
proof (induction bs arbitrary: s)
  case Nil
  then show ?case using tx_ok_less[OF Nil(1), of k] by simp
next
  case (Cons b bs)
  let ?B = "sb s" and ?V = "view s"
  let ?bm = "BBLOCK b ?B"
  have b: "BPB dvd b" "H ?bm = None" "?bm \<notin> D" "loggable s ?bm" using Cons.prems(3)[of b] by auto
  obtain i s1 where s1: "bread ROOTDEV ?bm s = Ok i s1" "tx_ok D (H(?bm \<mapsto> i)) (Suc (Suc k)) s1" "bdata i s1 = ?V ?bm"
    "view s1 = ?V" "tx_frame s s1"
    using tx.read[OF Cons.prems(1) b(2) Cons.prems(2)] by blast
  note fr1 = tx_frame_fs[OF s1(5)]
  have h: "(H(?bm \<mapsto> i)) ?bm = Some i" "(H(?bm \<mapsto> i))(?bm := None) = H" using b(2) by auto
  let ?Q = "\<lambda>bi. \<not> bit_used (?V ?bm) bi" and ?P = "\<lambda>x. \<not> used ?B ?V x"
  have bd: "b_data (bufs s1 i) = ?V ?bm" using s1(3) by (simp add: bdata_def)
  have cov: "find ?P (covered ?B b) = map_option ((+) b) (find ?Q [0..<min BPB (sb_size ?B - b)])"
    unfolding covered_def find_map
    by (rule arg_cong[of _ _ "map_option ((+) b)"], rule find_cong_list) (simp add: used_def BBLOCK_start[OF b(1)])
  show ?case
  proof (cases "find ?Q [0..<min BPB (sb_size ?B - b)]")
    case None
    obtain s2 where s2: "brelse i s1 = Ok () s2" "tx_ok D H (Suc (Suc k)) s2" "view s2 = view s1" "tx_frame s1 s2"
      using tx.rel[OF s1(2) h(1) b(3)] unfolding h(2) by blast
    have f2: "tx_frame s s2" using tx_frame_trans[OF s1(5) s2(4)] .
    note fr2 = tx_frame_fs[OF f2] and l2 = tx_frame_loggable[OF f2] and v2 = s2(3)[unfolded s1(4)]
    have "\<exists>s'. balloc_from ROOTDEV bs s2 =
        Ok (case find ?P (concat (map (covered ?B) bs)) of None \<Rightarrow> 0 | Some x \<Rightarrow> x) s' \<and>
      tx_ok D H k s' \<and> tx_frame s2 s' \<and>
      view s' = (case find ?P (concat (map (covered ?B) bs)) of None \<Rightarrow> ?V | Some x \<Rightarrow> alloc_block ?B x ?V)"
      using Cons.IH[of s2, unfolded fr2 l2 v2] s2(2) Cons.prems(2,3,4) by simp
    then obtain s' where s': "balloc_from ROOTDEV bs s2 =
        Ok (case find ?P (concat (map (covered ?B) bs)) of None \<Rightarrow> 0 | Some x \<Rightarrow> x) s'" "tx_ok D H k s'" "tx_frame s2 s'"
      "view s' = (case find ?P (concat (map (covered ?B) bs)) of None \<Rightarrow> ?V | Some x \<Rightarrow> alloc_block ?B x ?V)" by blast
    have "find ?P (concat (map (covered ?B) (b # bs))) = find ?P (concat (map (covered ?B) bs))"
      using None cov by (simp add: find_app)
    then show ?thesis
      using s1(1) s2(1) s' None bd fr1 tx_frame_trans[OF f2 s'(3)] by (intro exI[of _ s']) simp
  next
    case (Some bi)
    have bi: "bi < BPB" "b + bi < sb_size ?B" "\<not> bit_used (?V ?bm) bi" using Some by (auto simp: find_Some_iff)
    let ?x = "b + bi"
    have x: "\<not> used ?B ?V ?x" "BBLOCK ?x ?B = ?bm" "?x mod BPB = bi"
      using bi BBLOCK_start[OF b(1) bi(1)] by (simp_all add: used_def)
    have hx: "H ?x = None" "?x \<notin> D" "loggable s ?x" using Cons.prems(4)[OF x(1) bi(2)] by auto
    have len: "length (mark_used (?V ?bm) bi) = BSIZE" using tx.len[OF Cons.prems(1)] by simp
    obtain s2 s3 where s3: "log_write i (set_bdata i (mark_used (?V ?bm) bi) s1) = Ok () s2" "brelse i s2 = Ok () s3"
      "tx_ok D H (Suc k) s3" "view s3 = ?V(?bm := mark_used (?V ?bm) bi)" "tx_frame s1 s3"
      using tx.put_log_rel[OF s1(2) h(1) b(3) _ len] b(4) unfolding h(2) tx_frame_loggable[OF s1(5)] s1(4) by blast
    have f3: "tx_frame s s3" using tx_frame_trans[OF s1(5) s3(5)] .
    obtain s4 where s4: "bzero ROOTDEV ?x s3 = Ok () s4" "tx_ok D H k s4" "view s4 = (view s3)(?x := replicate BSIZE 0)"
      "tx_frame s3 s4"
      using bzero_law[OF s3(3) hx(1) Cons.prems(2) hx(2)] hx(3) unfolding tx_frame_loggable[OF f3] by blast
    have "find ?P (concat (map (covered ?B) (b # bs))) = Some ?x" using Some cov by (simp add: find_app)
    moreover have "view s4 = alloc_block ?B ?x ?V" using s4(3) s3(4) x by (simp add: alloc_block_def mark_block_def)
    moreover have "balloc_from ROOTDEV (b # bs) s = Ok ?x s4"
      using s1(1) s3(1,2) s4(1) Some bd fr1 by (simp add: Let_def)
    ultimately show ?thesis using s4(2) tx_frame_trans[OF f3 s4(4)] by (intro exI[of _ s4]) simp
  qed
qed

lemma covered_all: "concat (map (\<lambda>k. covered B (k * BPB)) [0..<n]) = [0..<min (n * BPB) (sb_size B)]"
proof (induction n)
  case (Suc n)
  have c: "covered B (n * BPB) = [n * BPB..<min (Suc n * BPB) (sb_size B)]"
    by (rule nth_equalityI) (auto simp: covered_def)
  show ?case
  proof (cases "n * BPB \<le> sb_size B")
    case True
    then have "[0..<n * BPB] @ [n * BPB..<min (Suc n * BPB) (sb_size B)] = [0..<min (Suc n * BPB) (sb_size B)]"
      using upt_add_eq_append[of 0 "n * BPB" "min (Suc n * BPB) (sb_size B) - n * BPB"] by (simp add: min_def)
    then show ?thesis using Suc True c by (simp add: min_def)
  next
    case False
    then show ?thesis using Suc c by (simp add: min_def)
  qed
qed simp

lemma covered_starts: "concat (map (covered B) (bitmap_starts B)) = [0..<sb_size B]"
proof -
  have "sb_size B \<le> (sb_size B + BPB - 1) div BPB * BPB"
    using BPB_pos(1) div_mult_mod_eq[of "sb_size B + BPB - 1" BPB] mod_less_divisor[of BPB "sb_size B + BPB - 1"] by linarith
  then have "min ((sb_size B + BPB - 1) div BPB * BPB) (sb_size B) = sb_size B" by (simp add: min_def)
  then show ?thesis using covered_all[of B "(sb_size B + BPB - 1) div BPB"] by (simp add: bitmap_starts_def comp_def)
qed

lemma bitmap_starts_dvd: "b \<in> set (bitmap_starts B) \<Longrightarrow> BPB dvd b \<and> b < sb_size B"
proof -
  assume "b \<in> set (bitmap_starts B)"
  then have "b \<in> (\<lambda>k. k * BPB) ` {0..<(sb_size B + BPB - 1) div BPB}" by (simp add: bitmap_starts_def)
  then obtain k where k: "b = k * BPB" "k < (sb_size B + BPB - 1) div BPB"
    by (metis (no_types, lifting) imageE atLeastLessThan_iff)
  then have "(k + 1) * BPB \<le> sb_size B + BPB - 1"     using mult_le_mono1[of "k + 1" "(sb_size B + BPB - 1) div BPB" BPB]
      div_times_less_eq_dividend[of "sb_size B + BPB - 1" BPB] by linarith
  moreover have "(k + 1) * BPB = b + BPB" using k(1) by simp
  ultimately have "b < sb_size B" using BPB_pos(1) by linarith
  then show ?thesis using k(1) by simp
qed

section \<open>A consistent file system\<close>

text \<open>Blocks that are not for files: the boot block, the log, the bitmap and the inodes.\<close>

definition meta_block :: "'a fs_scheme \<Rightarrow> nat \<Rightarrow> bool" where
  "meta_block s x \<longleftrightarrow> x = 0 \<or> x \<in> log_area (l_start s) \<or> (\<exists>b < sb_size (sb s). x = BBLOCK b (sb s)) \<or>
     (\<exists>i < sb_ninodes (sb s). x = IBLOCK i (sb s))"

definition fs_ok :: "'a fs_scheme \<Rightarrow> bool" where
  "fs_ok s \<longleftrightarrow> sb_size (sb s) < 2 ^ 32 \<and>
     (\<forall>b < sb_size (sb s). BBLOCK b (sb s) < sb_size (sb s) \<and> loggable s (BBLOCK b (sb s))) \<and>
     (\<forall>i < sb_ninodes (sb s). loggable s (IBLOCK i (sb s)) \<and> (\<forall>b < sb_size (sb s). IBLOCK i (sb s) \<noteq> BBLOCK b (sb s))) \<and>
     (\<forall>x < sb_size (sb s). meta_block s x \<longrightarrow> used (sb s) (view s) x)"

definition data_block :: "'a fs_scheme \<Rightarrow> nat \<Rightarrow> bool" where
  "data_block s x \<longleftrightarrow> x < sb_size (sb s) \<and> used (sb s) (view s) x \<and> \<not> meta_block s x"

definition free_blocks :: "'a fs_scheme \<Rightarrow> nat set" where
  "free_blocks s = {x. x < sb_size (sb s) \<and> \<not> used (sb s) (view s) x}"

lemma free_blockD:
  assumes "fs_ok s" "x \<in> free_blocks s"
  shows "x < sb_size (sb s)" "\<not> meta_block s x" "loggable s x" "x \<noteq> 0" "b < sb_size (sb s) \<Longrightarrow> BBLOCK b (sb s) \<noteq> x"
proof -
  show x: "x < sb_size (sb s)" "\<not> meta_block s x" using assms by (auto simp: fs_ok_def free_blocks_def)
  then show "x \<noteq> 0" "loggable s x" "b < sb_size (sb s) \<Longrightarrow> BBLOCK b (sb s) \<noteq> x"
    using assms(1) by (auto simp: meta_block_def loggable_def fs_ok_def)
qed

lemma data_blockD:
  assumes "fs_ok s" "data_block s x"
  shows "x < sb_size (sb s)" "loggable s x" "x \<noteq> 0" "b < sb_size (sb s) \<Longrightarrow> BBLOCK b (sb s) \<noteq> x"
    "i < sb_ninodes (sb s) \<Longrightarrow> IBLOCK i (sb s) \<noteq> x"
  using assms by (auto simp: data_block_def meta_block_def loggable_def fs_ok_def)

text \<open>The state after a block was taken from the bitmap.\<close>

lemma used_alloc:
  assumes "fs_ok s" "x \<in> free_blocks s" "y < sb_size (sb s)" "\<And>b. length (view s b) = BSIZE"
  shows "used (sb s) (alloc_block (sb s) x (view s)) y \<longleftrightarrow> y = x \<or> used (sb s) (view s) y"
proof -
  let ?B = "sb s" and ?V = "view s"
  have n: "BBLOCK y ?B \<noteq> x" using free_blockD(5)[OF assms(1,2,3)] .
  have len: "x mod BPB < 8 * length (?V (BBLOCK x ?B))" "y mod BPB < 8 * length (?V (BBLOCK x ?B))"
    using BPB_pos by (simp_all add: assms(4))
  show ?thesis
  proof (cases "BBLOCK y ?B = BBLOCK x ?B")
    case True
    then have "y div BPB = x div BPB" by (simp add: BBLOCK_def)
    then have "y mod BPB = x mod BPB \<longleftrightarrow> y = x" by (metis div_mult_mod_eq)
    then show ?thesis
      using n True bit_used_mark(1)[OF len] by (simp add: used_def alloc_block_def mark_block_def)
  next
    case False
    then have "y \<noteq> x" by auto
    then show ?thesis using n False by (simp add: used_def alloc_block_def mark_block_def)
  qed
qed

lemma balloc_law:
  fixes s :: "'a fs_scheme"
  assumes "tx_ok D H (Suc (Suc k)) s" "fs_ok s" "card (dom H) \<le> 2"
    "\<And>b. b \<in> dom H \<union> D \<Longrightarrow> data_block s b"
  shows "\<exists>s'. balloc ROOTDEV s = Ok (case find (\<lambda>x. \<not> used (sb s) (view s) x) [0..<sb_size (sb s)] of None \<Rightarrow> 0 | Some x \<Rightarrow> x) s' \<and>
    tx_ok D H k s' \<and> tx_frame s s' \<and>
    view s' = (case find (\<lambda>x. \<not> used (sb s) (view s) x) [0..<sb_size (sb s)] of
      None \<Rightarrow> view s | Some x \<Rightarrow> alloc_block (sb s) x (view s))"
  unfolding balloc_def covered_starts[symmetric]
proof (rule balloc_from_law[OF assms(1,3)])
  fix b assume "b \<in> set (bitmap_starts (sb s))"
  then have b: "BPB dvd b" "b < sb_size (sb s)" using bitmap_starts_dvd by auto
  have "BBLOCK b (sb s) \<notin> dom H \<union> D" using assms(4) data_blockD(4)[OF assms(2) _ b(2)] by metis
  then show "BPB dvd b \<and> H (BBLOCK b (sb s)) = None \<and> BBLOCK b (sb s) \<notin> D \<and> loggable s (BBLOCK b (sb s))"
    using b assms(2) by (auto simp: fs_ok_def)
next
  fix x assume x: "\<not> used (sb s) (view s) x" "x < sb_size (sb s)"
  then have "x \<notin> dom H \<union> D" using assms(4)[of x] by (auto simp: data_block_def)
  moreover have "loggable s x" using free_blockD(3)[OF assms(2), of x] x by (simp add: free_blocks_def)
  ultimately show "H x = None \<and> x \<notin> D \<and> loggable s x" by auto
qed

text \<open>
  What a change of the view within a transaction means for the file system: the super block and the place of the
  log stay, so everything is decided by which blocks are marked.
\<close>

lemma frame_meta:
  fixes s :: "'a fs_scheme"
  assumes "tx_frame s t"
  shows "meta_block t x = meta_block s x" "loggable t x = loggable s x" "sb t = sb s"
proof -
  have "l_start t = l_start s" using assms by (simp add: tx_frame_def log_frame_def)
  then show "meta_block t x = meta_block s x" "loggable t x = loggable s x" "sb t = sb s"
    using tx_frame_fs(1)[OF assms] by (simp_all add: meta_block_def loggable_def)
qed

lemma fs_ok_frame:
  fixes s :: "'a fs_scheme"
  assumes "tx_frame s t" "fs_ok s" "\<And>x. x < sb_size (sb s) \<Longrightarrow> meta_block s x \<Longrightarrow> used (sb s) (view t) x"
  shows "fs_ok t"
  using assms(2,3) unfolding fs_ok_def frame_meta[OF assms(1)] by blast

lemma find_lowest:
  assumes "{x. x < n \<and> P x} \<noteq> {}"
  shows "\<exists>x. find P [0..<n] = Some x \<and> x < n \<and> P x \<and> (\<forall>y<n. P y \<longrightarrow> x \<le> y)"
proof -
  obtain x where x: "find P [0..<n] = Some x" using assms by (cases "find P [0..<n]") (auto simp: find_None_iff)
  then obtain i where i: "i < n" "x = i" "P x" "\<forall>j<i. \<not> P j" by (auto simp: find_Some_iff)
  then have "x \<le> y" if "y < n" "P y" for y using that by (metis not_le)
  then show ?thesis using x i by blast
qed

lemma balloc_takes:
  fixes s :: "'a fs_scheme"
  assumes "tx_ok D H (Suc (Suc k)) s" "fs_ok s" "card (dom H) \<le> 2" "\<And>b. b \<in> dom H \<union> D \<Longrightarrow> data_block s b"
    "free_blocks s \<noteq> {}"
  shows "\<exists>x s'. balloc ROOTDEV s = Ok x s' \<and> x \<in> free_blocks s \<and> (\<forall>y\<in>free_blocks s. x \<le> y) \<and>
    tx_ok D H k s' \<and> tx_frame s s' \<and> fs_ok s' \<and> free_blocks s' = free_blocks s - {x} \<and>
    data_block s' x \<and> view s' x = replicate BSIZE 0 \<and>
    (\<forall>y. data_block s y \<longrightarrow> data_block s' y \<and> view s' y = view s y) \<and>
    (\<forall>y. y \<noteq> x \<longrightarrow> (\<forall>b < sb_size (sb s). y \<noteq> BBLOCK b (sb s)) \<longrightarrow> view s' y = view s y)"
proof -
  let ?B = "sb s" and ?V = "view s"
  obtain x where x: "find (\<lambda>x. \<not> used ?B ?V x) [0..<sb_size ?B] = Some x" "x \<in> free_blocks s"
    "\<forall>y\<in>free_blocks s. x \<le> y"
    using find_lowest[of "sb_size ?B" "\<lambda>x. \<not> used ?B ?V x"] assms(5) by (auto simp: free_blocks_def)
  obtain s' where s': "balloc ROOTDEV s = Ok x s'" "tx_ok D H k s'" "tx_frame s s'" "view s' = alloc_block ?B x ?V"
    using balloc_law[OF assms(1-4)] x(1) by auto
  note fx = free_blockD[OF assms(2) x(2)] and fr = frame_meta[OF s'(3)]
  have u: "used ?B (view s') y \<longleftrightarrow> y = x \<or> used ?B ?V y" if "y < sb_size ?B" for y
    unfolding s'(4) by (rule used_alloc[OF assms(2) x(2) that tx.len[OF assms(1)]])
  have ok: "fs_ok s'"
    by (rule fs_ok_frame[OF s'(3) assms(2)]) (use assms(2) u in \<open>auto simp: fs_ok_def\<close>)
  have "free_blocks s' = free_blocks s - {x}" using u unfolding free_blocks_def fr by auto
  moreover have dx: "data_block s' x" using u fx(1,2) unfolding data_block_def fr by simp
  moreover have vx: "view s' x = replicate BSIZE 0" by (simp add: s'(4) alloc_block_def)
  moreover have vy: "view s' y = ?V y" if "y \<noteq> x" "\<forall>b < sb_size ?B. y \<noteq> BBLOCK b ?B" for y
    using that fx(1) by (simp add: s'(4) alloc_block_def mark_block_def)
  moreover have "data_block s' y \<and> view s' y = ?V y" if y: "data_block s y" for y
  proof -
    have "y \<noteq> x" using y x(2) by (auto simp: data_block_def free_blocks_def)
    then show ?thesis
      using vy[of y] u data_blockD(4)[OF assms(2) y] y unfolding data_block_def fr by auto
  qed
  ultimately show ?thesis using s'(1,2,3) x(2,3) ok by blast
qed

lemma bfree_gives_back:
  fixes s :: "'a fs_scheme"
  assumes "tx_ok D H (Suc k) s" "fs_ok s" "card (dom H) \<le> 2" "\<And>b. b \<in> dom H \<union> D \<Longrightarrow> data_block s b" "data_block s x"
  shows "\<exists>s'. bfree ROOTDEV x s = Ok () s' \<and> tx_ok D H k s' \<and> tx_frame s s' \<and> fs_ok s' \<and>
    free_blocks s' = insert x (free_blocks s) \<and> (\<forall>y. data_block s y \<longrightarrow> view s' y = view s y) \<and>
    (\<forall>y. data_block s y \<longrightarrow> y \<noteq> x \<longrightarrow> data_block s' y)"
proof -
  let ?B = "sb s" and ?V = "view s"
  let ?bm = "BBLOCK x ?B"
  have x: "x < sb_size ?B" "used ?B ?V x" "\<not> meta_block s x" using assms(5) by (auto simp: data_block_def)
  have "?bm \<notin> dom H \<union> D" using assms(4) data_blockD(4)[OF assms(2) _ x(1)] by metis
  then have b: "H ?bm = None" "?bm \<notin> D" by auto
  have lg: "loggable s ?bm" using assms(2) x(1) by (simp add: fs_ok_def)
  have len: "length (mark_free (?V ?bm) (x mod BPB)) = BSIZE" using tx.len[OF assms(1)] by simp
  obtain i s1 s2 s3 where s: "bread ROOTDEV ?bm s = Ok i s1" "bdata i s1 = ?V ?bm" "tx_frame s s1"
    "log_write i (set_bdata i (mark_free (?V ?bm) (x mod BPB)) s1) = Ok () s2" "brelse i s2 = Ok () s3"
    "tx_ok D H k s3" "view s3 = ?V(?bm := mark_free (?V ?bm) (x mod BPB))" "tx_frame s s3"
    using tx.update_block[OF assms(1) b(1) assms(3) b(2) lg, of "\<lambda>d. mark_free d (x mod BPB)"] len by blast
  note fr = frame_meta[OF s(8)]
  have bu: "bit_used (?V ?bm) (x mod BPB)" using x(2) by (simp add: used_def)
  have e: "bfree ROOTDEV x s = Ok () s3"
    using s(1,4,5) s(2)[unfolded bdata_def] bu tx_frame_fs(1)[OF s(3)] by (simp add: bfree_def Let_def)
  have u: "used ?B (view s3) y \<longleftrightarrow> y \<noteq> x \<and> used ?B ?V y" if "y < sb_size ?B" for y
  proof (cases "BBLOCK y ?B = ?bm")
    case True
    then have "y div BPB = x div BPB" by (simp add: BBLOCK_def)
    then have "y mod BPB = x mod BPB \<longleftrightarrow> y = x" by (metis div_mult_mod_eq)
    moreover have "x mod BPB < 8 * length (?V ?bm)" "y mod BPB < 8 * length (?V ?bm)"
      using BPB_pos tx.len[OF assms(1)] by simp_all
    ultimately show ?thesis using True bit_used_mark(2)[of "x mod BPB" "?V ?bm" "y mod BPB"] by (simp add: used_def s(7))
  next
    case False
    then have "y \<noteq> x" by auto
    then show ?thesis using False by (simp add: used_def s(7))
  qed
  have ok: "fs_ok s3"
    by (rule fs_ok_frame[OF s(8) assms(2)]) (use assms(2) u x(3) in \<open>auto simp: fs_ok_def\<close>)
  have "free_blocks s3 = insert x (free_blocks s)" using u x unfolding free_blocks_def fr by auto
  moreover have "view s3 y = ?V y" if "data_block s y" for y
    using data_blockD(4)[OF assms(2) that x(1)] by (auto simp: s(7))
  moreover have "data_block s3 y" if "data_block s y" "y \<noteq> x" for y
    using that u unfolding data_block_def fr by auto
  ultimately show ?thesis using e s(6,8) ok by blast
qed

section \<open>Changing one inode in memory\<close>

lemma itable_upd [simp]:
  fixes s :: "'a fs_scheme"
  shows "view (s\<lparr>itable := Y\<rparr>) = view s" "tx_ok D H k (s\<lparr>itable := Y\<rparr>) = tx_ok D H k s"
    "loggable (s\<lparr>itable := Y\<rparr>) = loggable s" "meta_block (s\<lparr>itable := Y\<rparr>) = meta_block s"
    "fs_ok (s\<lparr>itable := Y\<rparr>) = fs_ok s" "data_block (s\<lparr>itable := Y\<rparr>) = data_block s"
    "free_blocks (s\<lparr>itable := Y\<rparr>) = free_blocks s"
  by (simp_all add: view_def tx_ok_def log_ok_def log_wf_def log_pins_def log_room_def bio_ok_def myproc_def
      loggable_def meta_block_def fs_ok_def data_block_def free_blocks_def fun_eq_iff)

lemma tx_frame_itable:
  fixes s :: "'a fs_scheme"
  assumes "tx_frame s t"
  shows "tx_frame (s\<lparr>itable := Y\<rparr>) (t\<lparr>itable := Y\<rparr>)"
proof -
  have "logging.more (t\<lparr>itable := Y\<rparr>) = logging.more (s\<lparr>itable := Y\<rparr>)"
    using tx_frame_fs(1,3)[OF assms] by (cases s; cases t; simp)
  then show ?thesis using assms by (simp add: tx_frame_def log_frame_def base_rest_def)
qed

text \<open>Only the buffer cache, the log and the in-memory inode \<open>ip\<close> differ.\<close>

definition ino_frame :: "nat \<Rightarrow> 'a fs_scheme \<Rightarrow> 'a fs_scheme \<Rightarrow> bool" where
  "ino_frame ip s t \<longleftrightarrow> (\<exists>I. tx_frame (s\<lparr>itable := (itable s)[ip := I]\<rparr>) t)"

lemma tx_ino_frame: 
  fixes s :: "'a fs_scheme"
  assumes "tx_frame s t"
  shows "ino_frame ip s t"
  using assms by (auto simp: ino_frame_def intro!: exI[of _ "itable s ! ip"])

lemma ino_frame_upd: "ino_frame ip s (upd_ino ip f s)"
  unfolding ino_frame_def upd_ino_def by (rule exI[of _ "f (itable s ! ip)"]) simp

lemma ino_frame_trans [trans]:
  fixes s :: "'a fs_scheme"
  assumes "ino_frame ip s t" "ino_frame ip t u"
  shows "ino_frame ip s u"
proof -
  obtain I J where f: "tx_frame (s\<lparr>itable := (itable s)[ip := I]\<rparr>) t" "tx_frame (t\<lparr>itable := (itable t)[ip := J]\<rparr>) u"
    using assms by (auto simp: ino_frame_def)
  have it: "(itable t)[ip := J] = (itable s)[ip := J]" using tx_frame_fs(2)[OF f(1)] by simp
  have "tx_frame (s\<lparr>itable := (itable s)[ip := J]\<rparr>) (t\<lparr>itable := (itable t)[ip := J]\<rparr>)"
    using tx_frame_itable[OF f(1), of "(itable t)[ip := J]"] it by simp
  then show ?thesis using tx_frame_trans[OF _ f(2)] by (auto simp: ino_frame_def)
qed

lemma ino_frameD:
  fixes s :: "'a fs_scheme"
  assumes "ino_frame ip s t"
  shows "sb t = sb s" "length (itable t) = length (itable s)" "j \<noteq> ip \<Longrightarrow> ino j t = ino j s"
    "meta_block t = meta_block s" "loggable t = loggable s"
proof -
  obtain I where f: "tx_frame (s\<lparr>itable := (itable s)[ip := I]\<rparr>) t" using assms by (auto simp: ino_frame_def)
  show "sb t = sb s" "length (itable t) = length (itable s)" "j \<noteq> ip \<Longrightarrow> ino j t = ino j s"
    using tx_frame_fs(1,2)[OF f] by (simp_all add: ino_def)
  show "meta_block t = meta_block s" "loggable t = loggable s" using frame_meta(1,2)[OF f] by (simp_all add: fun_eq_iff)
qed

section \<open>The blocks of a file\<close>

text \<open>The disk block with block \<open>k\<close> of a file, or 0; \<open>A\<close> are the 12 direct and the indirect address.\<close>

definition blk :: "(nat \<Rightarrow> byte list) \<Rightarrow> nat list \<Rightarrow> nat \<Rightarrow> nat" where
  "blk V A k = (if k < NDIRECT then A ! k else if A ! NDIRECT = 0 then 0
     else unat (get32 (4 * (k - NDIRECT)) (V (A ! NDIRECT))))"

text \<open>
  The blocks of a file are marked, are not metadata, and each is used for one purpose only.
\<close>

definition file_ok :: "'a fs_scheme \<Rightarrow> nat list \<Rightarrow> bool" where
  "file_ok s A \<longleftrightarrow> length A = NDIRECT + 1 \<and>
     (A ! NDIRECT \<noteq> 0 \<longrightarrow> data_block s (A ! NDIRECT)) \<and>
     (\<forall>i<MAXFILE. blk (view s) A i \<noteq> 0 \<longrightarrow> data_block s (blk (view s) A i) \<and> blk (view s) A i \<noteq> A ! NDIRECT \<and>
        (\<forall>j<MAXFILE. blk (view s) A j = blk (view s) A i \<longrightarrow> j = i))"

lemma file_okD:
  assumes "file_ok s A"
  shows "length A = NDIRECT + 1" "A ! NDIRECT \<noteq> 0 \<Longrightarrow> data_block s (A ! NDIRECT)"
    "i < MAXFILE \<Longrightarrow> blk (view s) A i \<noteq> 0 \<Longrightarrow> data_block s (blk (view s) A i)"
    "i < MAXFILE \<Longrightarrow> blk (view s) A i \<noteq> 0 \<Longrightarrow> blk (view s) A i \<noteq> A ! NDIRECT"
    "i < MAXFILE \<Longrightarrow> j < MAXFILE \<Longrightarrow> blk (view s) A i \<noteq> 0 \<Longrightarrow> blk (view s) A j = blk (view s) A i \<Longrightarrow> j = i"
  using assms by (auto simp: file_ok_def)

lemma sizes_file: "NDIRECT < MAXFILE" "MAXFILE = NDIRECT + NINDIRECT" "4 * NINDIRECT = BSIZE"
  by (simp_all add: MAXFILE_def NDIRECT_def NINDIRECT_def BSIZE_def)

text \<open>Adding a block that was free keeps a file in order.\<close>

lemma file_ok_add:
  assumes "file_ok s A" "length A' = NDIRECT + 1"
    and old: "\<And>y. data_block s y \<Longrightarrow> data_block t y"
    and new: "x \<in> free_blocks s" "x \<noteq> 0" "data_block t x"
    and ind: "A' ! NDIRECT = A ! NDIRECT \<or> A' ! NDIRECT = x"
    and blks: "\<And>j. j < MAXFILE \<Longrightarrow> blk (view t) A' j = blk (view s) A j \<or> j = bn \<and> blk (view t) A' j = x \<and> A' ! NDIRECT \<noteq> x"
  shows "file_ok t A'"
proof -
  have nx: "y \<noteq> x" if "data_block s y" for y using that new(1) by (auto simp: data_block_def free_blocks_def)
  have blkx: "blk (view s) A j \<noteq> x" if "j < MAXFILE" for j
    using nx file_okD(3)[OF assms(1) that] new(2) by metis
  have indx: "A ! NDIRECT \<noteq> x" using nx file_okD(2)[OF assms(1)] new(2) by metis
  have "data_block t (A' ! NDIRECT)" if "A' ! NDIRECT \<noteq> 0"
    using ind that new(3) old file_okD(2)[OF assms(1)] by metis
  moreover have "data_block t (blk (view t) A' i) \<and> blk (view t) A' i \<noteq> A' ! NDIRECT \<and>
        (\<forall>j<MAXFILE. blk (view t) A' j = blk (view t) A' i \<longrightarrow> j = i)"
    if i: "i < MAXFILE" "blk (view t) A' i \<noteq> 0" for i
  proof (cases "blk (view t) A' i = x")
    case True
    then have "i = bn" "A' ! NDIRECT \<noteq> x" using blks[OF i(1)] blkx[OF i(1)] by auto
    moreover have "j = i" if "j < MAXFILE" "blk (view t) A' j = x" for j
      using blks[OF that(1)] blkx[OF that(1)] that(2) \<open>i = bn\<close> by auto
    ultimately show ?thesis using True new(3) by auto
  next
    case False
    then have b: "blk (view t) A' i = blk (view s) A i" using blks[OF i(1)] by auto
    then have "blk (view t) A' i \<noteq> A' ! NDIRECT"
      using ind file_okD(4)[OF assms(1) i(1)] i(2) False by metis
    moreover have "j = i" if "j < MAXFILE" "blk (view t) A' j = blk (view t) A' i" for j
      using blks[OF that(1)] that(2) False b file_okD(5)[OF assms(1) i(1) that(1)] i(2) by metis
    ultimately show ?thesis using b old file_okD(3)[OF assms(1) i(1)] i(2) by metis
  qed
  ultimately show ?thesis using assms(2) by (simp add: file_ok_def)
qed

text \<open>
  The effect of mapping blocks of file \<open>ip\<close>: at most \<open>n\<close> free blocks were taken, and only the bitmap, new blocks and
  the file's indirect block changed.
\<close>

definition grown :: "nat \<Rightarrow> nat \<Rightarrow> 'a fs_scheme \<Rightarrow> 'a fs_scheme \<Rightarrow> bool" where
  "grown ip n s t \<longleftrightarrow> ino_frame ip s t \<and> fs_ok t \<and> file_ok t (i_addrs (ino ip t)) \<and>
     ino ip t = (ino ip s)\<lparr>i_addrs := i_addrs (ino ip t)\<rparr> \<and>
     (\<forall>y. data_block s y \<longrightarrow> data_block t y \<and> (y \<noteq> i_addrs (ino ip s) ! NDIRECT \<longrightarrow> view t y = view s y)) \<and>
     (i_addrs (ino ip t) ! NDIRECT = i_addrs (ino ip s) ! NDIRECT \<or> \<not> data_block s (i_addrs (ino ip t) ! NDIRECT)) \<and>
     (\<forall>i < sb_ninodes (sb s). view t (IBLOCK i (sb s)) = view s (IBLOCK i (sb s))) \<and>
     card (free_blocks s) \<le> card (free_blocks t) + n"

lemma grownD:
  assumes "grown ip n s t"
  shows "ino_frame ip s t" "fs_ok t" "file_ok t (i_addrs (ino ip t))" "ino ip t = (ino ip s)\<lparr>i_addrs := i_addrs (ino ip t)\<rparr>"
    "data_block s y \<Longrightarrow> data_block t y" "data_block s y \<Longrightarrow> y \<noteq> i_addrs (ino ip s) ! NDIRECT \<Longrightarrow> view t y = view s y"
    "i_addrs (ino ip t) ! NDIRECT = i_addrs (ino ip s) ! NDIRECT \<or> \<not> data_block s (i_addrs (ino ip t) ! NDIRECT)"
    "i < sb_ninodes (sb s) \<Longrightarrow> view t (IBLOCK i (sb s)) = view s (IBLOCK i (sb s))"
    "card (free_blocks s) \<le> card (free_blocks t) + n" "sb t = sb s"
  using assms ino_frameD(1) by (auto simp: grown_def)

lemma grown_trans:
  assumes "grown ip m s t" "grown ip n t u"
  shows "grown ip (m + n) s u"
proof -
  note g = grownD[OF assms(1)] and h = grownD[OF assms(2)]
  have "ino ip u = (ino ip s)\<lparr>i_addrs := i_addrs (ino ip u)\<rparr>" using h(4) by (subst (asm) g(4)) simp
  moreover have "view u y = view s y" if "data_block s y" "y \<noteq> i_addrs (ino ip s) ! NDIRECT" for y
  proof -
    have "y \<noteq> i_addrs (ino ip t) ! NDIRECT" using g(7) that by auto
    then show ?thesis using h(6)[OF g(5)[OF that(1)]] g(6)[OF that] by simp
  qed
  moreover have "i_addrs (ino ip u) ! NDIRECT = i_addrs (ino ip s) ! NDIRECT \<or> \<not> data_block s (i_addrs (ino ip u) ! NDIRECT)"
    using g(5,7) h(7) by metis
  moreover have "view u (IBLOCK i (sb s)) = view s (IBLOCK i (sb s))" if "i < sb_ninodes (sb s)" for i
    using g(8)[OF that] h(8)[of i] that g(10) by simp
  ultimately show ?thesis
    using ino_frame_trans[OF g(1) h(1)] h(2,3,5,9) g(5,9) unfolding grown_def by auto
qed

lemma grown_frame:
  fixes s :: "'a fs_scheme"
  assumes "tx_frame s t" "view t = view s" "fs_ok s" "file_ok s (i_addrs (ino ip s))"
  shows "grown ip 0 s t"
proof -
  note fr = frame_meta[OF assms(1)] and f = tx_frame_fs[OF assms(1)]
  have d: "data_block t = data_block s" "free_blocks t = free_blocks s"
    by (simp_all add: fun_eq_iff data_block_def free_blocks_def fr assms(2))
  have "fs_ok t" using fs_ok_frame[OF assms(1,3)] assms(2,3) by (auto simp: fs_ok_def)
  moreover have "file_ok t (i_addrs (ino ip t))" using assms(4) by (simp add: file_ok_def d f(4) assms(2))
  ultimately show ?thesis
    using tx_ino_frame[OF assms(1)] by (simp add: grown_def d f(4) assms(2))
qed

lemma get32_zeros: "get32 o2 (replicate n 0) = 0"
proof -
  have "slice o2 4 (replicate n (0 :: byte)) = replicate (min 4 (n - o2)) 0" by (simp add: slice_def)
  then show ?thesis by (simp add: get32_def)
qed

lemma finite_free [simp]: "finite (free_blocks s)"
  by (simp add: free_blocks_def)

lemma grown_add:
  assumes "fs_ok s" "file_ok s (i_addrs (ino ip s))" "ino_frame ip s t" "fs_ok t" "ino ip t = (ino ip s)\<lparr>i_addrs := A'\<rparr>"
    "length A' = NDIRECT + 1" "x \<in> free_blocks s" "data_block t x" "free_blocks t = free_blocks s - {x}"
    "\<And>y. data_block s y \<Longrightarrow> data_block t y \<and> (y \<noteq> i_addrs (ino ip s) ! NDIRECT \<longrightarrow> view t y = view s y)"
    "\<And>i. i < sb_ninodes (sb s) \<Longrightarrow> view t (IBLOCK i (sb s)) = view s (IBLOCK i (sb s))"
    "A' ! NDIRECT = i_addrs (ino ip s) ! NDIRECT \<or> A' ! NDIRECT = x"
    "\<And>j. j < MAXFILE \<Longrightarrow> blk (view t) A' j = blk (view s) (i_addrs (ino ip s)) j \<or>
      j = bn \<and> blk (view t) A' j = x \<and> A' ! NDIRECT \<noteq> x"
  shows "grown ip 1 s t"
proof -
  have "file_ok t A'"
    by (rule file_ok_add[OF assms(2,6) _ assms(7) free_blockD(4)[OF assms(1,7)] assms(8,12,13)]) (use assms(10) in auto)
  moreover have "\<not> data_block s x" using assms(7) by (simp add: free_blocks_def data_block_def)
  moreover have "card (free_blocks s) \<le> card (free_blocks t) + 1"
    using assms(7,9) card_Suc_Diff1[OF finite_free assms(7)] by simp
  ultimately show ?thesis using assms(3,4,5,10,11,12) unfolding grown_def by auto
qed

text \<open>A new address in slot \<open>m\<close> of the inode.\<close>

lemma blk_slot:
  assumes "file_ok s A" "m \<le> NDIRECT" "A ! m = 0" "V x = replicate BSIZE 0"
    "\<And>y. data_block s y \<Longrightarrow> V y = view s y" "j < MAXFILE"
  shows "blk V (A[m := x]) j = (if j = m \<and> m \<noteq> NDIRECT then x else blk (view s) A j)"
proof (cases "m = NDIRECT")
  case True
  then show ?thesis using assms(3,4) file_okD(1)[OF assms(1)] by (simp add: blk_def get32_zeros)
next
  case False
  then have m: "m < NDIRECT" "A[m := x] ! NDIRECT = A ! NDIRECT" using assms(2) by simp_all
  have "V (A ! NDIRECT) = view s (A ! NDIRECT)" if "A ! NDIRECT \<noteq> 0" using assms(5) file_okD(2)[OF assms(1) that] by simp
  then show ?thesis using m file_okD(1)[OF assms(1)] by (auto simp: blk_def nth_list_update_if)
qed

lemma bmap_slot_law:
  fixes s :: "'a fs_scheme"
  assumes "tx_ok {} Map.empty (Suc (Suc k)) s" "fs_ok s" "i_dev (ino ip s) = ROOTDEV" "ip < length (itable s)"
    "file_ok s (i_addrs (ino ip s))" "m \<le> NDIRECT" "free_blocks s \<noteq> {}"
  shows "\<exists>a t. bmap_slot ip m s = Ok a t \<and> a \<noteq> 0 \<and> tx_ok {} Map.empty k t \<and> grown ip 1 s t \<and> i_addrs (ino ip t) ! m = a \<and>
    (\<forall>j<MAXFILE. j \<noteq> m \<or> m = NDIRECT \<longrightarrow> blk (view t) (i_addrs (ino ip t)) j = blk (view s) (i_addrs (ino ip s)) j) \<and>
    (i_addrs (ino ip s) ! m = 0 \<longrightarrow> view t a = replicate BSIZE 0) \<and> (i_addrs (ino ip s) ! m = 0 \<longrightarrow> \<not> data_block s a) \<and>
    (i_addrs (ino ip s) ! m \<noteq> 0 \<longrightarrow> a = i_addrs (ino ip s) ! m)"
proof (cases "i_addrs (ino ip s) ! m = 0")
  case False
  have "grown ip 1 s s" using grown_frame[of s s ip] assms(2,5) by (simp add: grown_def)
  then show ?thesis
    using False tx_ok_less[OF assms(1), of k] by (intro exI[of _ "i_addrs (ino ip s) ! m"] exI[of _ s]) (simp add: bmap_slot_def)
next
  case True
  let ?A = "i_addrs (ino ip s)"
  obtain x s1 where s1: "balloc ROOTDEV s = Ok x s1" "x \<in> free_blocks s" "tx_ok {} Map.empty k s1" "tx_frame s s1" "fs_ok s1"
    "free_blocks s1 = free_blocks s - {x}" "data_block s1 x" "view s1 x = replicate BSIZE 0"
    "\<forall>y. data_block s y \<longrightarrow> data_block s1 y \<and> view s1 y = view s y"
    "\<forall>y. y \<noteq> x \<longrightarrow> (\<forall>b < sb_size (sb s). y \<noteq> BBLOCK b (sb s)) \<longrightarrow> view s1 y = view s y"
    using balloc_takes[OF assms(1,2) _ _ assms(7)] by auto
  note f = tx_frame_fs[OF s1(4)] and fx = free_blockD[OF assms(2) s1(2)]
  let ?t = "upd_ino ip (\<lambda>i. i\<lparr>i_addrs := (i_addrs i)[m := x]\<rparr>) s1"
  have ino: "ino ip ?t = (ino ip s)\<lparr>i_addrs := ?A[m := x]\<rparr>"
    using assms(4) f(2) by (simp add: upd_ino_def ino_def)
  have vt: "view ?t = view s1" "tx_ok {} Map.empty k ?t" "fs_ok ?t" "free_blocks ?t = free_blocks s1" "data_block ?t = data_block s1"
    using s1(3,5) by (simp_all add: upd_ino_def)
  have m: "m < length ?A" using assms(6) file_okD(1)[OF assms(5)] by simp
  have bl: "blk (view ?t) (?A[m := x]) j = (if j = m \<and> m \<noteq> NDIRECT then x else blk (view s) ?A j)" if "j < MAXFILE" for j
    unfolding vt by (rule blk_slot[where V = "view s1" and x = x, OF assms(5,6) True s1(8) _ that]) (use s1(9) in auto)
  have ib: "view ?t (IBLOCK i (sb s)) = view s (IBLOCK i (sb s))" if "i < sb_ninodes (sb s)" for i
  proof -
    have "IBLOCK i (sb s) \<noteq> x" "\<forall>b < sb_size (sb s). IBLOCK i (sb s) \<noteq> BBLOCK b (sb s)"
      using fx(2) that assms(2) by (auto simp: meta_block_def fs_ok_def)
    then show ?thesis using s1(10) vt(1) by simp
  qed
  have fr: "ino_frame ip s ?t" using ino_frame_trans[OF tx_ino_frame[OF s1(4)] ino_frame_upd] .
  have "grown ip 1 s ?t"
  proof (rule grown_add[where bn = m, OF assms(2,5) fr vt(3) ino _ s1(2)], goal_cases)
    case 1 show ?case using file_okD(1)[OF assms(5)] by simp
  next
    case 2 show ?case using s1(7) vt by simp
  next
    case 3 show ?case using s1(6) vt by simp
  next
    case (4 y) then show ?case using s1(9) vt by auto
  next
    case (5 i) then show ?case using ib by simp
  next
    case 6 show ?case using m assms(6) by (cases "m = NDIRECT") simp_all
  next
    case (7 j)
    have "?A ! NDIRECT \<noteq> x"
      using file_okD(2)[OF assms(5)] s1(2) fx(4) by (auto simp: data_block_def free_blocks_def)
    then have "m \<noteq> NDIRECT \<Longrightarrow> ?A[m := x] ! NDIRECT \<noteq> x" by simp
    then show ?case using bl[OF 7] by auto
  qed
  moreover have "bmap_slot ip m s = Ok x ?t" using True s1(1) assms(3) fx(4) by (simp add: bmap_slot_def)
  moreover have "\<forall>j<MAXFILE. j \<noteq> m \<or> m = NDIRECT \<longrightarrow> blk (view ?t) (i_addrs (ino ip ?t)) j = blk (view s) ?A j"
    using bl by (simp add: ino)
  moreover have "i_addrs (ino ip ?t) ! m = x" using ino m by simp
  moreover have "\<not> data_block s x" using s1(2) by (simp add: free_blocks_def data_block_def)
  ultimately show ?thesis using vt(1,2) s1(8) fx(4) True by (intro exI[of _ x] exI[of _ ?t]) simp
qed

lemma tx_held: "tx_ok D H k s \<Longrightarrow> H bn = Some i \<Longrightarrow> b_data (bufs s i) = view s bn"
  using held_buf(7)[of "log_pins s" H s bn i] by (simp add: tx_ok_def log_ok_def)

text \<open>A new entry in the indirect block.\<close>

lemma bmap_entry_law:
  fixes s :: "'a fs_scheme" and ip :: nat
  defines "A \<equiv> i_addrs (ino ip s)"
  assumes "tx_ok {} Map.empty (Suc (Suc (Suc k))) s" "fs_ok s" "i_dev (ino ip s) = ROOTDEV"
    "file_ok s A" "A ! NDIRECT \<noteq> 0" "e < NINDIRECT" "free_blocks s \<noteq> {}"
    "blk (view s) A (NDIRECT + e) = 0" "bread ROOTDEV (A ! NDIRECT) s = Ok i s1"
    "tx_ok {} [A ! NDIRECT \<mapsto> i] (Suc (Suc (Suc k))) s1" "view s1 = view s" "tx_frame s s1"
  shows "\<exists>x s2 s3 t. balloc ROOTDEV s1 = Ok x s2 \<and> x \<noteq> 0 \<and>
    log_write i (set_bdata i (put32 (4 * e) (of_nat x) (b_data (bufs s2 i))) s2) = Ok () s3 \<and> brelse i s3 = Ok () t \<and>
    tx_ok {} Map.empty k t \<and> grown ip 1 s t \<and> i_addrs (ino ip t) = A \<and> blk (view t) A (NDIRECT + e) = x \<and>
    (\<forall>j<MAXFILE. j \<noteq> NDIRECT + e \<longrightarrow> blk (view t) A j = blk (view s) A j) \<and> view t x = replicate BSIZE 0 \<and>
    \<not> data_block s x"
proof -
  let ?d = "A ! NDIRECT"
  note f1 = tx_frame_fs[OF assms(13)] and m1 = frame_meta[OF assms(13)]
  have eq1: "free_blocks s1 = free_blocks s" "data_block s1 = data_block s"
    by (simp_all add: free_blocks_def data_block_def m1 assms(12) fun_eq_iff)
  have ok1: "fs_ok s1" using fs_ok_frame[OF assms(13,3)] assms(3,12) by (auto simp: fs_ok_def)
  have d: "data_block s ?d" by (rule file_okD(2)[OF assms(5,6)])
  obtain x s2 where s2: "balloc ROOTDEV s1 = Ok x s2" "x \<in> free_blocks s" "tx_ok {} [?d \<mapsto> i] (Suc k) s2" "tx_frame s1 s2"
    "fs_ok s2" "free_blocks s2 = free_blocks s - {x}" "data_block s2 x" "view s2 x = replicate BSIZE 0"
    "\<forall>y. data_block s y \<longrightarrow> data_block s2 y \<and> view s2 y = view s y"
    "\<forall>y. y \<noteq> x \<longrightarrow> (\<forall>b < sb_size (sb s). y \<noteq> BBLOCK b (sb s)) \<longrightarrow> view s2 y = view s y"
    using balloc_takes[OF assms(11) ok1] d assms(8,12) unfolding eq1 f1(1) by auto
  have f2: "tx_frame s s2" using tx_frame_trans[OF assms(13) s2(4)] .
  note fx = free_blockD[OF assms(3) s2(2)]
  have dx: "?d \<noteq> x" using d s2(2) by (auto simp: data_block_def free_blocks_def)
  have bd: "b_data (bufs s2 i) = view s ?d" using tx_held[OF s2(3), of ?d i] s2(9) d by simp
  let ?n = "put32 (4 * e) (of_nat x) (view s ?d)"
  have len: "length (view s ?d) = BSIZE" by (rule tx.len[OF assms(2)])
  have e4: "4 * e + 4 \<le> length (view s ?d)" using assms(7) sizes_file(3) len by linarith
  have lg: "loggable s2 ?d" using data_blockD(2)[OF assms(3) d] tx_frame_loggable[OF f2] by simp
  obtain s3 t where t: "log_write i (set_bdata i ?n s2) = Ok () s3" "brelse i s3 = Ok () t"
    "tx_ok {} Map.empty k t" "view t = (view s2)(?d := ?n)" "tx_frame s2 t"
    using tx.put_log_rel[OF s2(3) _ _ lg, of i ?n] e4 len by auto
  have ft: "tx_frame s t" using tx_frame_trans[OF f2 t(5)] .
  note mt = frame_meta[OF t(5)] and fst = tx_frame_fs[OF ft] and mst = frame_meta[OF ft] and m2 = frame_meta[OF f2]
  have nb: "BBLOCK b (sb s) \<noteq> ?d" if "b < sb_size (sb s)" for b by (rule data_blockD(4)[OF assms(3) d that])
  have u: "used (sb s) (view t) y = used (sb s) (view s2) y" if "y < sb_size (sb s)" for y
    using nb[OF that] by (simp add: used_def t(4))
  have eqt: "free_blocks t = free_blocks s2" "\<And>y. data_block t y = data_block s2 y"
    using u by (auto simp: free_blocks_def data_block_def mst m2)
  have okt: "fs_ok t" using fs_ok_frame[OF t(5) s2(5)] u s2(5) by (auto simp: fs_ok_def m2(3))
  have ino: "ino ip t = (ino ip s)\<lparr>i_addrs := A\<rparr>" using fst(4) by (simp add: A_def)
  have ux: "unat (of_nat x :: uint) = x"
    using fx(1) assms(3) by (simp add: fs_ok_def unsigned_of_nat take_bit_nat_eq_self)
  have bl: "blk (view t) A j = (if j = NDIRECT + e then x else blk (view s) A j)" if "j < MAXFILE" for j
  proof (cases "j < NDIRECT")
    case False
    then obtain j' where j': "j = NDIRECT + j'" "j' < NINDIRECT" using \<open>j < MAXFILE\<close> sizes_file(2) by (metis add_less_cancel_left le_add_diff_inverse not_less)
    have "4 * j' + 4 \<le> length (view s ?d)" using j'(2) sizes_file(3) len by linarith
    then have "get32 (4 * j') ?n = (if j' = e then of_nat x else get32 (4 * j') (view s ?d))"
      using e4 get32_put32_other[of "4 * e" "view s ?d" "4 * j'" "of_nat x"] by (cases j' e rule: linorder_cases) auto
    then show ?thesis using assms(6) j' ux by (simp add: blk_def t(4))
  qed (simp add: blk_def)
  have ib: "view t (IBLOCK i (sb s)) = view s (IBLOCK i (sb s))" if "i < sb_ninodes (sb s)" for i
  proof -
    have "IBLOCK i (sb s) \<noteq> x" "\<forall>b < sb_size (sb s). IBLOCK i (sb s) \<noteq> BBLOCK b (sb s)" "IBLOCK i (sb s) \<noteq> ?d"
      using fx(2) that assms(3) data_blockD(5)[OF assms(3) d that] by (auto simp: meta_block_def fs_ok_def)
    then show ?thesis using s2(10) t(4) by simp
  qed
  have "grown ip 1 s t"
  proof (rule grown_add[where bn = "NDIRECT + e", OF assms(3) assms(5)[unfolded A_def] tx_ino_frame[OF ft] okt ino _ s2(2)], goal_cases)
    case 1 show ?case by (rule file_okD(1)[OF assms(5)])
  next
    case 2 show ?case using s2(7) eqt by simp
  next
    case 3 show ?case using s2(6) eqt by simp
  next
    case (4 y) then show ?case using s2(9) eqt t(4) by (auto simp: A_def)
  next
    case (5 i) then show ?case by (rule ib)
  next
    case 6 show ?case by (simp add: A_def)
  next
    case (7 j) then show ?case using bl[OF 7] dx by (auto simp: A_def)
  qed
  moreover have "view t x = replicate BSIZE 0" using s2(8) t(4) dx by simp
  moreover have "NDIRECT + e < MAXFILE" using assms(7) sizes_file(2) by simp
  moreover have "\<not> data_block s x" using s2(2) by (simp add: free_blocks_def data_block_def)
  ultimately show ?thesis using s2(1) fx(4) t(1,2,3) bd bl ino
    by (intro exI[of _ x] exI[of _ s2] exI[of _ s3] exI[of _ t]) simp
qed

lemma grown_less: "grown ip m s t \<Longrightarrow> m \<le> n \<Longrightarrow> grown ip n s t"
  by (auto simp: grown_def)

lemma grown_same:
  assumes "grown ip n s t"
  shows "i_dev (ino ip t) = i_dev (ino ip s)" "i_size (ino ip t) = i_size (ino ip s)" "i_inum (ino ip t) = i_inum (ino ip s)"
    "length (itable t) = length (itable s)"
  using arg_cong[OF grownD(4)[OF assms], of i_dev] arg_cong[OF grownD(4)[OF assms], of i_size]
    arg_cong[OF grownD(4)[OF assms], of i_inum] ino_frameD(2)[OF grownD(1)[OF assms]] by simp_all

lemma bmap_indirect_law:
  fixes s :: "'a fs_scheme"
  assumes "tx_ok {} Map.empty (Suc (Suc (Suc k))) s" "fs_ok s" "i_dev (ino ip s) = ROOTDEV"
    "file_ok s (i_addrs (ino ip s))" "i_addrs (ino ip s) ! NDIRECT \<noteq> 0" "e < NINDIRECT" "free_blocks s \<noteq> {}"
  shows "\<exists>a t. bmap_entry ip (i_addrs (ino ip s) ! NDIRECT) e s = Ok a t \<and>
    a \<noteq> 0 \<and> tx_ok {} Map.empty k t \<and> grown ip 1 s t \<and> blk (view t) (i_addrs (ino ip t)) (NDIRECT + e) = a \<and>
    (\<forall>j<MAXFILE. j \<noteq> NDIRECT + e \<longrightarrow> blk (view t) (i_addrs (ino ip t)) j = blk (view s) (i_addrs (ino ip s)) j) \<and>
    (blk (view s) (i_addrs (ino ip s)) (NDIRECT + e) = 0 \<longrightarrow> view t a = replicate BSIZE 0 \<and> \<not> data_block s a) \<and>
    (blk (view s) (i_addrs (ino ip s)) (NDIRECT + e) \<noteq> 0 \<longrightarrow> a = blk (view s) (i_addrs (ino ip s)) (NDIRECT + e))"
proof -
  let ?A = "i_addrs (ino ip s)"
  let ?d = "?A ! NDIRECT" and ?b = "blk (view s) ?A (NDIRECT + e)"
  obtain i s1 where s1: "bread ROOTDEV ?d s = Ok i s1" "tx_ok {} [?d \<mapsto> i] (Suc (Suc (Suc k))) s1" "bdata i s1 = view s ?d"
    "view s1 = view s" "tx_frame s s1"
    using tx.read[OF assms(1), of ?d] by auto
  have b: "?b = unat (get32 (4 * e) (view s ?d))" using assms(5) by (simp add: blk_def)
  have bd: "b_data (bufs s1 i) = view s ?d" using s1(3) by (simp add: bdata_def)
  note f1 = tx_frame_fs[OF s1(5)]
  show ?thesis
  proof (cases "?b = 0")
    case False
    obtain t where t: "brelse i s1 = Ok () t" "tx_ok {} Map.empty (Suc (Suc (Suc k))) t" "view t = view s1" "tx_frame s1 t"
      using tx.rel[OF s1(2), of ?d i] by auto
    have ft: "tx_frame s t" using tx_frame_trans[OF s1(5) t(4)] .
    have v: "view t = view s" using t(3) s1(4) by simp
    have "grown ip 1 s t" using grown_less[OF grown_frame[OF ft v assms(2,4)]] by simp
    then show ?thesis
      using s1(1) t(1) bd False b assms(3) tx_ok_less[OF t(2), of k] tx_frame_fs(4)[OF ft] v
      by (intro exI[of _ ?b] exI[of _ t]) (simp add: Let_def bmap_entry_def)
  next
    case True
    obtain x s2 s3 t where t: "balloc ROOTDEV s1 = Ok x s2" "x \<noteq> 0"
      "log_write i (set_bdata i (put32 (4 * e) (of_nat x) (b_data (bufs s2 i))) s2) = Ok () s3" "brelse i s3 = Ok () t"
      "tx_ok {} Map.empty k t" "grown ip 1 s t" "i_addrs (ino ip t) = ?A" "blk (view t) ?A (NDIRECT + e) = x"
      "\<forall>j<MAXFILE. j \<noteq> NDIRECT + e \<longrightarrow> blk (view t) ?A j = blk (view s) ?A j" "view t x = replicate BSIZE 0"
      "\<not> data_block s x"
      using bmap_entry_law[OF assms(1-7) True s1(1,2,4,5)] by blast
    have z: "get32 (4 * e) (view s ?d) = 0" using True b by (simp add: word_unat_eq_iff)
    show ?thesis
      using s1(1) t bd True z assms(3) f1(4) by (intro exI[of _ x] exI[of _ t]) (simp add: Let_def bmap_entry_def)
  qed
qed

lemma bmap_law:
  fixes s :: "'a fs_scheme"
  assumes "tx_ok {} Map.empty (k + 5) s" "fs_ok s" "i_dev (ino ip s) = ROOTDEV" "ip < length (itable s)"
    "file_ok s (i_addrs (ino ip s))" "bn < MAXFILE" "2 \<le> card (free_blocks s)"
  shows "\<exists>a t. bmap ip bn s = Ok a t \<and> a \<noteq> 0 \<and> tx_ok {} Map.empty k t \<and> grown ip 2 s t \<and>
    blk (view t) (i_addrs (ino ip t)) bn = a \<and>
    (\<forall>j<MAXFILE. j \<noteq> bn \<longrightarrow> blk (view t) (i_addrs (ino ip t)) j = blk (view s) (i_addrs (ino ip s)) j) \<and>
    (blk (view s) (i_addrs (ino ip s)) bn = 0 \<longrightarrow> view t a = replicate BSIZE 0 \<and> \<not> data_block s a) \<and>
    (blk (view s) (i_addrs (ino ip s)) bn \<noteq> 0 \<longrightarrow> a = blk (view s) (i_addrs (ino ip s)) bn)"
proof (cases "bn < NDIRECT")
  case True
  have "tx_ok {} Map.empty (Suc (Suc k)) s" using tx_ok_less[OF assms(1)] by simp
  moreover have "free_blocks s \<noteq> {}" using assms(7) by auto
  ultimately obtain a t where t: "bmap_slot ip bn s = Ok a t" "a \<noteq> 0" "tx_ok {} Map.empty k t" "grown ip 1 s t"
    "i_addrs (ino ip t) ! bn = a"
    "\<forall>j<MAXFILE. j \<noteq> bn \<or> bn = NDIRECT \<longrightarrow> blk (view t) (i_addrs (ino ip t)) j = blk (view s) (i_addrs (ino ip s)) j"
    "i_addrs (ino ip s) ! bn = 0 \<longrightarrow> view t a = replicate BSIZE 0 \<and> \<not> data_block s a" "i_addrs (ino ip s) ! bn \<noteq> 0 \<longrightarrow> a = i_addrs (ino ip s) ! bn"
    using bmap_slot_law[of k s ip bn] assms(2-5) True by auto
  then show ?thesis
    using True grown_less[OF t(4), of 2] by (intro exI[of _ a] exI[of _ t]) (simp add: bmap_def blk_def)
next
  case False
  then obtain e where e: "bn = NDIRECT + e" "e < NINDIRECT"
    using assms(6) sizes_file(2) by (metis add_less_cancel_left le_add_diff_inverse not_less)
  have "tx_ok {} Map.empty (Suc (Suc (k + 3))) s" using tx_ok_less[OF assms(1)] by simp
  moreover have "free_blocks s \<noteq> {}" using assms(7) by auto
  ultimately obtain d s1 where s1: "bmap_slot ip NDIRECT s = Ok d s1" "d \<noteq> 0" "tx_ok {} Map.empty (k + 3) s1" "grown ip 1 s s1"
    "i_addrs (ino ip s1) ! NDIRECT = d"
    "\<forall>j<MAXFILE. blk (view s1) (i_addrs (ino ip s1)) j = blk (view s) (i_addrs (ino ip s)) j"
    using bmap_slot_law[of "k + 3" s ip NDIRECT] assms(2-5) by auto
  note g = grownD[OF s1(4)]
  have "free_blocks s1 \<noteq> {}" using g(9) assms(7) by auto
  moreover have "i_dev (ino ip s1) = ROOTDEV" using grown_same(1)[OF s1(4)] assms(3) by simp
  moreover have "tx_ok {} Map.empty (Suc (Suc (Suc k))) s1" using tx_ok_less[OF s1(3)] by simp
  ultimately obtain a t where t: "bmap_entry ip (i_addrs (ino ip s1) ! NDIRECT) e s1 = Ok a t"
    "a \<noteq> 0" "tx_ok {} Map.empty k t" "grown ip 1 s1 t" "blk (view t) (i_addrs (ino ip t)) (NDIRECT + e) = a"
    "\<forall>j<MAXFILE. j \<noteq> NDIRECT + e \<longrightarrow> blk (view t) (i_addrs (ino ip t)) j = blk (view s1) (i_addrs (ino ip s1)) j"
    "blk (view s1) (i_addrs (ino ip s1)) (NDIRECT + e) = 0 \<longrightarrow> view t a = replicate BSIZE 0 \<and> \<not> data_block s1 a"
    "blk (view s1) (i_addrs (ino ip s1)) (NDIRECT + e) \<noteq> 0 \<longrightarrow> a = blk (view s1) (i_addrs (ino ip s1)) (NDIRECT + e)"
    using bmap_indirect_law[of k s1 ip e] g(2,3) s1(2,5) e(2) by auto
  have "bmap ip bn s = Ok a t" using t(1) s1(1,2,5) e by (simp add: bmap_def Let_def)
  moreover have "grown ip 2 s t" using grown_trans[OF s1(4) t(4)] by (simp add: numeral_2_eq_2)
  ultimately show ?thesis using t s1(6) assms(6) e(1) g(5) by (intro exI[of _ a] exI[of _ t]) auto
qed

end
