(* ===== verification/Spec2Isabelle.thy ===== *)
theory Spec2Isabelle
  imports Trap Shparse Fslaws
begin

text \<open>
  A verification development of xv6 for RISC-V (\<open>src/kernel\<close>, \<open>src/user\<close>).

  \<^bold>\<open>The program.\<close>  The kernel runs on several harts that share memory.  Spin locks and sleep locks
  (\<open>spinlock.c\<close>, \<open>sleeplock.c\<close>) protect its data; a process that waits calls \<open>sleep\<close> and gives the
  hart back to the scheduler (\<open>proc.c\<close>).  Pages come from \<open>kalloc.c\<close> and are mapped by the Sv39 page
  tables of \<open>vm.c\<close>.  Disk blocks are cached by \<open>bio.c\<close>, made crash-safe by the redo log of \<open>log.c\<close>
  and organised into inodes, directories and paths by \<open>fs.c\<close>.  Open files, pipes and the console
  (\<open>file.c\<close>, \<open>pipe.c\<close>, \<open>console.c\<close>, \<open>uart.c\<close>, \<open>printf.c\<close>) sit on top, and processes are
  created, duplicated and collected by the rest of \<open>proc.c\<close> and given a program by \<open>exec.c\<close>.  A trap
  enters the kernel through \<open>trap.c\<close>, which serves device interrupts and calls the system call that
  \<open>syscall.c\<close> finds in its table (\<open>sysproc.c\<close>, \<open>sysfile.c\<close>).  \<open>virtio_disk.c\<close> drives the disk.  User
  programs, the shell among them, see the kernel only through system calls.

  \<^bold>\<open>State and outcomes.\<close>  The kernel state is one extensible record that grows layer by layer:
  \<open>base\<close> (harts, locks, processes; \<open>Machine\<close>), \<open>memory\<close> (RAM, free list; \<open>Kalloc\<close>), \<open>bio\<close> (buffers,
  disk; \<open>Bio\<close>), \<open>logging\<close> (\<open>Log\<close>), \<open>fs\<close> (super block, inode table; \<open>Fs\<close>), \<open>console\<close> (\<open>Console\<close>), \<open>files\<close>
  (file table, pipes; \<open>File\<close>), \<open>kern\<close> (the tick count; \<open>Syscall\<close>), \<open>virtio\<close> (rings and descriptors shared with
  the disk; \<open>Virtio\<close>), \<open>trap\<close> (control registers and the interrupt controller; \<open>Trap\<close>).  An operation of a lower layer runs unchanged on the state of a
  higher one.  Each C function is a definition of the same name from its arguments and the state to
  an outcome \<open>res\<close> (\<open>Prelude\<close>): it returns (\<open>Ok\<close>), panics, spins, leaves the CPU in \<open>sched\<close> (\<open>Away\<close>), or
  has undefined behaviour (\<open>Undef\<close>).  Every \<open>acquire\<close>, \<open>release\<close> and early return of the code is
  there.

  A user program is a function of a \<open>world\<close> (\<open>User\<close>): the answers its system calls will get, and the calls made so
  far.  Its outcome is a result, an exit status, waiting for an answer that is not there, or a crash.

  \<^bold>\<open>Theories.\<close>
  \<^item> \<open>Prelude\<close>, \<open>Params\<close>: outcomes, byte strings, C integer types; the constants of the headers.
  \<^item> \<open>CString\<close>: \<open>string.c\<close> over byte-addressed memory.
  \<^item> \<open>Machine\<close>, \<open>Spinlock\<close>, \<open>Sched\<close>: \<open>proc.h\<close>, \<open>spinlock.c\<close>, \<open>sleeplock.c\<close>, scheduling and
    sleep/wakeup of \<open>proc.c\<close>; mutual exclusion is proved over the interleavings of the atomic
    accesses of any number of harts.
  \<^item> \<open>Kalloc\<close>, \<open>Vm\<close>: \<open>kalloc.c\<close>, \<open>vm.c\<close>; the allocator hands out each page once, and user memory is
    what a page table makes of RAM.
  \<^item> \<open>Bio\<close>, \<open>Log\<close>, \<open>Fs\<close>: \<open>bio.c\<close>, \<open>log.c\<close>, \<open>fs.c\<close>; the cache shows current block contents, the log
    makes a transaction atomic under a crash at any write.
  \<^item> \<open>Fslaws\<close>: what \<open>balloc\<close>, \<open>bfree\<close> and \<open>bmap\<close> do to the blocks the log shows, proved over the interface
    \<open>block_store\<close> that \<open>Log\<close> provides.
  \<^item> \<open>Format\<close>, \<open>RingBuf\<close>, \<open>Console\<close>, \<open>File\<close>: \<open>printf.c\<close> of kernel and user library, circular
    buffers, \<open>uart.c\<close>, \<open>console.c\<close>, \<open>file.c\<close>, \<open>pipe.c\<close>; pipes and console input are queues.  The two \<open>printf\<close>
    are separate definitions with their own digits and switches, and are proved to print the same up to the
    case of hex digits.
  \<^item> \<open>Proc\<close>, \<open>Exec\<close>: the part of \<open>proc.c\<close> that creates and collects processes; \<open>exec.c\<close>.
  \<^item> \<open>Syscall\<close>: \<open>syscall.c\<close>, \<open>sysproc.c\<close>, \<open>sysfile.c\<close>.
  \<^item> \<open>Virtio\<close>: \<open>virtio_disk.c\<close>; driver, device, interrupt handler and scheduler together perform the
    block transfer that the buffer cache takes for granted.  The device is an argument; the hypothesis on it
    (\<open>virtio_blk_device\<close>) is what the virtio specification promises of a block device: a request that is
    well formed and has been announced by a write to \<open>QUEUE_NOTIFY\<close> moves the bytes at 512 times its sector,
    stores the status and enters the used ring.
  \<^item> \<open>Trap\<close>: \<open>trap.c\<close>, \<open>plic.c\<close>, \<open>main.c\<close>, \<open>start.c\<close>.
  \<^item> \<open>User\<close>, \<open>Textutil\<close>: \<open>ulib.c\<close>, \<open>printf.c\<close> of the user library and the small programs; \<open>grep\<close> and \<open>wc\<close>,
    whose output is a function of their input however it is cut into reads.
  \<^item> \<open>Sh\<close>, \<open>Shparse\<close>: the shell; its parser comes back on every line, builds well-formed commands and
    reads a pipeline back as it was written.

  \<^bold>\<open>Interfaces.\<close>  The locales \<open>page_allocator\<close> (\<open>Kalloc\<close>), \<open>block_store\<close> (\<open>Log\<close>) and \<open>ring_buffer\<close>
  (\<open>RingBuf\<close>) state what a client relies on; each is interpreted on the model's definitions.

  \<^bold>\<open>Bounds and fuel.\<close>  Loops over tables run over the index list of the table.  A scan of the buffer
  ring gets \<open>NBUF + 1\<close> steps, enough for a well-formed ring; loops over virtual addresses end because
  \<open>walk\<close> panics at \<open>MAXVA\<close>; \<open>freewalk\<close> descends the three levels of a page table.  The walk along a
  descriptor chain gets \<open>NUM + 1\<close> steps, after which a circular chain has met a free descriptor
  (\<open>free_chain_ends\<close>).  The shell's parser gets four steps per byte of the line and four more, which
  \<open>parsecmd_comes_back\<close> shows to be enough.  Loops of user programs end with the answers of the world.  Block and inode
  numbers are naturals, as are offsets within a file after the code's own overflow checks.

  \<^bold>\<open>Not modelled.\<close>  Assembly (\<open>entry.S\<close>, \<open>swtch.S\<close>, \<open>trampoline.S\<close>, \<open>kernelvec.S\<close>) and the CSR accessors
  of \<open>riscv.h\<close>; the TLB; messages of \<open>printf\<close> in the layers below the console; \<open>mkfs\<close>, \<open>umalloc.c\<close> and the
  test programs (\<open>usertests.c\<close>, \<open>grind.c\<close>, \<open>forktest.c\<close>, \<open>stressfs.c\<close>, \<open>logstress.c\<close>, \<open>forphan.c\<close>,
  \<open>dorphan.c\<close>).  A call that sleeps ends in \<open>Away\<close>, and what follows when it is resumed is the named
  loop definition on the state it then finds.
\<close>

end
